(* ===== verification/Prelude.thy ===== *)
theory Prelude
  imports Main "HOL-Library.Multiset" "HOL-Library.Word" "HOL-Library.Code_Target_Numeral"
begin

text \<open>
  What the components share: fixed-width arithmetic on natural numbers with
  the wrap-around written out, the array and list facts the component proofs
  rest on, and the theorem collections they extend.

  The kernel computes on \<open>uintptr_t\<close>, \<open>size_t\<close> and \<open>uint64_t\<close> (64 bits) and
  \<open>uint32_t\<close>.  Where an operation of the source can leave the range of its
  type the model uses \<open>wadd\<close>, \<open>wsub\<close>, \<open>wmul\<close> at that width; elsewhere the
  plain operation of \<^typ>\<open>nat\<close>.
\<close>

unbundle bit_operations_syntax

named_theorems inv_defs \<open>definitions of the component invariants\<close>
named_theorems op_defs \<open>definitions of the non-recursive operations\<close>

section \<open>Fixed-width arithmetic on natural numbers\<close>

type_synonym addr = nat

definition wadd :: "nat \<Rightarrow> nat \<Rightarrow> nat \<Rightarrow> nat" where
  "wadd w a b = (a + b) mod 2 ^ w"

definition wsub :: "nat \<Rightarrow> nat \<Rightarrow> nat \<Rightarrow> nat" where
  "wsub w a b = (a + (2 ^ w - b mod 2 ^ w)) mod 2 ^ w"

definition wmul :: "nat \<Rightarrow> nat \<Rightarrow> nat \<Rightarrow> nat" where
  "wmul w a b = (a * b) mod 2 ^ w"

lemma wadd_small: "a + b < 2 ^ w \<Longrightarrow> wadd w a b = a + b"
  by (simp add: wadd_def)

lemma wmul_small: "a * b < 2 ^ w \<Longrightarrow> wmul w a b = a * b"
  by (simp add: wmul_def)

lemma wsub_small:
  assumes "b \<le> a" and "a < 2 ^ w"
  shows "wsub w a b = a - b"
proof -
  have "a + (2 ^ w - b mod 2 ^ w) = (a - b) + 2 ^ w"
    using assms by simp
  then show ?thesis
    using assms by (simp only: wsub_def mod_add_self2) simp
qed

lemma wadd_less [simp]: "wadd w a b < 2 ^ w"
  by (simp add: wadd_def)

lemma wsub_less [simp]: "wsub w a b < 2 ^ w"
  by (simp add: wsub_def)

lemma wsub_wadd_cancel:
  assumes "a < 2 ^ w"
  shows "wsub w (wadd w a b) b = a"
proof -
  have "wsub w (wadd w a b) b = (a + b + (2 ^ w - b mod 2 ^ w)) mod 2 ^ w"
    by (simp only: wsub_def wadd_def mod_add_left_eq)
  also have "\<dots> = (a + (b mod 2 ^ w + (2 ^ w - b mod 2 ^ w))) mod 2 ^ w"
    by (metis add.assoc mod_add_left_eq mod_add_right_eq)
  also have "b mod 2 ^ w + (2 ^ w - b mod 2 ^ w) = 2 ^ w"
    by simp
  finally show ?thesis
    using assms by simp
qed

section \<open>Alignment and bitwise facts\<close>

lemma nat_xor_power_two:
  fixes a n :: nat
  assumes "a mod 2 ^ n = 0"
  shows "a XOR 2 ^ n = (if even (a div 2 ^ n) then a + 2 ^ n else a - 2 ^ n)"
proof -
  define q where "q = a div 2 ^ n"
  have a: "a = push_bit n q"
    using assms by (simp add: q_def push_bit_eq_mult mod_0_imp_dvd)
  have "a XOR 2 ^ n = push_bit n (q XOR Suc 0)"
    by (simp only: a push_bit_xor) (simp add: push_bit_eq_mult)
  then show ?thesis
    by (simp add: a push_bit_eq_mult diff_mult_distrib xor_Suc_0_eq)
qed

lemma mod_mult_left_zero:
  fixes a :: nat
  shows "a mod (b * c) = 0 \<Longrightarrow> a mod b = 0"
  by auto

lemma mod_pow_le:
  fixes a :: nat
  assumes "a mod (c * 2 ^ k) = 0" and "j \<le> k"
  shows "a mod (c * 2 ^ j) = 0"
  using assms by (meson dvd_eq_mod_eq_0 dvd_trans le_imp_power_dvd mult_dvd_mono dvd_refl)

section \<open>Arrays\<close>

lemma sum_list_update:
  fixes f :: "nat \<Rightarrow> 'a \<Rightarrow> 'm :: comm_monoid_add"
  assumes "i < length xs"
  shows "(\<Sum>j<length xs. f j (xs[i := x] ! j)) + f i (xs ! i) = (\<Sum>j<length xs. f j (xs ! j)) + f i x"
proof -
  have split: "(\<Sum>j<length xs. g j) = g i + (\<Sum>j\<in>{..<length xs} - {i}. g j)" for g :: "nat \<Rightarrow> 'm"
    using assms by (simp add: sum.remove)
  have "(\<Sum>j\<in>{..<length xs} - {i}. f j (xs[i := x] ! j)) = (\<Sum>j\<in>{..<length xs} - {i}. f j (xs ! j))"
    by (rule sum.cong) auto
  then show ?thesis
    using assms by (simp add: split [of "\<lambda>j. f j (xs[i := x] ! j)"] split [of "\<lambda>j. f j (xs ! j)"] ac_simps)
qed

definition mset_distinct :: "'a multiset \<Rightarrow> bool" where
  "mset_distinct M \<longleftrightarrow> (\<forall>x\<in>#M. count M x = 1)"

lemma mset_distinct_iff: "mset_distinct M \<longleftrightarrow> (\<forall>x. count M x \<le> 1)"
  unfolding mset_distinct_def
  by (metis count_greater_eq_one_iff le_antisym not_in_iff zero_le_one order_refl)

lemma mset_distinct_subset: "mset_distinct M \<Longrightarrow> N \<subseteq># M \<Longrightarrow> mset_distinct N"
  by (meson mset_distinct_iff mset_subset_eq_count order_trans)

lemma mset_distinct_add:
  "mset_distinct (M + N) \<longleftrightarrow> mset_distinct M \<and> mset_distinct N \<and> set_mset M \<inter> set_mset N = {}"
proof -
  have "(m + n \<le> 1) \<longleftrightarrow> m \<le> 1 \<and> n \<le> 1 \<and> \<not> (0 < m \<and> 0 < n)" for m n :: nat
    by arith
  then have "mset_distinct (M + N) \<longleftrightarrow>
      (\<forall>x. count M x \<le> 1) \<and> (\<forall>x. count N x \<le> 1) \<and> (\<forall>x. \<not> (0 < count M x \<and> 0 < count N x))"
    by (simp only: mset_distinct_iff count_union) blast
  then show ?thesis
    by (simp only: mset_distinct_iff [symmetric] count_greater_zero_iff disjoint_iff) blast
qed

lemma mset_distinct_add_mset [simp]: "mset_distinct (add_mset x M) \<longleftrightarrow> x \<notin># M \<and> mset_distinct M"
  using mset_distinct_add [of "{#x#}" M] by (auto simp: mset_distinct_def)

lemma mset_distinct_mset [simp]: "mset_distinct (mset xs) \<longleftrightarrow> distinct xs"
  by (auto simp: mset_distinct_def distinct_count_atmost_1)

lemma mset_distinct_empty [simp]: "mset_distinct {#}"
  by (simp add: mset_distinct_def)

lemma mset_distinct_size:
  assumes "mset_distinct M" and "set_mset M \<subseteq> A" and "finite A"
  shows "size M \<le> card A"
proof -
  have "size M = (\<Sum>x\<in>set_mset M. 1)"
    using assms(1) by (simp add: size_multiset_overloaded_eq mset_distinct_def)
  then show ?thesis
    using assms by (simp add: card_mono)
qed

lemma take_1_drop: "i < length xs \<Longrightarrow> take (Suc 0) (drop i xs) = [xs ! i]"
  by (simp add: take_Suc_conv_app_nth)

lemma mset_update_add:
  assumes "i < length xs"
  shows "mset (xs[i := x]) + {#xs ! i#} = mset xs + {#x#}"
  using assms by (simp add: mset_update)

lemma filter_update_less:
  assumes "i < length xs" and "P (xs ! i)" and "\<not> P y"
  shows "length (filter P (xs[i := y])) < length (filter P xs)"
  using assms
proof (induction xs arbitrary: i)
  case (Cons x xs)
  then show ?case
    by (cases i) auto
qed simp

end
