(* ===== verification/Frame_Source.thy ===== *)
theory Frame_Source
  imports Prelude
begin

text \<open>
  The interface between the providers of physical page frames (the buddy
  allocator, the per-CPU page cache in front of it) and their clients: the
  operations a client calls and the laws it relies on.  A caller is the CPU
  the call runs on.  Frames are counted by number, \<open>address div 4096\<close>.

  The lemmas of the interface follow a client through a sequence of calls:
  frames are conserved, and no frame is handed out twice while it is live.
\<close>

datatype 'c frame_op = Get 'c | Put 'c nat

text \<open>One call of a client holding the frames \<open>live\<close>; it only releases frames it holds.\<close>

fun client_step ::
  "('c \<Rightarrow> 's \<Rightarrow> addr \<times> 's) \<Rightarrow> ('c \<Rightarrow> addr \<Rightarrow> 's \<Rightarrow> 's) \<Rightarrow> 'c frame_op \<Rightarrow> 's \<times> nat list \<Rightarrow> 's \<times> nat list" where
  "client_step get put (Get c) (s, live) =
    (case get c s of (a, s') \<Rightarrow> (s', if a = 0 then live else (a div 4096) # live))"
| "client_step get put (Put c p) (s, live) =
    (if p \<in> set live then (put c (p * 4096) s, remove1 p live) else (s, live))"

definition client_run ::
  "('c \<Rightarrow> 's \<Rightarrow> addr \<times> 's) \<Rightarrow> ('c \<Rightarrow> addr \<Rightarrow> 's \<Rightarrow> 's) \<Rightarrow> 'c frame_op list \<Rightarrow> 's \<times> nat list \<Rightarrow> 's \<times> nat list" where
  "client_run get put = fold (client_step get put)"

primrec caller :: "'c frame_op \<Rightarrow> 'c" where
  "caller (Get c) = c"
| "caller (Put c p) = c"

locale frame_source =
  fixes ok :: "'c \<Rightarrow> bool"
    and invar :: "'s \<Rightarrow> bool"
    and avail :: "'s \<Rightarrow> nat multiset"
    and arena :: "'s \<Rightarrow> nat set"
    and get :: "'c \<Rightarrow> 's \<Rightarrow> addr \<times> 's"
    and put :: "'c \<Rightarrow> addr \<Rightarrow> 's \<Rightarrow> 's"
  assumes avail_distinct: "invar s \<Longrightarrow> mset_distinct (avail s) \<and> set_mset (avail s) \<subseteq> arena s"
    and arena_nonzero: "invar s \<Longrightarrow> 0 \<notin> arena s"
    and get_some: "invar s \<Longrightarrow> ok c \<Longrightarrow> get c s = (a, s') \<Longrightarrow> a \<noteq> 0 \<Longrightarrow>
      invar s' \<and> a mod 4096 = 0 \<and> avail s = add_mset (a div 4096) (avail s') \<and> arena s' = arena s"
    and get_none: "invar s \<Longrightarrow> ok c \<Longrightarrow> get c s = (0, s') \<Longrightarrow>
      invar s' \<and> avail s' = avail s \<and> arena s' = arena s"
    and put_back: "invar s \<Longrightarrow> ok c \<Longrightarrow> p \<in> arena s \<Longrightarrow> p \<notin># avail s \<Longrightarrow>
      invar (put c (p * 4096) s) \<and> avail (put c (p * 4096) s) = add_mset p (avail s) \<and>
      arena (put c (p * 4096) s) = arena s"
begin

definition client_inv :: "'s \<times> nat list \<Rightarrow> bool" where
  "client_inv = (\<lambda>(s, live). invar s \<and> mset_distinct (avail s + mset live) \<and> set live \<subseteq> arena s)"

lemma step_conserves:
  assumes "client_inv (s, live)" and "ok (caller p)" and "client_step get put p (s, live) = (s', live')"
  shows "client_inv (s', live') \<and> avail s' + mset live' = avail s + mset live \<and> arena s' = arena s"
proof (cases p)
  case (Get c)
  obtain a t where t: "get c s = (a, t)"
    by (cases "get c s")
  show ?thesis
  proof (cases "a = 0")
    case True
    then show ?thesis
      using assms t Get get_none [of s c t] by (auto simp: client_inv_def)
  next
    case False
    then have "s' = t" "live' = (a div 4096) # live"
      using assms t Get by auto
    then show ?thesis
      using assms t Get False get_some [of s c a t] avail_distinct [of s]
      by (auto simp: client_inv_def)
  qed
next
  case (Put c q)
  show ?thesis
  proof (cases "q \<in> set live")
    case True
    then have "q \<in> arena s" "q \<notin># avail s" "mset live = add_mset q (mset (remove1 q live))"
      using assms(1) by (auto simp: client_inv_def mset_distinct_add)
    moreover have "set (remove1 q live) \<subseteq> arena s"
      using assms(1) set_remove1_subset [of q live] by (auto simp: client_inv_def)
    ultimately show ?thesis
      using assms True Put put_back [of s c q] by (auto simp: client_inv_def simp del: mset_remove1)
  qed (use assms Put in auto)
qed

lemma run_conserves:
  assumes "client_inv (s, live)" and "\<forall>p\<in>set ops. ok (caller p)"
    and "client_run get put ops (s, live) = (s', live')"
  shows "client_inv (s', live') \<and> avail s' + mset live' = avail s + mset live \<and> arena s' = arena s"
  using assms
proof (induction ops arbitrary: s live)
  case (Cons p ops)
  obtain t l where step: "client_step get put p (s, live) = (t, l)"
    by (cases "client_step get put p (s, live)")
  have "client_inv (t, l) \<and> avail t + mset l = avail s + mset live \<and> arena t = arena s"
    using step_conserves [OF Cons.prems(1) _ step] Cons.prems(2) by simp
  then show ?case
    using Cons.IH [of t l] Cons.prems step by (simp add: client_run_def)
qed (simp add: client_run_def)

lemma no_double_allocation:
  assumes "invar s" and "\<forall>p\<in>set ops. ok (caller p)" and "client_run get put ops (s, []) = (s', live)"
  shows "distinct live \<and> set live \<inter> set_mset (avail s') = {} \<and> set live \<subseteq> arena s \<and> 0 \<notin> set live \<and>
    avail s' + mset live = avail s"
proof -
  have "client_inv (s, [])"
    using assms(1) avail_distinct by (simp add: client_inv_def)
  from run_conserves [OF this assms(2,3)] show ?thesis
    using arena_nonzero [OF assms(1)] by (auto simp: client_inv_def mset_distinct_add)
qed

end

text \<open>A source that only refuses when it has nothing left.\<close>

locale exhaustive_source = frame_source +
  assumes get_none_empty: "invar s \<Longrightarrow> ok c \<Longrightarrow> get c s = (0, s') \<Longrightarrow> avail s = {#}"
begin

lemma get_succeeds:
  assumes "invar s" and "ok c" and "avail s \<noteq> {#}"
  obtains a s' where "get c s = (a, s')" and "a \<noteq> 0"
  using assms get_none_empty [of s c] by (cases "get c s") metis

end

end
