(* ===== verification/Buddy.thy ===== *)
theory Buddy
  imports Frame_Source
begin

text \<open>
  The buddy allocator of physical page frames
  (\<open>src/src/kernel/memory/buddy.cpp\<close>, class \<open>buddy_allocator\<close>).

  The free ls are threaded through the free pages themselves; list number
  \<open>k\<close> is modelled by the sequence of the addresses of its blocks, head first.
  A block whose address is 0 is the null pointer, so linking it in front of a
  list empties the list: \<open>link_front\<close> keeps that.  \<open>block->order\<close> is written
  but never read by the code and has no counterpart.  The lock and the
  message of \<open>init\<close> have no effect on the state.
\<close>

section \<open>Model\<close>

definition PAGE_SIZE :: nat where
  "PAGE_SIZE = 4096"

definition MAX_ORDER :: nat where
  "MAX_ORDER = 10"

record buddy_allocator =
  free_lists :: "addr list list"
  buddy_base :: addr
  buddy_total :: nat
  buddy_free :: nat

definition link_front :: "addr \<Rightarrow> addr list \<Rightarrow> addr list" where
  "link_front block next = (if block = 0 then [] else block # next)"

function pages_to_order_loop :: "nat \<Rightarrow> nat \<Rightarrow> nat \<Rightarrow> nat" where
  "pages_to_order_loop n sz order =
    (if sz < n \<and> 0 < sz then pages_to_order_loop n (2 * sz) (order + 1) else order)"
  by pat_completeness auto
termination
  by (relation "measure (\<lambda>(n, sz, order). n - sz)") auto

definition pages_to_order :: "nat \<Rightarrow> nat" where
  "pages_to_order n =
    (if n \<le> 1 then 0
     else if n > 2 ^ MAX_ORDER then MAX_ORDER + 1
     else pages_to_order_loop n 1 0)"

definition buddy_of :: "addr \<Rightarrow> nat \<Rightarrow> addr" where
  "buddy_of addr order = addr XOR (PAGE_SIZE * 2 ^ order)"

text \<open>The inner loop of \<open>init\<close>: the largest order that fits and is aligned.\<close>

primrec fit_order :: "addr \<Rightarrow> nat \<Rightarrow> nat \<Rightarrow> nat" where
  "fit_order addr remaining 0 = 0"
| "fit_order addr remaining (Suc k) =
    (if 2 ^ Suc k \<le> remaining \<and> addr mod (2 ^ Suc k * PAGE_SIZE) = 0 then Suc k
     else fit_order addr remaining k)"

lemma fit_order_fits: "0 < remaining \<Longrightarrow> 2 ^ fit_order addr remaining k \<le> remaining"
  by (induction k) auto

function init_loop :: "addr \<Rightarrow> nat \<Rightarrow> buddy_allocator \<Rightarrow> buddy_allocator" where
  "init_loop addr remaining b =
    (if remaining > 0 then
       let order = fit_order addr remaining MAX_ORDER;
           block_pages = 2 ^ order;
           b = b\<lparr>free_lists := (free_lists b)[order := link_front addr (free_lists b ! order)],
                 buddy_free := wadd 64 (buddy_free b) block_pages\<rparr>
       in init_loop (wadd 64 addr (block_pages * PAGE_SIZE)) (remaining - block_pages) b
     else b)"
  by pat_completeness auto
termination
  by (relation "measure (\<lambda>(addr, remaining, b). remaining)") auto

definition buddy_init :: "addr \<Rightarrow> nat \<Rightarrow> buddy_allocator" where
  "buddy_init base npages =
    init_loop base npages
      \<lparr>free_lists = replicate (MAX_ORDER + 1) [], buddy_base = base, buddy_total = npages, buddy_free = 0\<rparr>"

text \<open>The search and the split loop of \<open>alloc\<close>.\<close>

function find_order :: "addr list list \<Rightarrow> nat \<Rightarrow> nat" where
  "find_order ls current =
    (if current \<le> MAX_ORDER \<and> ls ! current = [] then find_order ls (current + 1) else current)"
  by pat_completeness auto
termination
  by (relation "measure (\<lambda>(ls, current). MAX_ORDER + 1 - current)") auto

function split_down :: "addr \<Rightarrow> nat \<Rightarrow> nat \<Rightarrow> addr list list \<Rightarrow> addr list list" where
  "split_down addr order current ls =
    (if current > order then
       let current = current - 1;
           buddy_addr = wadd 64 addr (PAGE_SIZE * 2 ^ current)
       in split_down addr order current (ls[current := link_front buddy_addr (ls ! current)])
     else ls)"
  by pat_completeness auto
termination
  by (relation "measure (\<lambda>(addr, order, current, ls). current)") auto

definition buddy_alloc :: "nat \<Rightarrow> buddy_allocator \<Rightarrow> addr \<times> buddy_allocator" where
  "buddy_alloc order b =
    (if order > MAX_ORDER then (0, b)
     else
       let current = find_order (free_lists b) order in
       if current > MAX_ORDER then (0, b)
       else
         let addr = hd (free_lists b ! current);
             ls = (free_lists b)[current := tl (free_lists b ! current)];
             ls = split_down addr order current ls
         in (addr, b\<lparr>free_lists := ls, buddy_free := wsub 64 (buddy_free b) (2 ^ order)\<rparr>))"

text \<open>The search of a list for the buddy, unlinking it when it is found.\<close>

fun unlink_block :: "addr \<Rightarrow> addr list \<Rightarrow> addr list option" where
  "unlink_block x [] = None"
| "unlink_block x (y # ys) = (if y \<noteq> x then map_option (Cons y) (unlink_block x ys) else Some ys)"

function coalesce :: "addr \<Rightarrow> nat \<Rightarrow> addr list list \<Rightarrow> addr \<times> nat \<times> addr list list" where
  "coalesce addr order ls =
    (if order < MAX_ORDER then
       let buddy_addr = buddy_of addr order in
       case unlink_block buddy_addr (ls ! order) of
         None \<Rightarrow> (addr, order, ls)
       | Some rest \<Rightarrow>
           coalesce (if buddy_addr < addr then buddy_addr else addr) (order + 1) (ls[order := rest])
     else (addr, order, ls))"
  by pat_completeness auto
termination
  by (relation "measure (\<lambda>(addr, order, ls). MAX_ORDER - order)") auto

definition buddy_free_rejects :: "addr \<Rightarrow> nat \<Rightarrow> buddy_allocator \<Rightarrow> bool" where
  "buddy_free_rejects addr order b \<longleftrightarrow>
     addr = 0 \<or> order > MAX_ORDER \<or> addr < buddy_base b \<or> addr mod (PAGE_SIZE * 2 ^ order) \<noteq> 0 \<or>
     (addr - buddy_base b) div PAGE_SIZE \<ge> buddy_total b \<or>
     2 ^ order > buddy_total b - (addr - buddy_base b) div PAGE_SIZE"

definition buddy_free_block :: "addr \<Rightarrow> nat \<Rightarrow> buddy_allocator \<Rightarrow> buddy_allocator" where
  "buddy_free_block addr order b =
    (if buddy_free_rejects addr order b then b
     else
       let (addr', order', ls) = coalesce addr order (free_lists b)
       in b\<lparr>buddy_free := wadd 64 (buddy_free b) (2 ^ order),
            free_lists := ls[order' := link_front addr' (ls ! order')]\<rparr>)"

definition buddy_alloc_pages :: "nat \<Rightarrow> buddy_allocator \<Rightarrow> addr \<times> buddy_allocator" where
  "buddy_alloc_pages n b =
    (if n = 0 then (0, b) else buddy_alloc (pages_to_order n) b)"

definition buddy_alloc_page :: "buddy_allocator \<Rightarrow> addr \<times> buddy_allocator" where
  "buddy_alloc_page b = buddy_alloc 0 b"

definition buddy_free_page :: "addr \<Rightarrow> buddy_allocator \<Rightarrow> buddy_allocator" where
  "buddy_free_page addr b = buddy_free_block addr 0 b"

declare pages_to_order_loop.simps [simp del] init_loop.simps [simp del] find_order.simps [simp del]
  split_down.simps [simp del] coalesce.simps [simp del]

section \<open>Frames and the invariant\<close>

definition block_frames :: "addr \<Rightarrow> nat \<Rightarrow> nat multiset" where
  "block_frames a k = mset [a div PAGE_SIZE ..< a div PAGE_SIZE + 2 ^ k]"

definition list_frames :: "nat \<Rightarrow> addr list \<Rightarrow> nat multiset" where
  "list_frames k xs = (\<Sum>a\<leftarrow>xs. block_frames a k)"

definition lists_frames :: "addr list list \<Rightarrow> nat multiset" where
  "lists_frames ls = (\<Sum>k<length ls. list_frames k (ls ! k))"

definition free_frames :: "buddy_allocator \<Rightarrow> nat multiset" where
  "free_frames b = lists_frames (free_lists b)"

definition arena_frames :: "buddy_allocator \<Rightarrow> nat set" where
  "arena_frames b = {buddy_base b div PAGE_SIZE ..< buddy_base b div PAGE_SIZE + buddy_total b}"

definition block_ok :: "addr \<Rightarrow> nat \<Rightarrow> nat \<Rightarrow> addr \<Rightarrow> bool" where
  "block_ok base npages k a \<longleftrightarrow>
     a \<noteq> 0 \<and> a mod (PAGE_SIZE * 2 ^ k) = 0 \<and> base \<le> a \<and> a + PAGE_SIZE * 2 ^ k \<le> base + PAGE_SIZE * npages"

definition arena_ok :: "addr \<Rightarrow> nat \<Rightarrow> bool" where
  "arena_ok base npages \<longleftrightarrow> 0 < base \<and> base mod PAGE_SIZE = 0 \<and> base + PAGE_SIZE * npages < 2 ^ 64"

definition lists_ok :: "addr \<Rightarrow> nat \<Rightarrow> addr list list \<Rightarrow> bool" where
  "lists_ok base npages ls \<longleftrightarrow>
     length ls = MAX_ORDER + 1 \<and> (\<forall>k<length ls. \<forall>a\<in>set (ls ! k). block_ok base npages k a)"

text \<open>No two free blocks of the same order are buddies of each other.\<close>

definition coalesced :: "addr list list \<Rightarrow> bool" where
  "coalesced ls \<longleftrightarrow> (\<forall>k<MAX_ORDER. \<forall>a\<in>set (ls ! k). buddy_of a k \<notin> set (ls ! k))"

definition buddy_inv :: "buddy_allocator \<Rightarrow> bool" where
  "buddy_inv b \<longleftrightarrow>
     arena_ok (buddy_base b) (buddy_total b) \<and>
     lists_ok (buddy_base b) (buddy_total b) (free_lists b) \<and>
     mset_distinct (free_frames b) \<and>
     buddy_free b = size (free_frames b)"

lemma page_size_pos [simp]: "0 < PAGE_SIZE" "PAGE_SIZE \<noteq> 0"
  by (simp_all add: PAGE_SIZE_def)

lemma list_frames_simps [simp]:
  "list_frames k [] = {#}"
  "list_frames k (a # xs) = block_frames a k + list_frames k xs"
  by (simp_all add: list_frames_def)

lemma list_frames_remove1:
  "a \<in> set xs \<Longrightarrow> list_frames k (remove1 a xs) + block_frames a k = list_frames k xs"
  by (induction xs) (auto simp: ac_simps)

lemma lists_frames_update:
  "k < length ls \<Longrightarrow>
    lists_frames (ls[k := xs]) + list_frames k (ls ! k) = lists_frames ls + list_frames k xs"
  unfolding lists_frames_def using sum_list_update [of k ls list_frames xs] by simp

lemma lists_frames_remove1:
  assumes "k < length ls" and "a \<in> set (ls ! k)"
  shows "lists_frames (ls[k := remove1 a (ls ! k)]) + block_frames a k = lists_frames ls"
proof -
  have "lists_frames (ls[k := remove1 a (ls ! k)]) + (list_frames k (remove1 a (ls ! k)) + block_frames a k) =
      lists_frames ls + list_frames k (remove1 a (ls ! k))"
    unfolding list_frames_remove1 [OF assms(2)] by (rule lists_frames_update [OF assms(1)])
  then have "(lists_frames (ls[k := remove1 a (ls ! k)]) + block_frames a k) + list_frames k (remove1 a (ls ! k)) =
      lists_frames ls + list_frames k (remove1 a (ls ! k))"
    by (simp only: ac_simps)
  then show ?thesis
    by (rule add_right_imp_eq)
qed

lemma block_frames_split:
  assumes "a mod PAGE_SIZE = 0"
  shows "block_frames a (Suc k) = block_frames a k + block_frames (a + PAGE_SIZE * 2 ^ k) k"
proof -
  have "(a + PAGE_SIZE * 2 ^ k) div PAGE_SIZE = a div PAGE_SIZE + 2 ^ k"
    by simp
  moreover have "[p ..< p + 2 ^ Suc k] = [p ..< p + 2 ^ k] @ [p + 2 ^ k ..< p + 2 ^ k + 2 ^ k]" for p :: nat
    by (metis mult_2 power_Suc le_add1 add.assoc upt_add_eq_append)
  ultimately show ?thesis
    by (simp only: block_frames_def mset_append)
qed

lemma size_block_frames [simp]: "size (block_frames a k) = 2 ^ k"
  by (simp add: block_frames_def)

lemma distinct_block_frames [simp]: "mset_distinct (block_frames a k)"
  by (simp add: block_frames_def del: mset_upt)

lemma set_block_frames: "set_mset (block_frames a k) = {a div PAGE_SIZE ..< a div PAGE_SIZE + 2 ^ k}"
  by (simp add: block_frames_def)

lemma lists_ok_nth: "lists_ok base npages ls \<Longrightarrow> k \<le> MAX_ORDER \<Longrightarrow> a \<in> set (ls ! k) \<Longrightarrow> block_ok base npages k a"
  by (simp add: lists_ok_def)

lemma lists_ok_length: "lists_ok base npages ls \<Longrightarrow> length ls = MAX_ORDER + 1"
  by (simp add: lists_ok_def)

lemma lists_ok_update:
  assumes "lists_ok base npages ls" and "\<And>a. a \<in> set xs \<Longrightarrow> block_ok base npages k a"
  shows "lists_ok base npages (ls[k := xs])"
  using assms unfolding lists_ok_def by (metis length_list_update nth_list_update_eq nth_list_update_neq)

lemma block_ok_page: "block_ok base npages k a \<Longrightarrow> a mod PAGE_SIZE = 0"
  by (auto simp: block_ok_def)

lemma block_ok_halves:
  assumes "block_ok base npages (Suc k) a"
  shows "block_ok base npages k a" and "block_ok base npages k (a + PAGE_SIZE * 2 ^ k)"
proof -
  obtain q where q: "a = PAGE_SIZE * 2 ^ Suc k * q"
    using assms by (auto simp: block_ok_def elim!: dvdE)
  have "a mod (PAGE_SIZE * 2 ^ k) = 0"
    by (simp add: q mult.assoc)
  moreover from this have "(a + PAGE_SIZE * 2 ^ k) mod (PAGE_SIZE * 2 ^ k) = 0"
    by simp
  ultimately show "block_ok base npages k a" and "block_ok base npages k (a + PAGE_SIZE * 2 ^ k)"
    using assms by (auto simp: block_ok_def)
qed

section \<open>Splitting and allocation\<close>

lemma find_order_bounds: "order \<le> find_order ls order"
  by (induction ls order rule: find_order.induct) (subst find_order.simps, auto)

lemma find_order_le: "order \<le> MAX_ORDER + 1 \<Longrightarrow> find_order ls order \<le> MAX_ORDER + 1"
  by (induction ls order rule: find_order.induct) (subst find_order.simps, auto)

lemma find_order_found: "find_order ls order \<le> MAX_ORDER \<Longrightarrow> ls ! find_order ls order \<noteq> []"
  by (induction ls order rule: find_order.induct) (subst find_order.simps, subst (asm) (2) find_order.simps, auto)

lemma find_order_skipped: "order \<le> k \<Longrightarrow> k < find_order ls order \<Longrightarrow> k \<le> MAX_ORDER \<and> ls ! k = []"
proof (induction ls order rule: find_order.induct)
  case (1 ls current)
  show ?case
  proof (cases "current \<le> MAX_ORDER \<and> ls ! current = []")
    case True
    then show ?thesis
      using 1 by (cases "k = current") (auto simp: find_order.simps [of ls current])
  next
    case False
    then show ?thesis
      using 1 by (auto simp: find_order.simps [of ls current])
  qed
qed

lemma block_ok_wadd:
  assumes "arena_ok base npages" and "block_ok base npages (Suc k) a"
  shows "wadd 64 a (PAGE_SIZE * 2 ^ k) = a + PAGE_SIZE * 2 ^ k"
  using assms by (intro wadd_small) (auto simp: block_ok_def arena_ok_def)

lemma split_down_step:
  assumes "arena_ok base npages" and "block_ok base npages (Suc k) a" and "order \<le> k"
  shows "split_down a order (Suc k) ls =
    split_down a order k (ls[k := (a + PAGE_SIZE * 2 ^ k) # ls ! k])"
proof -
  have "a + PAGE_SIZE * 2 ^ k \<noteq> 0"
    using assms(2) by (simp add: block_ok_def)
  then show ?thesis
    using assms(3) by (subst split_down.simps) (simp add: link_front_def block_ok_wadd [OF assms(1,2)])
qed

lemma split_down_done [simp]: "current \<le> order \<Longrightarrow> split_down a order current ls = ls"
  by (simp add: split_down.simps)

lemma split_down_ok:
  assumes "arena_ok base npages"
  shows "block_ok base npages current a \<Longrightarrow> current \<le> MAX_ORDER \<Longrightarrow> lists_ok base npages ls \<Longrightarrow>
    lists_ok base npages (split_down a order current ls)"
proof (induction current arbitrary: ls)
  case (Suc k)
  show ?case
  proof (cases "order \<le> k")
    case True
    have "lists_ok base npages (ls[k := (a + PAGE_SIZE * 2 ^ k) # ls ! k])"
      using Suc.prems block_ok_halves by (intro lists_ok_update) (auto intro: lists_ok_nth)
    then show ?thesis
      using Suc True block_ok_halves by (simp add: split_down_step [OF assms Suc.prems(1)])
  qed (use Suc in simp)
qed simp

lemma split_down_frames:
  assumes "arena_ok base npages"
  shows "block_ok base npages current a \<Longrightarrow> current \<le> MAX_ORDER \<Longrightarrow> order \<le> current \<Longrightarrow>
    length ls = MAX_ORDER + 1 \<Longrightarrow>
    lists_frames (split_down a order current ls) + block_frames a order = lists_frames ls + block_frames a current"
proof (induction current arbitrary: ls)
  case (Suc k)
  show ?case
  proof (cases "order \<le> k")
    case True
    let ?u = "a + PAGE_SIZE * 2 ^ k"
    have "lists_frames (ls[k := ?u # ls ! k]) = lists_frames ls + block_frames ?u k"
      using lists_frames_update [of k ls "?u # ls ! k"] Suc.prems by simp
    moreover have "block_frames a (Suc k) = block_frames a k + block_frames ?u k"
      using Suc.prems(1) by (intro block_frames_split block_ok_page)
    ultimately show ?thesis
      using Suc True block_ok_halves [OF Suc.prems(1)]
      by (simp add: split_down_step [OF assms Suc.prems(1)] ac_simps)
  qed (use Suc in \<open>simp add: le_Suc_eq\<close>)
qed simp

lemma split_down_outside:
  "k < order \<or> current \<le> k \<Longrightarrow> split_down a order current ls ! k = ls ! k"
  by (induction a order current ls rule: split_down.induct) (subst split_down.simps, auto simp: Let_def)

lemma split_down_inside:
  assumes "arena_ok base npages"
  shows "block_ok base npages current a \<Longrightarrow> current \<le> MAX_ORDER \<Longrightarrow> length ls = MAX_ORDER + 1 \<Longrightarrow>
    order \<le> k \<Longrightarrow> k < current \<Longrightarrow>
    split_down a order current ls ! k = (a + PAGE_SIZE * 2 ^ k) # ls ! k"
proof (induction current arbitrary: ls)
  case (Suc j)
  then show ?case
    using block_ok_halves [OF Suc.prems(1)]
    by (cases "k = j") (auto simp: split_down_step [OF assms Suc.prems(1)] split_down_outside)
qed simp

text \<open>What \<open>alloc\<close> does when it succeeds.\<close>

lemma buddy_alloc_cases:
  assumes "buddy_alloc order b = (a, b')"
  obtains (fail) "a = 0" "b' = b" "MAX_ORDER < order \<or> (\<forall>k. order \<le> k \<and> k \<le> MAX_ORDER \<longrightarrow> free_lists b ! k = [])"
  | (ok) current rest where "order \<le> current" "current \<le> MAX_ORDER" "free_lists b ! current = a # rest"
      "\<And>k. order \<le> k \<Longrightarrow> k < current \<Longrightarrow> free_lists b ! k = []"
      "b' = b\<lparr>free_lists := split_down a order current ((free_lists b)[current := rest]),
             buddy_free := wsub 64 (buddy_free b) (2 ^ order)\<rparr>"
proof -
  let ?c = "find_order (free_lists b) order"
  consider "MAX_ORDER < order" | "order \<le> MAX_ORDER" "MAX_ORDER < ?c" | "order \<le> MAX_ORDER" "?c \<le> MAX_ORDER"
    by linarith
  then show thesis
  proof cases
    case 1
    then show ?thesis
      using assms fail by (simp add: buddy_alloc_def)
  next
    case 2
    then have "\<forall>k. order \<le> k \<and> k \<le> MAX_ORDER \<longrightarrow> free_lists b ! k = []"
      using find_order_skipped by (meson order.strict_trans1)
    then show ?thesis
      using 2 assms fail by (simp add: buddy_alloc_def)
  next
    case 3
    obtain x rest where "free_lists b ! ?c = x # rest"
      using find_order_found [OF 3(2)] by (cases "free_lists b ! ?c") auto
    then show ?thesis
      using 3 assms find_order_bounds [of order "free_lists b"] find_order_skipped
      by (intro ok [of ?c rest]) (auto simp: buddy_alloc_def Let_def)
  qed
qed

lemma block_ok_frames:
  assumes "block_ok base npages k a" and "base mod PAGE_SIZE = 0"
  shows "set_mset (block_frames a k) \<subseteq> {base div PAGE_SIZE ..< base div PAGE_SIZE + npages}"
proof -
  obtain p q where pq: "a = PAGE_SIZE * p" "base = PAGE_SIZE * q"
    using block_ok_page [OF assms(1)] assms(2) by (auto elim!: dvdE)
  have "PAGE_SIZE * q \<le> PAGE_SIZE * p" "PAGE_SIZE * (p + 2 ^ k) \<le> PAGE_SIZE * (q + npages)"
    using assms(1) by (auto simp: block_ok_def pq algebra_simps)
  then show ?thesis
    by (auto simp: set_block_frames pq)
qed

lemma lists_ok_frames:
  assumes "lists_ok base npages ls" and "base mod PAGE_SIZE = 0"
  shows "set_mset (lists_frames ls) \<subseteq> {base div PAGE_SIZE ..< base div PAGE_SIZE + npages}"
proof -
  have "set_mset (block_frames a k) \<subseteq> {base div PAGE_SIZE ..< base div PAGE_SIZE + npages}"
    if "k < length ls" "a \<in> set (ls ! k)" for k a
    using that assms by (intro block_ok_frames) (auto simp: lists_ok_def)
  then show ?thesis
    by (auto simp: lists_frames_def list_frames_def set_mset_sum set_mset_sum_list)
qed

lemma buddy_inv_arena:
  assumes "buddy_inv b"
  shows "set_mset (free_frames b) \<subseteq> arena_frames b" and "buddy_free b \<le> buddy_total b" and "buddy_total b < 2 ^ 64"
proof -
  show sub: "set_mset (free_frames b) \<subseteq> arena_frames b"
    unfolding free_frames_def arena_frames_def
    using assms by (intro lists_ok_frames) (auto simp: buddy_inv_def arena_ok_def)
  have "size (free_frames b) \<le> card (arena_frames b)"
    using assms sub by (intro mset_distinct_size) (auto simp: buddy_inv_def arena_frames_def)
  then show "buddy_free b \<le> buddy_total b"
    using assms by (simp add: buddy_inv_def arena_frames_def)
  show "buddy_total b < 2 ^ 64"
    using assms by (auto simp: buddy_inv_def arena_ok_def PAGE_SIZE_def)
qed

lemma buddy_alloc_ok:
  assumes inv: "buddy_inv b" and run: "buddy_alloc order b = (a, b')" and nz: "a \<noteq> 0"
  shows "free_frames b = free_frames b' + block_frames a order"
    and "block_ok (buddy_base b) (buddy_total b) order a"
    and "buddy_inv b'" and "buddy_base b' = buddy_base b" and "buddy_total b' = buddy_total b"
    and "order \<le> MAX_ORDER"
proof -
  let ?B = "buddy_base b" and ?T = "buddy_total b"
  obtain current rest where ok: "order \<le> current" "current \<le> MAX_ORDER" "free_lists b ! current = a # rest"
      "b' = b\<lparr>free_lists := split_down a order current ((free_lists b)[current := rest]),
             buddy_free := wsub 64 (buddy_free b) (2 ^ order)\<rparr>"
    using run nz by (cases rule: buddy_alloc_cases) auto
  let ?ls = "(free_lists b)[current := rest]"
  have arena: "arena_ok ?B ?T" and lok: "lists_ok ?B ?T (free_lists b)"
    using inv by (auto simp: buddy_inv_def)
  have blk: "block_ok ?B ?T current a"
    using lok ok by (intro lists_ok_nth [of _ _ "free_lists b"]) auto
  have lok': "lists_ok ?B ?T ?ls"
    using lok ok by (intro lists_ok_update) (auto intro: lists_ok_nth)
  have "lists_frames ?ls + block_frames a current = lists_frames (free_lists b)"
    using lists_frames_update [of current "free_lists b" rest] ok lists_ok_length [OF lok] by (simp add: ac_simps)
  moreover have "lists_frames (split_down a order current ?ls) + block_frames a order = lists_frames ?ls + block_frames a current"
    using ok blk lists_ok_length [OF lok] by (intro split_down_frames [OF arena]) auto
  ultimately show frames: "free_frames b = free_frames b' + block_frames a order"
    by (simp add: free_frames_def ok)
  have "block_ok ?B ?T k a" if "k \<le> current" for k
    using that blk by (induction rule: inc_induct) (auto intro: block_ok_halves)
  then show "block_ok ?B ?T order a"
    using ok by simp
  have "buddy_free b < 2 ^ 64" "2 ^ order \<le> buddy_free b"
    using inv frames buddy_inv_arena [OF inv] by (simp_all add: buddy_inv_def)
  then show "buddy_inv b'"
    using inv frames lok' ok blk arena split_down_ok [OF arena blk _ lok', of order]
    by (auto simp: buddy_inv_def wsub_small mset_distinct_add)
  show "buddy_base b' = ?B" "buddy_total b' = ?T" "order \<le> MAX_ORDER"
    using ok by auto
qed

lemma buddy_of_neq: "buddy_of a k \<noteq> a"
proof
  assume "buddy_of a k = a"
  then have "a XOR (a XOR (PAGE_SIZE * 2 ^ k)) = a XOR a"
    by (simp add: buddy_of_def)
  then show False
    by (simp add: xor.assoc [symmetric])
qed

lemma coalesced_alloc:
  assumes inv: "buddy_inv b" and co: "coalesced (free_lists b)" and run: "buddy_alloc order b = (a, b')"
  shows "coalesced (free_lists b')"
  using run
proof (cases rule: buddy_alloc_cases)
  case (ok current rest)
  have "arena_ok (buddy_base b) (buddy_total b)" and lok: "lists_ok (buddy_base b) (buddy_total b) (free_lists b)"
    using inv by (auto simp: buddy_inv_def)
  moreover have "block_ok (buddy_base b) (buddy_total b) current a"
    using lok ok by (intro lists_ok_nth [of _ _ "free_lists b"]) auto
  ultimately have inside: "free_lists b' ! k = [a + PAGE_SIZE * 2 ^ k]" if "order \<le> k" "k < current" for k
    using that ok lists_ok_length [OF lok] by (simp add: split_down_inside)
  have outside: "set (free_lists b' ! k) \<subseteq> set (free_lists b ! k)" if "k < order \<or> current \<le> k" for k
    using that ok lists_ok_length [OF lok] by (cases "k = current") (auto simp: split_down_outside)
  show ?thesis
    unfolding coalesced_def
  proof (intro allI impI ballI)
    fix k x assume "k < MAX_ORDER" "x \<in> set (free_lists b' ! k)"
    then show "buddy_of x k \<notin> set (free_lists b' ! k)"
      using inside [of k] outside [of k] co buddy_of_neq
      by (cases "order \<le> k \<and> k < current") (fastforce simp: coalesced_def)+
  qed
qed (use co in simp)

section \<open>Coalescing and release\<close>

lemma unlink_block_eq: "unlink_block x xs = (if x \<in> set xs then Some (remove1 x xs) else None)"
  by (induction xs) auto

lemma buddy_of_eq:
  assumes "a mod (PAGE_SIZE * 2 ^ k) = 0"
  shows "buddy_of a k = (if even (a div (PAGE_SIZE * 2 ^ k)) then a + PAGE_SIZE * 2 ^ k else a - PAGE_SIZE * 2 ^ k)"
proof -
  have "PAGE_SIZE * 2 ^ k = 2 ^ (12 + k)"
    by (simp add: PAGE_SIZE_def power_add)
  then show ?thesis
    using nat_xor_power_two [of a "12 + k"] assms by (simp add: buddy_of_def)
qed

lemma buddy_of_buddy_of [simp]: "buddy_of (buddy_of a k) k = a"
  by (simp add: buddy_of_def xor.assoc)

text \<open>The lower of two buddies starts the block of the next order that they fill.\<close>

lemma buddy_merge:
  assumes "block_ok base npages k a" and "block_ok base npages k (buddy_of a k)"
  shows "block_ok base npages (Suc k) (min a (buddy_of a k))"
    and "block_frames (min a (buddy_of a k)) (Suc k) = block_frames a k + block_frames (buddy_of a k) k"
proof -
  define m where "m = PAGE_SIZE * 2 ^ k"
  have m: "0 < m" and al: "a mod m = 0"
    using assms by (auto simp: m_def block_ok_def)
  obtain q where q: "a = m * q"
    using al by auto
  have bud: "buddy_of a k = (if even q then a + m else a - m)"
    using buddy_of_eq [of a k] al m q by (simp add: m_def [symmetric])
  define lo where "lo = min a (buddy_of a k)"
  have lo: "lo = m * (2 * (q div 2))" and pair: "{a, buddy_of a k} = {lo, lo + m}"
    unfolding lo_def bud unfolding q using m by (cases "even q"; auto simp: algebra_simps elim!: evenE oddE)+
  have "lo mod (PAGE_SIZE * 2 ^ Suc k) = 0"
    by (simp add: lo m_def mult.assoc mult.left_commute)
  moreover have "block_ok base npages k lo" "block_ok base npages k (lo + m)"
    using pair assms by (metis insertCI insertE singletonD)+
  ultimately show ok: "block_ok base npages (Suc k) (min a (buddy_of a k))"
    by (auto simp: block_ok_def lo_def [symmetric] m_def)
  have "block_frames lo (Suc k) = block_frames lo k + block_frames (lo + m) k"
    unfolding m_def using block_ok_page [OF ok] by (intro block_frames_split) (simp add: lo_def)
  then show "block_frames (min a (buddy_of a k)) (Suc k) = block_frames a k + block_frames (buddy_of a k) k"
    using pair m by (auto simp: lo_def [symmetric] doubleton_eq_iff ac_simps)
qed

lemma coalesce_stop:
  "\<not> (order < MAX_ORDER \<and> buddy_of a order \<in> set (ls ! order)) \<Longrightarrow> coalesce a order ls = (a, order, ls)"
  by (subst coalesce.simps) (auto simp: unlink_block_eq Let_def)

lemma coalesce_step:
  "order < MAX_ORDER \<Longrightarrow> buddy_of a order \<in> set (ls ! order) \<Longrightarrow>
    coalesce a order ls =
      coalesce (min a (buddy_of a order)) (Suc order) (ls[order := remove1 (buddy_of a order) (ls ! order)])"
  by (subst coalesce.simps) (auto simp: unlink_block_eq Let_def min_def)

text \<open>What the loop of \<open>free\<close> keeps, from its last iteration backwards.\<close>

lemma coalesce_ok:
  assumes "coalesce a order ls = (a', order', ls')"
    and "lists_ok base npages ls" and "block_ok base npages order a" and "order \<le> MAX_ORDER"
  shows "lists_ok base npages ls' \<and> block_ok base npages order' a' \<and> order' \<le> MAX_ORDER \<and>
    lists_frames ls' + block_frames a' order' = lists_frames ls + block_frames a order \<and>
    (order' < MAX_ORDER \<longrightarrow> buddy_of a' order' \<notin> set (ls' ! order')) \<and>
    (\<forall>k. set (ls' ! k) \<subseteq> set (ls ! k))"
  using assms
proof (induction "MAX_ORDER - order" arbitrary: a order ls)
  case (Suc n)
  show ?case
  proof (cases "order < MAX_ORDER \<and> buddy_of a order \<in> set (ls ! order)")
    case True
    let ?m = "min a (buddy_of a order)" and ?ls = "ls[order := remove1 (buddy_of a order) (ls ! order)]"
    have len: "order < length ls"
      using True Suc.prems by (simp add: lists_ok_def)
    have bud: "block_ok base npages order (buddy_of a order)"
      using True Suc.prems by (auto intro: lists_ok_nth)
    have lok: "lists_ok base npages ?ls"
      using True Suc.prems
      by (intro lists_ok_update) (auto intro!: lists_ok_nth dest!: subsetD [OF set_remove1_subset])
    have "lists_frames ?ls + block_frames (buddy_of a order) order = lists_frames ls"
      using True len by (intro lists_frames_remove1) auto
    then have frames: "lists_frames ?ls + block_frames ?m (Suc order) = lists_frames ls + block_frames a order"
      using buddy_merge [OF Suc.prems(3) bud] by (simp add: ac_simps)
    have sub: "set (?ls ! k) \<subseteq> set (ls ! k)" for k
      using set_remove1_subset [of "buddy_of a order" "ls ! order"] by (cases "k = order") (auto simp: len)
    have run: "coalesce ?m (Suc order) ?ls = (a', order', ls')"
      using Suc.prems(1) True coalesce_step [of order a ls] by simp
    have "n = MAX_ORDER - Suc order" "Suc order \<le> MAX_ORDER"
      using Suc.hyps(2) True by auto
    from Suc.hyps(1) [OF this(1) run lok buddy_merge(1) [OF Suc.prems(3) bud] this(2)] show ?thesis
      using frames sub by (simp only: frames) (meson subset_trans)
  qed (use Suc.prems in \<open>auto simp: coalesce_stop\<close>)
qed (auto simp: coalesce_stop)

lemma block_ok_not_rejected:
  assumes "arena_ok (buddy_base b) (buddy_total b)"
  shows "buddy_free_rejects a order b \<longleftrightarrow>
    \<not> (order \<le> MAX_ORDER \<and> block_ok (buddy_base b) (buddy_total b) order a)"
proof (cases "a mod PAGE_SIZE = 0 \<and> buddy_base b \<le> a")
  case True
  then obtain p q where pq: "a = PAGE_SIZE * p" "buddy_base b = PAGE_SIZE * q"
    using assms by (auto simp: arena_ok_def elim!: dvdE)
  with True have le: "q \<le> p" and d: "(a - buddy_base b) div PAGE_SIZE = p - q"
    by (auto simp: diff_mult_distrib2 [symmetric])
  have "a + PAGE_SIZE * 2 ^ order \<le> buddy_base b + PAGE_SIZE * buddy_total b \<longleftrightarrow>
      PAGE_SIZE * (p + 2 ^ order) \<le> PAGE_SIZE * (q + buddy_total b)"
    by (simp add: pq algebra_simps)
  also have "\<dots> \<longleftrightarrow> p - q + 2 ^ order \<le> buddy_total b"
    using le by auto
  finally have "a + PAGE_SIZE * 2 ^ order \<le> buddy_base b + PAGE_SIZE * buddy_total b \<longleftrightarrow>
      p - q < buddy_total b \<and> 2 ^ order \<le> buddy_total b - (p - q)"
    using less_le_trans [of 0 "2 ^ order" "buddy_total b - (p - q)"] by auto
  then show ?thesis
    unfolding buddy_free_rejects_def block_ok_def d using True by auto
next
  case False
  then show ?thesis
    using block_ok_page [of "buddy_base b" "buddy_total b" order a] mod_mult_left_zero [of a PAGE_SIZE]
    by (auto simp: buddy_free_rejects_def block_ok_def)
qed

lemma buddy_free_block_ok:
  assumes inv: "buddy_inv b" and blk: "block_ok (buddy_base b) (buddy_total b) order a" and "order \<le> MAX_ORDER"
    and disj: "set_mset (free_frames b) \<inter> set_mset (block_frames a order) = {}"
  shows "free_frames (buddy_free_block a order b) = free_frames b + block_frames a order"
    and "buddy_inv (buddy_free_block a order b)"
    and "coalesced (free_lists b) \<Longrightarrow> coalesced (free_lists (buddy_free_block a order b))"
proof -
  let ?b = "buddy_free_block a order b" and ?B = "buddy_base b" and ?T = "buddy_total b"
  obtain a' order' ls where run: "coalesce a order (free_lists b) = (a', order', ls)"
    by (cases "coalesce a order (free_lists b)") auto
  have arena: "arena_ok ?B ?T" and lok: "lists_ok ?B ?T (free_lists b)"
    using inv by (auto simp: buddy_inv_def)
  note co = coalesce_ok [OF run lok blk \<open>order \<le> MAX_ORDER\<close>]
  have nz: "a' \<noteq> 0" and len: "order' < length ls"
    using co by (auto simp: block_ok_def lists_ok_def)
  have b': "?b = b\<lparr>buddy_free := wadd 64 (buddy_free b) (2 ^ order), free_lists := ls[order' := a' # ls ! order']\<rparr>"
    using assms(3) blk nz by (simp add: buddy_free_block_def block_ok_not_rejected [OF arena] run link_front_def)
  show frames: "free_frames ?b = free_frames b + block_frames a order"
    using lists_frames_update [OF len, of "a' # ls ! order'"] co by (simp add: b' free_frames_def ac_simps)
  have lok': "lists_ok ?B ?T (free_lists ?b)"
    using co by (auto simp: b' intro!: lists_ok_update intro: lists_ok_nth)
  have dist: "mset_distinct (free_frames ?b)"
    using inv disj by (simp add: frames mset_distinct_add buddy_inv_def)
  have "size (free_frames ?b) \<le> ?T"
    using mset_distinct_size [OF dist lists_ok_frames [OF lok', folded free_frames_def]] arena
    by (simp add: arena_ok_def)
  moreover have "size (free_frames ?b) = buddy_free b + 2 ^ order"
    using inv by (simp add: frames buddy_inv_def)
  ultimately have "wadd 64 (buddy_free b) (2 ^ order) = size (free_frames ?b)"
    using buddy_inv_arena(3) [OF inv] by (simp add: wadd_small)
  then show "buddy_inv ?b"
    using arena lok' dist by (simp add: buddy_inv_def b')
  assume "coalesced (free_lists b)"
  then have co_ls: "coalesced ls"
    using co unfolding coalesced_def by blast
  have set': "set (free_lists ?b ! k) = (if k = order' then insert a' (set (ls ! k)) else set (ls ! k))" for k
    using len by (simp add: b')
  have "buddy_of x k \<noteq> a'" if "k = order'" "k < MAX_ORDER" "x \<in> set (ls ! k)" for x k
    using co that by (metis buddy_of_buddy_of)
  then show "coalesced (free_lists ?b)"
    using co co_ls buddy_of_neq unfolding coalesced_def set' by auto
qed

section \<open>Initialisation\<close>

lemma fit_order_aligned: "addr mod PAGE_SIZE = 0 \<Longrightarrow> addr mod (PAGE_SIZE * 2 ^ fit_order addr remaining k) = 0"
  by (induction k) (auto simp: mult.commute)

lemma fit_order_le: "fit_order addr remaining k \<le> k"
  by (induction k) auto

lemma fit_order_maximal:
  "fit_order addr remaining k < j \<Longrightarrow> j \<le> k \<Longrightarrow> addr mod (PAGE_SIZE * 2 ^ j) = 0 \<Longrightarrow> remaining < 2 ^ j"
  by (induction k) (auto simp: mult.commute le_Suc_eq split: if_splits)

text \<open>A block that could start a larger one stands too close to the end of the arena for it.\<close>

definition greedy :: "addr \<Rightarrow> addr list list \<Rightarrow> bool" where
  "greedy limit ls \<longleftrightarrow>
     (\<forall>k<MAX_ORDER. \<forall>y\<in>set (ls ! k). y mod (PAGE_SIZE * 2 ^ Suc k) = 0 \<longrightarrow> limit < y + PAGE_SIZE * 2 ^ Suc k)"

lemma greedy_coalesced:
  assumes "lists_ok base npages ls" and "greedy (base + PAGE_SIZE * npages) ls"
  shows "coalesced ls"
  unfolding coalesced_def
proof (intro allI impI ballI notI)
  fix k a
  assume k: "k < MAX_ORDER" and a: "a \<in> set (ls ! k)" and b: "buddy_of a k \<in> set (ls ! k)"
  have "block_ok base npages (Suc k) (min a (buddy_of a k))"
    using assms(1) k a b by (intro buddy_merge(1)) (auto intro: lists_ok_nth)
  moreover have "min a (buddy_of a k) \<in> set (ls ! k)"
    using a b by (auto simp: min_def)
  ultimately show False
    using assms(2) k unfolding greedy_def block_ok_def by fastforce
qed

lemma init_loop_unfold:
  "0 < remaining \<Longrightarrow> order = fit_order addr remaining MAX_ORDER \<Longrightarrow>
    init_loop addr remaining b =
      init_loop (wadd 64 addr (2 ^ order * PAGE_SIZE)) (remaining - 2 ^ order)
        (b\<lparr>free_lists := (free_lists b)[order := link_front addr (free_lists b ! order)],
           buddy_free := wadd 64 (buddy_free b) (2 ^ order)\<rparr>)"
  by (subst init_loop.simps) (simp add: Let_def)

lemma init_loop_base [simp]:
  "buddy_base (init_loop addr remaining b) = buddy_base b"
  "buddy_total (init_loop addr remaining b) = buddy_total b"
  by (induction addr remaining b rule: init_loop.induct) (subst init_loop.simps, simp add: Let_def)+

text \<open>What holds of the arena when an iteration of \<open>init\<close> starts.\<close>

definition init_pre :: "addr \<Rightarrow> nat \<Rightarrow> addr \<Rightarrow> nat \<Rightarrow> buddy_allocator \<Rightarrow> bool" where
  "init_pre base npages addr remaining b \<longleftrightarrow>
     base \<le> addr \<and> addr mod PAGE_SIZE = 0 \<and> addr + PAGE_SIZE * remaining = base + PAGE_SIZE * npages \<and>
     lists_ok base npages (free_lists b) \<and> greedy (base + PAGE_SIZE * npages) (free_lists b) \<and>
     buddy_free b + remaining \<le> npages"

lemma greedy_update:
  assumes "greedy limit ls" and "k < length ls"
    and "k < MAX_ORDER \<Longrightarrow> a mod (PAGE_SIZE * 2 ^ Suc k) = 0 \<Longrightarrow> limit < a + PAGE_SIZE * 2 ^ Suc k"
  shows "greedy limit (ls[k := a # ls ! k])"
  using assms unfolding greedy_def by (auto simp: nth_list_update)

lemma init_pre_step:
  assumes "arena_ok base npages" and pre: "init_pre base npages addr remaining b" and "0 < remaining"
  obtains k b' where "2 ^ k \<le> remaining"
    and "init_loop addr remaining b = init_loop (addr + PAGE_SIZE * 2 ^ k) (remaining - 2 ^ k) b'"
    and "init_pre base npages (addr + PAGE_SIZE * 2 ^ k) (remaining - 2 ^ k) b'"
    and "free_frames b' = free_frames b + block_frames addr k" and "buddy_free b' = buddy_free b + 2 ^ k"
proof -
  define k where "k = fit_order addr remaining MAX_ORDER"
  let ?ls = "(free_lists b)[k := addr # free_lists b ! k]"
  let ?b = "b\<lparr>free_lists := ?ls, buddy_free := buddy_free b + 2 ^ k\<rparr>"
  let ?lim = "base + PAGE_SIZE * npages"
  have pg: "addr mod PAGE_SIZE = 0" and e: "addr + PAGE_SIZE * remaining = ?lim" and "base \<le> addr"
    and lok: "lists_ok base npages (free_lists b)" and free: "buddy_free b + remaining \<le> npages"
    using pre by (auto simp: init_pre_def)
  have fits: "2 ^ k \<le> remaining" and kmax: "k \<le> MAX_ORDER" and al: "addr mod (PAGE_SIZE * 2 ^ k) = 0"
    using assms(3) pg by (auto simp: k_def fit_order_fits fit_order_le fit_order_aligned)
  have "PAGE_SIZE * 2 ^ k \<le> PAGE_SIZE * remaining"
    using fits by simp
  then have within: "addr + PAGE_SIZE * 2 ^ k \<le> ?lim"
    using e by linarith
  have "?lim < 2 ^ 64" and "npages < 2 ^ 64" and "addr \<noteq> 0"
    using assms(1) \<open>base \<le> addr\<close> by (auto simp: arena_ok_def PAGE_SIZE_def)
  moreover from this have "addr + 2 ^ k * PAGE_SIZE < 2 ^ 64"
    using within by (simp only: mult.commute [of "2 ^ k"])
  ultimately have "wadd 64 addr (2 ^ k * PAGE_SIZE) = addr + PAGE_SIZE * 2 ^ k"
    "wadd 64 (buddy_free b) (2 ^ k) = buddy_free b + 2 ^ k"
    using fits free by (simp_all add: wadd_small mult.commute)
  then have step: "init_loop addr remaining b = init_loop (addr + PAGE_SIZE * 2 ^ k) (remaining - 2 ^ k) ?b"
    by (simp add: init_loop_unfold [OF assms(3) k_def] link_front_def \<open>addr \<noteq> 0\<close>)
  have ok: "block_ok base npages k addr"
    using \<open>addr \<noteq> 0\<close> al \<open>base \<le> addr\<close> within by (simp add: block_ok_def)
  have "?lim < addr + PAGE_SIZE * 2 ^ Suc k" if "k < MAX_ORDER" "addr mod (PAGE_SIZE * 2 ^ Suc k) = 0"
  proof -
    have "remaining < 2 ^ Suc k"
      using fit_order_maximal [of addr remaining MAX_ORDER "Suc k"] that by (simp add: k_def [symmetric])
    then have "PAGE_SIZE * remaining < PAGE_SIZE * 2 ^ Suc k"
      by (intro mult_less_mono2) simp_all
    then show ?thesis
      using e by linarith
  qed
  then have "greedy ?lim ?ls"
    using pre kmax lists_ok_length [OF lok] by (intro greedy_update) (auto simp: init_pre_def)
  moreover have "lists_ok base npages ?ls"
    using lok ok kmax by (intro lists_ok_update) (auto intro: lists_ok_nth)
  ultimately have "init_pre base npages (addr + PAGE_SIZE * 2 ^ k) (remaining - 2 ^ k) ?b"
    using pg e within \<open>base \<le> addr\<close> fits free by (auto simp: init_pre_def diff_mult_distrib2)
  moreover have "free_frames ?b = free_frames b + block_frames addr k"
    using lists_frames_update [of k "free_lists b" "addr # free_lists b ! k"] kmax lists_ok_length [OF lok]
    by (simp add: free_frames_def ac_simps)
  ultimately show thesis
    using that fits step by simp
qed

lemma init_loop_ok:
  assumes "arena_ok base npages"
  shows "init_pre base npages addr remaining b \<Longrightarrow>
    init_pre base npages (base + PAGE_SIZE * npages) 0 (init_loop addr remaining b) \<and>
    free_frames (init_loop addr remaining b) = free_frames b + mset [addr div PAGE_SIZE ..< addr div PAGE_SIZE + remaining] \<and>
    buddy_free (init_loop addr remaining b) = buddy_free b + remaining"
proof (induction remaining arbitrary: addr b rule: less_induct)
  case (less remaining)
  show ?case
  proof (cases "remaining = 0")
    case True
    then show ?thesis
      using less.prems assms by (auto simp: init_loop.simps init_pre_def arena_ok_def)
  next
    case False
    then obtain k b' where st: "2 ^ k \<le> remaining"
      "init_loop addr remaining b = init_loop (addr + PAGE_SIZE * 2 ^ k) (remaining - 2 ^ k) b'"
      "init_pre base npages (addr + PAGE_SIZE * 2 ^ k) (remaining - 2 ^ k) b'"
      "free_frames b' = free_frames b + block_frames addr k" "buddy_free b' = buddy_free b + 2 ^ k"
      using init_pre_step [OF assms less.prems] by auto
    have "[p ..< p + remaining] = [p ..< p + 2 ^ k] @ [p + 2 ^ k ..< p + 2 ^ k + (remaining - 2 ^ k)]" for p
      using upt_add_eq_append [of p "p + 2 ^ k" "remaining - 2 ^ k"] st(1) by simp
    moreover have "(addr + PAGE_SIZE * 2 ^ k) div PAGE_SIZE = addr div PAGE_SIZE + 2 ^ k"
      by simp
    ultimately have "block_frames addr k +
        mset [(addr + PAGE_SIZE * 2 ^ k) div PAGE_SIZE ..< (addr + PAGE_SIZE * 2 ^ k) div PAGE_SIZE + (remaining - 2 ^ k)] =
        mset [addr div PAGE_SIZE ..< addr div PAGE_SIZE + remaining]"
      by (simp only: block_frames_def mset_append)
    then show ?thesis
      using less.IH [OF _ st(3)] st False by (simp add: add.assoc del: mset_upt)
  qed
qed

lemma buddy_init_ok:
  assumes "arena_ok base npages"
  shows "buddy_inv (buddy_init base npages)" and "coalesced (free_lists (buddy_init base npages))"
    and "free_frames (buddy_init base npages) = mset [base div PAGE_SIZE ..< base div PAGE_SIZE + npages]"
    and "buddy_base (buddy_init base npages) = base" and "buddy_total (buddy_init base npages) = npages"
    and "buddy_free (buddy_init base npages) = npages"
proof -
  let ?b = "\<lparr>free_lists = replicate (MAX_ORDER + 1) [], buddy_base = base, buddy_total = npages, buddy_free = 0\<rparr>"
  have "init_pre base npages base npages ?b"
    using assms by (auto simp: init_pre_def arena_ok_def lists_ok_def greedy_def simp del: replicate.simps)
  moreover have "free_frames ?b = {#}"
    by (simp add: free_frames_def lists_frames_def del: replicate.simps sum.lessThan_Suc)
  ultimately have pre: "init_pre base npages (base + PAGE_SIZE * npages) 0 (buddy_init base npages)"
    and frames: "free_frames (buddy_init base npages) = mset [base div PAGE_SIZE ..< base div PAGE_SIZE + npages]"
    and free: "buddy_free (buddy_init base npages) = npages"
    using init_loop_ok [OF assms, of base npages ?b] by (simp_all add: buddy_init_def del: mset_upt)
  then show "free_frames (buddy_init base npages) = mset [base div PAGE_SIZE ..< base div PAGE_SIZE + npages]"
    "buddy_free (buddy_init base npages) = npages"
    by simp_all
  show geom: "buddy_base (buddy_init base npages) = base" "buddy_total (buddy_init base npages) = npages"
    by (simp_all add: buddy_init_def)
  show "buddy_inv (buddy_init base npages)"
    using pre assms by (simp add: buddy_inv_def geom frames free init_pre_def del: mset_upt)
  show "coalesced (free_lists (buddy_init base npages))"
    using pre by (auto simp: init_pre_def intro: greedy_coalesced)
qed

section \<open>The buddy allocator as a source of frames\<close>

lemma buddy_alloc_none:
  assumes "buddy_inv b" and "buddy_alloc order b = (0, b')"
  shows "b' = b" and "MAX_ORDER < order \<or> (\<forall>k. order \<le> k \<and> k \<le> MAX_ORDER \<longrightarrow> free_lists b ! k = [])"
proof -
  have "b' = b \<and> (MAX_ORDER < order \<or> (\<forall>k. order \<le> k \<and> k \<le> MAX_ORDER \<longrightarrow> free_lists b ! k = []))"
    using assms(2)
  proof (cases rule: buddy_alloc_cases)
    case (ok current rest)
    then have "block_ok (buddy_base b) (buddy_total b) current 0"
      using assms(1) by (intro lists_ok_nth [of _ _ "free_lists b"]) (auto simp: buddy_inv_def)
    then show ?thesis
      by (simp add: block_ok_def)
  qed auto
  then show "b' = b" and "MAX_ORDER < order \<or> (\<forall>k. order \<le> k \<and> k \<le> MAX_ORDER \<longrightarrow> free_lists b ! k = [])"
    by auto
qed

lemma lists_frames_empty: "(\<And>k. k < length ls \<Longrightarrow> ls ! k = []) \<Longrightarrow> lists_frames ls = {#}"
  by (simp add: lists_frames_def)

lemma block_frames_0: "block_frames a 0 = {#a div 4096#}"
  by (simp add: block_frames_def PAGE_SIZE_def)

lemma page_block_ok:
  assumes "arena_ok (buddy_base b) (buddy_total b)" and "p \<in> arena_frames b"
  shows "block_ok (buddy_base b) (buddy_total b) 0 (p * 4096)"
proof -
  obtain q where q: "buddy_base b = 4096 * q" "0 < q"
    using assms(1) by (auto simp: arena_ok_def PAGE_SIZE_def elim!: dvdE)
  then show ?thesis
    using assms(2) by (auto simp: block_ok_def arena_frames_def PAGE_SIZE_def)
qed

lemma buddy_free_block_geometry [simp]:
  "buddy_base (buddy_free_block a order b) = buddy_base b"
  "buddy_total (buddy_free_block a order b) = buddy_total b"
  by (simp_all add: buddy_free_block_def split: prod.splits)

lemma arena_frames_free [simp]: "arena_frames (buddy_free_block a order b) = arena_frames b"
  by (simp add: arena_frames_def)

interpretation pages: exhaustive_source "\<lambda>_::unit. True" buddy_inv free_frames arena_frames
  "\<lambda>_. buddy_alloc_page" "\<lambda>_. buddy_free_page"
proof unfold_locales
  fix s :: buddy_allocator and c :: unit and a p s'
  assume inv: "buddy_inv s"
  show "mset_distinct (free_frames s) \<and> set_mset (free_frames s) \<subseteq> arena_frames s"
    using inv buddy_inv_arena [OF inv] by (simp add: buddy_inv_def)
  show "0 \<notin> arena_frames s"
    using inv by (auto simp: buddy_inv_def arena_frames_def arena_ok_def PAGE_SIZE_def)
  { assume run: "buddy_alloc_page s = (a, s')" and "a \<noteq> 0"
    note ok = buddy_alloc_ok [OF inv run [unfolded buddy_alloc_page_def] \<open>a \<noteq> 0\<close>]
    show "buddy_inv s' \<and> a mod 4096 = 0 \<and> free_frames s = add_mset (a div 4096) (free_frames s') \<and>
        arena_frames s' = arena_frames s"
      using ok block_ok_page [OF ok(2)] by (simp add: block_frames_0 arena_frames_def PAGE_SIZE_def) }
  { assume run: "buddy_alloc_page s = (0, s')"
    note none = buddy_alloc_none [OF inv run [unfolded buddy_alloc_page_def]]
    show "buddy_inv s' \<and> free_frames s' = free_frames s \<and> arena_frames s' = arena_frames s"
      using none(1) inv by simp
    have "length (free_lists s) = MAX_ORDER + 1"
      using inv by (simp add: buddy_inv_def lists_ok_def)
    then show "free_frames s = {#}"
      unfolding free_frames_def using none(2) by (intro lists_frames_empty) simp }
  assume p: "p \<in> arena_frames s" and new: "p \<notin># free_frames s"
  have blk: "block_ok (buddy_base s) (buddy_total s) 0 (p * 4096)"
    using inv p by (intro page_block_ok) (auto simp: buddy_inv_def)
  have "set_mset (free_frames s) \<inter> set_mset (block_frames (p * 4096) 0) = {}"
    using new by (simp add: block_frames_0)
  from buddy_free_block_ok(1,2) [OF inv blk _ this]
  show "buddy_inv (buddy_free_page (p * 4096) s) \<and>
      free_frames (buddy_free_page (p * 4096) s) = add_mset p (free_frames s) \<and>
      arena_frames (buddy_free_page (p * 4096) s) = arena_frames s"
    by (simp add: buddy_free_page_def block_frames_0)
qed

section \<open>Properties of the buddy allocator\<close>

lemma pages_to_order_loop_least:
  "sz = 2 ^ order \<Longrightarrow> n \<le> 2 ^ pages_to_order_loop n sz order \<and>
    (\<forall>k. order \<le> k \<and> n \<le> 2 ^ k \<longrightarrow> pages_to_order_loop n sz order \<le> k)"
proof (induction n sz order rule: pages_to_order_loop.induct)
  case (1 n sz order)
  show ?case
  proof (cases "sz < n")
    case True
    then have "order \<noteq> k" if "n \<le> 2 ^ k" for k
      using that "1.prems" by auto
    moreover have "pages_to_order_loop n sz order = pages_to_order_loop n (2 * sz) (order + 1)"
      using True "1.prems" by (subst pages_to_order_loop.simps) simp
    ultimately show ?thesis
      using 1 True by (auto simp: Suc_le_eq le_neq_implies_less)
  qed (use "1.prems" in \<open>simp add: pages_to_order_loop.simps\<close>)
qed

text \<open>C1. A successful allocation of order \<open>k\<close> hands out \<open>2^k\<close> page frames that were free: the
  block is aligned to its size and lies in the arena, its frames are exactly what leaves the free
  frames (so no frame that stays free, and no frame of an earlier allocation, is in it), the
  invariant and the full coalescing of the free lists are kept and the count of free pages drops
  by \<open>2^k\<close>.\<close>

theorem buddy_alloc_spec:
  assumes "buddy_inv b" and "coalesced (free_lists b)" and "buddy_alloc order b = (a, b')" and "a \<noteq> 0"
  shows "buddy_inv b' \<and> coalesced (free_lists b') \<and> a mod (4096 * 2 ^ order) = 0 \<and>
    buddy_base b \<le> a \<and> a + 4096 * 2 ^ order \<le> buddy_base b + 4096 * buddy_total b \<and>
    free_frames b = free_frames b' + mset [a div 4096 ..< a div 4096 + 2 ^ order] \<and>
    buddy_free b = buddy_free b' + 2 ^ order"
proof -
  note ok = buddy_alloc_ok [OF assms(1,3,4)]
  have "buddy_free b = buddy_free b' + 2 ^ order"
    using ok(1,3) assms(1) by (simp add: buddy_inv_def)
  then show ?thesis
    using ok coalesced_alloc [OF assms(1,2,3)]
    by (auto simp: block_ok_def block_frames_def PAGE_SIZE_def)
qed

theorem buddy_alloc_spec_witness:
  "\<exists>a b'. buddy_alloc 1 (buddy_init 8192 6) = (a, b') \<and> a \<noteq> 0 \<and> buddy_inv b' \<and> coalesced (free_lists b') \<and>
    a mod (4096 * 2 ^ 1) = 0 \<and> buddy_free (buddy_init 8192 6) = buddy_free b' + 2 ^ 1"
proof -
  obtain a b' where run: "buddy_alloc 1 (buddy_init 8192 6) = (a, b')"
    by (cases "buddy_alloc 1 (buddy_init 8192 6)")
  have "fst (buddy_alloc 1 (buddy_init 8192 6)) \<noteq> 0"
    by code_simp
  then have "a \<noteq> 0"
    unfolding run by simp
  have "arena_ok 8192 6"
    by code_simp
  from buddy_alloc_spec [OF buddy_init_ok(1,2) [OF this] run \<open>a \<noteq> 0\<close>] show ?thesis
    using run \<open>a \<noteq> 0\<close> by (intro exI [of _ a] exI [of _ b']) simp
qed

text \<open>C2. Releasing an allocated block (aligned, inside the arena, none of its frames free) adds
  exactly its frames to the free frames, keeps the invariant and leaves no two buddies of the same
  order both free: the merge loop finds every buddy it can join.\<close>

theorem buddy_free_spec:
  assumes "buddy_inv b" and "coalesced (free_lists b)" and "order \<le> MAX_ORDER"
    and "block_ok (buddy_base b) (buddy_total b) order a"
    and "\<forall>p\<in>{a div 4096 ..< a div 4096 + 2 ^ order}. p \<notin># free_frames b"
  shows "buddy_inv (buddy_free_block a order b) \<and> coalesced (free_lists (buddy_free_block a order b)) \<and>
    free_frames (buddy_free_block a order b) = free_frames b + mset [a div 4096 ..< a div 4096 + 2 ^ order] \<and>
    buddy_free (buddy_free_block a order b) = buddy_free b + 2 ^ order"
proof -
  have "set_mset (free_frames b) \<inter> set_mset (block_frames a order) = {}"
    using assms(5) by (auto simp: set_block_frames PAGE_SIZE_def)
  note ok = buddy_free_block_ok [OF assms(1,4,3) this]
  moreover have "buddy_free (buddy_free_block a order b) = buddy_free b + 2 ^ order"
    using ok(1,2) assms(1) by (simp add: buddy_inv_def)
  ultimately show ?thesis
    using assms(2) by (simp add: block_frames_def PAGE_SIZE_def)
qed

theorem buddy_free_spec_witness:
  "let b = snd (buddy_alloc 1 (buddy_init 8192 6)) in
    buddy_inv (buddy_free_block 8192 1 b) \<and> coalesced (free_lists (buddy_free_block 8192 1 b)) \<and>
    buddy_free (buddy_free_block 8192 1 b) = buddy_free b + 2 ^ 1"
proof -
  define b where "b = snd (buddy_alloc 1 (buddy_init 8192 6))"
  have "buddy_inv b" "coalesced (free_lists b)" "block_ok (buddy_base b) (buddy_total b) 1 8192"
    unfolding b_def by code_simp+
  moreover have "\<forall>p\<in>{8192 div 4096 ..< 8192 div 4096 + 2 ^ 1}. p \<notin># free_frames b"
    unfolding b_def by code_simp
  moreover have "1 \<le> MAX_ORDER"
    by code_simp
  ultimately show ?thesis
    using buddy_free_spec [of b 1 8192] unfolding Let_def b_def [symmetric] by blast
qed

text \<open>C3. After \<open>init\<close> over a page-aligned arena that avoids address 0, the free frames are exactly
  the frames of the arena, each once, every one is counted, and the free lists are fully
  coalesced.\<close>

theorem buddy_init_spec:
  assumes "arena_ok base npages"
  shows "buddy_inv (buddy_init base npages) \<and> coalesced (free_lists (buddy_init base npages)) \<and>
    free_frames (buddy_init base npages) = mset [base div 4096 ..< base div 4096 + npages] \<and>
    buddy_free (buddy_init base npages) = npages"
  using buddy_init_ok [OF assms] by (simp add: PAGE_SIZE_def del: mset_upt)

theorem buddy_init_spec_witness:
  "arena_ok 8192 6 \<and> buddy_inv (buddy_init 8192 6) \<and> buddy_free (buddy_init 8192 6) = 6"
proof -
  have "arena_ok 8192 6"
    by code_simp
  with buddy_init_spec [OF this] show ?thesis
    by blast
qed

text \<open>C4. Allocation refuses only when it must: with the invariant, \<open>alloc(order)\<close> returns 0 exactly
  when the order is above \<open>MAX_ORDER\<close> or no list of that order or a higher one has a block, and
  then the state is unchanged.\<close>

theorem buddy_alloc_fails_iff:
  assumes "buddy_inv b"
  shows "(fst (buddy_alloc order b) = 0 \<longleftrightarrow>
      MAX_ORDER < order \<or> (\<forall>k\<in>{order..MAX_ORDER}. free_lists b ! k = [])) \<and>
    (fst (buddy_alloc order b) = 0 \<longrightarrow> snd (buddy_alloc order b) = b)"
proof -
  obtain a b' where run: "buddy_alloc order b = (a, b')"
    by (cases "buddy_alloc order b")
  have "a = 0 \<Longrightarrow> b' = b \<and> (MAX_ORDER < order \<or> (\<forall>k\<in>{order..MAX_ORDER}. free_lists b ! k = []))"
    using buddy_alloc_none [of b order b'] assms run by auto
  moreover have "a = 0" if "MAX_ORDER < order \<or> (\<forall>k\<in>{order..MAX_ORDER}. free_lists b ! k = [])"
    using run that by (cases rule: buddy_alloc_cases) auto
  ultimately show ?thesis
    using run by auto
qed

theorem buddy_alloc_fails_iff_witness:
  "fst (buddy_alloc 3 (buddy_init 8192 6)) = 0 \<and> snd (buddy_alloc 3 (buddy_init 8192 6)) = buddy_init 8192 6"
proof -
  have "buddy_inv (buddy_init 8192 6)" and "\<forall>k\<in>{3..MAX_ORDER}. free_lists (buddy_init 8192 6) ! k = []"
    by code_simp+
  with buddy_alloc_fails_iff [of "buddy_init 8192 6" 3] show ?thesis
    by blast
qed

text \<open>\<open>pages_to_order\<close> is the least order that holds the requested pages, for every request up
  to the largest block, and an order that \<open>alloc\<close> refuses for every larger one.\<close>

theorem pages_to_order_least:
  "(n \<le> 2 ^ MAX_ORDER \<longrightarrow> n \<le> 2 ^ pages_to_order n \<and> pages_to_order n \<le> MAX_ORDER \<and>
      (\<forall>k. n \<le> 2 ^ k \<longrightarrow> pages_to_order n \<le> k)) \<and>
    (2 ^ MAX_ORDER < n \<longrightarrow> fst (buddy_alloc (pages_to_order n) b) = 0)"
  using pages_to_order_loop_least [of 1 0 n]
  by (auto simp: pages_to_order_def buddy_alloc_def MAX_ORDER_def)

theorem pages_to_order_least_witness:
  "5 \<le> (2::nat) ^ pages_to_order 5 \<and> pages_to_order 5 \<le> MAX_ORDER \<and>
    fst (buddy_alloc (pages_to_order 2000) (buddy_init 8192 6)) = 0"
  using pages_to_order_least [of 5 "buddy_init 8192 6"] pages_to_order_least [of 2000 "buddy_init 8192 6"]
  by (simp add: MAX_ORDER_def)

text \<open>An arena that starts at address 0 loses its first block: the block is linked in as the null
  pointer, so it is counted as free and can never be allocated.\<close>

lemma buddy_init_at_zero:
  "buddy_free (buddy_init 0 1) = 1 \<and> fst (buddy_alloc 0 (buddy_init 0 1)) = 0"
  by code_simp

end
