(* ===== verification/Pmm.thy ===== *)
theory Pmm
  imports Buddy
begin

text \<open>
  The physical memory manager (\<open>src/src/kernel/memory/pmm.cpp\<close>): per-CPU caches
  of single pages in front of the buddy allocator.

  A cache is the array \<open>pages[64]\<close> with its \<open>count\<close>, as the code has it; the
  invariant keeps every index the code uses below 64.  \<open>cpu::this_cpu()->cpu_id\<close>
  is the argument \<open>cpu\<close> of the operations.  An operation runs with interrupts
  disabled on its CPU and only touches that CPU's cache and the locked buddy
  allocator, so it is one step of the model.
\<close>

section \<open>Model\<close>

definition MAX_CPUS :: nat where
  "MAX_CPUS = 64"

definition PCPU_CACHE_SIZE :: nat where
  "PCPU_CACHE_SIZE = 64"

record page_cache =
  pages :: "addr list"
  pcount :: nat

record pmm =
  g_buddy :: buddy_allocator
  g_total_pages :: nat
  g_pcpu_caches :: "page_cache list"

record memory_map_entry =
  e_base :: addr
  e_length :: nat
  e_type :: nat

text \<open>The zero-initialised statics.\<close>

definition pmm_static :: pmm where
  "pmm_static =
    \<lparr>g_buddy = \<lparr>free_lists = replicate (MAX_ORDER + 1) [], buddy_base = 0, buddy_total = 0, buddy_free = 0\<rparr>,
     g_total_pages = 0,
     g_pcpu_caches = replicate MAX_CPUS \<lparr>pages = replicate PCPU_CACHE_SIZE 0, pcount = 0\<rparr>\<rparr>"

primrec refill_loop :: "nat \<Rightarrow> page_cache \<Rightarrow> buddy_allocator \<Rightarrow> page_cache \<times> buddy_allocator" where
  "refill_loop 0 cache b = (cache, b)"
| "refill_loop (Suc n) cache b =
    (case buddy_alloc_page b of
       (p, b') \<Rightarrow>
         if p = 0 then (cache, b')
         else refill_loop n (cache\<lparr>pages := (pages cache)[pcount cache := p], pcount := pcount cache + 1\<rparr>) b')"

definition cache_refill :: "page_cache \<Rightarrow> buddy_allocator \<Rightarrow> page_cache \<times> buddy_allocator" where
  "cache_refill cache b = refill_loop (PCPU_CACHE_SIZE div 2) cache b"

primrec drain_loop :: "nat \<Rightarrow> page_cache \<Rightarrow> buddy_allocator \<Rightarrow> page_cache \<times> buddy_allocator" where
  "drain_loop 0 cache b = (cache, b)"
| "drain_loop (Suc n) cache b =
    (let cache = cache\<lparr>pcount := pcount cache - 1\<rparr>
     in drain_loop n cache (buddy_free_page (pages cache ! pcount cache) b))"

definition cache_drain :: "page_cache \<Rightarrow> buddy_allocator \<Rightarrow> page_cache \<times> buddy_allocator" where
  "cache_drain cache b = drain_loop (pcount cache div 2) cache b"

fun best_entry :: "memory_map_entry list \<Rightarrow> addr \<times> nat \<Rightarrow> addr \<times> nat" where
  "best_entry [] best = best"
| "best_entry (e # es) (best_base, best_length) =
    (if e_type e = 1 \<and> e_length e > best_length then best_entry es (e_base e, e_length e)
     else best_entry es (best_base, best_length))"

definition pmm_init :: "memory_map_entry list \<Rightarrow> pmm \<Rightarrow> pmm" where
  "pmm_init entries s =
    (let (best_base, best_length) = best_entry entries (0, 0) in
     if best_length = 0 then s
     else
       let (best_base, best_length) =
             (if best_base mod PAGE_SIZE \<noteq> 0 then
                let waste = PAGE_SIZE - best_base mod PAGE_SIZE
                in (wadd 64 best_base waste, wsub 64 best_length waste)
              else (best_base, best_length));
           npages = best_length div PAGE_SIZE
       in s\<lparr>g_total_pages := npages, g_buddy := buddy_init best_base npages\<rparr>)"

definition pmm_alloc_page :: "nat \<Rightarrow> pmm \<Rightarrow> addr \<times> pmm" where
  "pmm_alloc_page cpu s =
    (let cache = g_pcpu_caches s ! cpu;
         (cache, b) = (if pcount cache = 0 then cache_refill cache (g_buddy s) else (cache, g_buddy s));
         (addr, cache) =
           (if pcount cache > 0 then
              let cache = cache\<lparr>pcount := pcount cache - 1\<rparr> in (pages cache ! pcount cache, cache)
            else (0, cache))
     in (addr, s\<lparr>g_buddy := b, g_pcpu_caches := (g_pcpu_caches s)[cpu := cache]\<rparr>))"

definition pmm_alloc_pages :: "nat \<Rightarrow> nat \<Rightarrow> pmm \<Rightarrow> addr \<times> pmm" where
  "pmm_alloc_pages cpu n s =
    (if n = 0 then (0, s)
     else if n = 1 then pmm_alloc_page cpu s
     else let (addr, b) = buddy_alloc_pages n (g_buddy s) in (addr, s\<lparr>g_buddy := b\<rparr>))"

definition pmm_free_page :: "nat \<Rightarrow> addr \<Rightarrow> pmm \<Rightarrow> pmm" where
  "pmm_free_page cpu ptr s =
    (if ptr = 0 then s
     else
       let cache = g_pcpu_caches s ! cpu;
           (cache, b) = (if pcount cache \<ge> PCPU_CACHE_SIZE then cache_drain cache (g_buddy s) else (cache, g_buddy s));
           cache = cache\<lparr>pages := (pages cache)[pcount cache := ptr], pcount := pcount cache + 1\<rparr>
       in s\<lparr>g_buddy := b, g_pcpu_caches := (g_pcpu_caches s)[cpu := cache]\<rparr>)"

definition pmm_get_total_pages :: "pmm \<Rightarrow> nat" where
  "pmm_get_total_pages s = g_total_pages s"

definition pmm_get_used_pages :: "pmm \<Rightarrow> nat" where
  "pmm_get_used_pages s = wsub 64 (g_total_pages s) (buddy_free (g_buddy s))"

definition pmm_get_free_pages :: "pmm \<Rightarrow> nat" where
  "pmm_get_free_pages s = buddy_free (g_buddy s)"

section \<open>Invariant\<close>

definition cached :: "page_cache \<Rightarrow> addr list" where
  "cached c = take (pcount c) (pages c)"

definition cache_ok :: "page_cache \<Rightarrow> bool" where
  "cache_ok c \<longleftrightarrow> length (pages c) = PCPU_CACHE_SIZE \<and> pcount c \<le> PCPU_CACHE_SIZE \<and>
     (\<forall>a\<in>set (cached c). a \<noteq> 0 \<and> a mod 4096 = 0)"

definition cache_frames :: "page_cache \<Rightarrow> nat multiset" where
  "cache_frames c = mset (map (\<lambda>a. a div 4096) (cached c))"

definition caches_frames :: "page_cache list \<Rightarrow> nat multiset" where
  "caches_frames cs = (\<Sum>i<length cs. cache_frames (cs ! i))"

text \<open>The frames the memory manager can still hand out: free in the buddy allocator or cached.\<close>

definition pmm_frames :: "pmm \<Rightarrow> nat multiset" where
  "pmm_frames s = free_frames (g_buddy s) + caches_frames (g_pcpu_caches s)"

definition pmm_arena :: "pmm \<Rightarrow> nat set" where
  "pmm_arena s = arena_frames (g_buddy s)"

definition pmm_inv :: "pmm \<Rightarrow> bool" where
  "pmm_inv s \<longleftrightarrow>
     buddy_inv (g_buddy s) \<and> g_total_pages s = buddy_total (g_buddy s) \<and>
     length (g_pcpu_caches s) = MAX_CPUS \<and> (\<forall>c\<in>set (g_pcpu_caches s). cache_ok c) \<and>
     mset_distinct (pmm_frames s) \<and> set_mset (pmm_frames s) \<subseteq> pmm_arena s"

lemma cache_ok_push:
  assumes "cache_ok c" and "pcount c < PCPU_CACHE_SIZE" and "a \<noteq> 0" and "a mod 4096 = 0"
  shows "cache_ok (c\<lparr>pages := (pages c)[pcount c := a], pcount := pcount c + 1\<rparr>)"
    and "cache_frames (c\<lparr>pages := (pages c)[pcount c := a], pcount := pcount c + 1\<rparr>) =
      add_mset (a div 4096) (cache_frames c)"
  using assms by (auto simp: cache_ok_def cached_def cache_frames_def take_Suc_conv_app_nth)

lemma cache_ok_pop:
  assumes "cache_ok c" and "0 < pcount c" and "a = pages c ! (pcount c - 1)"
  shows "cache_ok (c\<lparr>pcount := pcount c - 1\<rparr>)" and "a \<noteq> 0" and "a mod 4096 = 0"
    and "cache_frames c = add_mset (a div 4096) (cache_frames (c\<lparr>pcount := pcount c - 1\<rparr>))"
proof -
  have "cached c = cached (c\<lparr>pcount := pcount c - 1\<rparr>) @ [a]"
    using assms by (cases "pcount c") (auto simp: cached_def cache_ok_def take_Suc_conv_app_nth)
  then show "cache_ok (c\<lparr>pcount := pcount c - 1\<rparr>)" and "a \<noteq> 0" and "a mod 4096 = 0"
    and "cache_frames c = add_mset (a div 4096) (cache_frames (c\<lparr>pcount := pcount c - 1\<rparr>))"
    using assms(1) by (auto simp: cache_ok_def cache_frames_def)
qed

text \<open>Refilling and draining move frames between the cache and the buddy allocator.\<close>

lemma refill_loop_ok:
  assumes "refill_loop n c b = (c', b')" and "buddy_inv b" and "cache_ok c" and "pcount c + n \<le> PCPU_CACHE_SIZE"
  shows "buddy_inv b' \<and> cache_ok c' \<and> arena_frames b' = arena_frames b \<and> buddy_total b' = buddy_total b \<and>
    free_frames b' + cache_frames c' = free_frames b + cache_frames c"
  using assms
proof (induction n arbitrary: c b)
  case (Suc n)
  obtain p b1 where get: "buddy_alloc_page b = (p, b1)"
    by (cases "buddy_alloc_page b")
  show ?case
  proof (cases "p = 0")
    case True
    then show ?thesis
      using Suc.prems get buddy_alloc_none(1) [of b 0 b1] by (auto simp: buddy_alloc_page_def)
  next
    case False
    have p: "buddy_inv b1" "p mod 4096 = 0" "free_frames b = add_mset (p div 4096) (free_frames b1)"
      "arena_frames b1 = arena_frames b"
      using pages.get_some [OF Suc.prems(2) _ get False] by auto
    have "buddy_total b1 = buddy_total b"
      using buddy_alloc_ok(5) [OF Suc.prems(2) get [unfolded buddy_alloc_page_def] False] .
    moreover have "pcount c < PCPU_CACHE_SIZE"
      using Suc.prems(4) by simp
    note push = cache_ok_push [OF Suc.prems(3) this False p(2)]
    moreover have "refill_loop n (c\<lparr>pages := (pages c)[pcount c := p], pcount := pcount c + 1\<rparr>) b1 = (c', b')"
      using Suc.prems(1) get False by simp
    note Suc.IH [OF this p(1) push(1)]
    ultimately show ?thesis
      using p Suc.prems(4) by simp
  qed
qed simp

lemma drain_loop_ok:
  assumes "drain_loop n c b = (c', b')" and "buddy_inv b" and "cache_ok c" and "n \<le> pcount c"
    and "mset_distinct (free_frames b + cache_frames c)" and "set_mset (cache_frames c) \<subseteq> arena_frames b"
  shows "buddy_inv b' \<and> cache_ok c' \<and> arena_frames b' = arena_frames b \<and> buddy_total b' = buddy_total b \<and>
    free_frames b' + cache_frames c' = free_frames b + cache_frames c \<and> pcount c' = pcount c - n"
  using assms
proof (induction n arbitrary: c b)
  case (Suc n)
  define a where "a = pages c ! (pcount c - 1)"
  let ?c = "c\<lparr>pcount := pcount c - 1\<rparr>" and ?b = "buddy_free_page a b"
  have "0 < pcount c"
    using Suc.prems(4) by simp
  note pop = cache_ok_pop [OF Suc.prems(3) this a_def]
  have "a div 4096 \<in> arena_frames b" "a div 4096 \<notin># free_frames b" and a: "a div 4096 * 4096 = a"
    using Suc.prems(5,6) pop(3,4) by (auto simp: mset_distinct_add)
  with pages.put_back [OF Suc.prems(2) _ this(1,2)]
  have put: "buddy_inv ?b" "free_frames ?b = add_mset (a div 4096) (free_frames b)" "arena_frames ?b = arena_frames b"
    by auto
  have "drain_loop n ?c ?b = (c', b')"
    using Suc.prems(1) by (simp add: a_def Let_def)
  from Suc.IH [OF this put(1) pop(1)] show ?case
    using put pop(4) Suc.prems(4,5,6) by (simp add: buddy_free_page_def)
qed simp

section \<open>The operations keep the invariant\<close>

lemma caches_frames_update:
  "i < length cs \<Longrightarrow> caches_frames (cs[i := c]) + cache_frames (cs ! i) = caches_frames cs + cache_frames c"
  unfolding caches_frames_def using sum_list_update [of i cs "\<lambda>_. cache_frames" c] by simp

text \<open>An operation on the cache of one CPU, seen from the whole manager.\<close>

lemma pmm_local_step:
  assumes inv: "pmm_inv s" and cpu: "cpu < MAX_CPUS"
    and b: "buddy_inv b" "arena_frames b = arena_frames (g_buddy s)" "buddy_total b = buddy_total (g_buddy s)"
    and c: "cache_ok c"
    and eq: "free_frames b + cache_frames c + N = free_frames (g_buddy s) + cache_frames (g_pcpu_caches s ! cpu) + M"
    and s': "s' = s\<lparr>g_buddy := b, g_pcpu_caches := (g_pcpu_caches s)[cpu := c]\<rparr>"
  shows "pmm_frames s' + N = pmm_frames s + M" and "pmm_arena s' = pmm_arena s"
    and "mset_distinct (pmm_frames s') \<Longrightarrow> set_mset (pmm_frames s') \<subseteq> pmm_arena s \<Longrightarrow> pmm_inv s'"
proof -
  let ?X = "cache_frames (g_pcpu_caches s ! cpu)"
  have "caches_frames (g_pcpu_caches s') + ?X = caches_frames (g_pcpu_caches s) + cache_frames c"
    using inv cpu by (simp add: s' caches_frames_update pmm_inv_def)
  then have "pmm_frames s' + N + ?X = free_frames b + cache_frames c + N + caches_frames (g_pcpu_caches s)"
    by (simp add: pmm_frames_def s' ac_simps)
  also have "\<dots> = pmm_frames s + M + ?X"
    unfolding eq by (simp add: pmm_frames_def ac_simps)
  finally show "pmm_frames s' + N = pmm_frames s + M"
    by simp
  show arena: "pmm_arena s' = pmm_arena s"
    by (simp add: pmm_arena_def s' b)
  have "\<forall>x\<in>set (g_pcpu_caches s'). cache_ok x"
    using inv c by (auto simp: pmm_inv_def s' dest!: subsetD [OF set_update_subset_insert])
  then show "mset_distinct (pmm_frames s') \<Longrightarrow> set_mset (pmm_frames s') \<subseteq> pmm_arena s \<Longrightarrow> pmm_inv s'"
    using inv b arena by (simp add: pmm_inv_def s')
qed

lemma cache_of_cpu: "pmm_inv s \<Longrightarrow> cpu < MAX_CPUS \<Longrightarrow> cache_ok (g_pcpu_caches s ! cpu)"
  by (simp add: pmm_inv_def)

lemma cache_within:
  assumes "pmm_inv s" and "cpu < MAX_CPUS" and "c = g_pcpu_caches s ! cpu"
  shows "mset_distinct (free_frames (g_buddy s) + cache_frames c)"
    and "set_mset (cache_frames c) \<subseteq> arena_frames (g_buddy s)"
proof -
  have "cache_frames c \<subseteq># caches_frames (g_pcpu_caches s)"
    unfolding caches_frames_def using assms by (simp add: pmm_inv_def sum.remove [of _ cpu])
  then have sub: "free_frames (g_buddy s) + cache_frames c \<subseteq># pmm_frames s"
    by (simp add: pmm_frames_def)
  then show "mset_distinct (free_frames (g_buddy s) + cache_frames c)"
    using assms(1) mset_distinct_subset by (auto simp: pmm_inv_def)
  show "set_mset (cache_frames c) \<subseteq> arena_frames (g_buddy s)"
    using set_mset_mono [OF sub] assms(1) by (auto simp: pmm_inv_def pmm_arena_def)
qed

text \<open>The cache of the calling CPU after the refill that precedes an allocation.\<close>

lemma cache_for_alloc:
  assumes inv: "pmm_inv s" and cpu: "cpu < MAX_CPUS" and cache: "c = g_pcpu_caches s ! cpu"
    and run: "(if pcount c = 0 then cache_refill c (g_buddy s) else (c, g_buddy s)) = (c', b)"
  shows "buddy_inv b \<and> cache_ok c' \<and> arena_frames b = arena_frames (g_buddy s) \<and>
    buddy_total b = buddy_total (g_buddy s) \<and>
    free_frames b + cache_frames c' = free_frames (g_buddy s) + cache_frames c"
proof (cases "pcount c = 0")
  case True
  then show ?thesis
    using refill_loop_ok [of "PCPU_CACHE_SIZE div 2" c "g_buddy s" c' b] run cache cache_of_cpu [OF inv cpu] inv
    by (simp add: cache_refill_def pmm_inv_def)
qed (use run cache cache_of_cpu [OF inv cpu] inv in \<open>auto simp: pmm_inv_def\<close>)

lemma pmm_alloc_page_ok:
  assumes inv: "pmm_inv s" and cpu: "cpu < MAX_CPUS" and run: "pmm_alloc_page cpu s = (a, s')"
  shows "pmm_inv s'" and "pmm_arena s' = pmm_arena s"
    and "a = 0 \<Longrightarrow> pmm_frames s' = pmm_frames s"
    and "a \<noteq> 0 \<Longrightarrow> a mod 4096 = 0 \<and> pmm_frames s = add_mset (a div 4096) (pmm_frames s')"
proof -
  define c where "c = g_pcpu_caches s ! cpu"
  obtain c1 b where c1: "(if pcount c = 0 then cache_refill c (g_buddy s) else (c, g_buddy s)) = (c1, b)"
    by fastforce
  note ok = cache_for_alloc [OF inv cpu c_def c1]
  define c2 where "c2 = (if pcount c1 > 0 then c1\<lparr>pcount := pcount c1 - 1\<rparr> else c1)"
  define N where "N = (if a = 0 then {#} else {#a div 4096#})"
  have s': "s' = s\<lparr>g_buddy := b, g_pcpu_caches := (g_pcpu_caches s)[cpu := c2]\<rparr>"
    and a: "a = (if pcount c1 > 0 then pages c1 ! (pcount c1 - 1) else 0)"
    using run by (auto simp: pmm_alloc_page_def c_def [symmetric] c1 Let_def c2_def split: if_splits)
  have pop: "cache_ok c2 \<and> cache_frames c1 = cache_frames c2 + N \<and> (a \<noteq> 0 \<longrightarrow> a mod 4096 = 0)"
    using cache_ok_pop [of c1 a] ok a by (cases "pcount c1 > 0") (auto simp: c2_def N_def)
  then have eq: "free_frames b + cache_frames c2 + N = free_frames (g_buddy s) + cache_frames (g_pcpu_caches s ! cpu) + {#}"
    using ok by (simp add: c_def [symmetric] add.assoc)
  have "pmm_frames s' + N = pmm_frames s + {#}" and arena: "pmm_arena s' = pmm_arena s"
    and keep: "mset_distinct (pmm_frames s') \<Longrightarrow> set_mset (pmm_frames s') \<subseteq> pmm_arena s \<Longrightarrow> pmm_inv s'"
    using pmm_local_step [OF inv cpu _ _ _ _ eq s'] ok pop by blast+
  moreover from this have "mset_distinct (pmm_frames s' + N)" "set_mset (pmm_frames s' + N) \<subseteq> pmm_arena s"
    using inv by (auto simp: pmm_inv_def)
  then have "mset_distinct (pmm_frames s')" "set_mset (pmm_frames s') \<subseteq> pmm_arena s"
    by (simp_all add: mset_distinct_add)
  ultimately show "pmm_inv s'" "pmm_arena s' = pmm_arena s" "a = 0 \<Longrightarrow> pmm_frames s' = pmm_frames s"
    "a \<noteq> 0 \<Longrightarrow> a mod 4096 = 0 \<and> pmm_frames s = add_mset (a div 4096) (pmm_frames s')"
    using pop by (simp_all add: N_def)
qed

text \<open>The cache of the calling CPU after the drain that precedes a release: it has room.\<close>

lemma cache_for_free:
  assumes inv: "pmm_inv s" and cpu: "cpu < MAX_CPUS" and cache: "c = g_pcpu_caches s ! cpu"
    and run: "(if pcount c \<ge> PCPU_CACHE_SIZE then cache_drain c (g_buddy s) else (c, g_buddy s)) = (c', b)"
  shows "buddy_inv b \<and> cache_ok c' \<and> arena_frames b = arena_frames (g_buddy s) \<and>
    buddy_total b = buddy_total (g_buddy s) \<and>
    free_frames b + cache_frames c' = free_frames (g_buddy s) + cache_frames c \<and> pcount c' < PCPU_CACHE_SIZE"
proof (cases "pcount c \<ge> PCPU_CACHE_SIZE")
  case True
  then have "drain_loop (pcount c div 2) c (g_buddy s) = (c', b)"
    using run by (simp add: cache_drain_def)
  from drain_loop_ok [OF this _ _ _ cache_within [OF inv cpu cache]] show ?thesis
    using True cache_of_cpu [OF inv cpu] inv cache
    by (simp add: pmm_inv_def cache_ok_def PCPU_CACHE_SIZE_def)
qed (use run cache cache_of_cpu [OF inv cpu] inv in \<open>auto simp: pmm_inv_def\<close>)

lemma pmm_free_page_ok:
  assumes inv: "pmm_inv s" and cpu: "cpu < MAX_CPUS" and p: "p \<in> pmm_arena s" and new: "p \<notin># pmm_frames s"
  shows "pmm_inv (pmm_free_page cpu (p * 4096) s)"
    and "pmm_frames (pmm_free_page cpu (p * 4096) s) = add_mset p (pmm_frames s)"
    and "pmm_arena (pmm_free_page cpu (p * 4096) s) = pmm_arena s"
proof -
  define c where "c = g_pcpu_caches s ! cpu"
  let ?s = "pmm_free_page cpu (p * 4096) s"
  obtain c1 b where c1: "(if pcount c \<ge> PCPU_CACHE_SIZE then cache_drain c (g_buddy s) else (c, g_buddy s)) = (c1, b)"
    by fastforce
  note ok = cache_for_free [OF inv cpu c_def c1]
  have "p \<noteq> 0"
    using inv p pages.arena_nonzero [of "g_buddy s"] by (cases "p = 0") (auto simp: pmm_inv_def pmm_arena_def)
  define c2 where "c2 = c1\<lparr>pages := (pages c1)[pcount c1 := p * 4096], pcount := pcount c1 + 1\<rparr>"
  have push: "cache_ok c2" "cache_frames c2 = add_mset p (cache_frames c1)"
    using cache_ok_push [of c1 "p * 4096"] ok \<open>p \<noteq> 0\<close> by (auto simp: c2_def)
  have s': "?s = s\<lparr>g_buddy := b, g_pcpu_caches := (g_pcpu_caches s)[cpu := c2]\<rparr>"
    using \<open>p \<noteq> 0\<close> by (simp add: pmm_free_page_def c_def [symmetric] c1 Let_def c2_def)
  have "free_frames b + cache_frames c2 + {#} = free_frames (g_buddy s) + cache_frames (g_pcpu_caches s ! cpu) + {#p#}"
    using ok push by (simp add: c_def [symmetric])
  note step = pmm_local_step [OF inv cpu _ _ _ push(1) this s']
  have frames: "pmm_frames ?s + {#} = pmm_frames s + {#p#}" and arena: "pmm_arena ?s = pmm_arena s"
    and keep: "mset_distinct (pmm_frames ?s) \<Longrightarrow> set_mset (pmm_frames ?s) \<subseteq> pmm_arena s \<Longrightarrow> pmm_inv ?s"
    using step ok by blast+
  then show "pmm_frames ?s = add_mset p (pmm_frames s)" "pmm_arena ?s = pmm_arena s"
    by simp_all
  then show "pmm_inv ?s"
    using keep inv p new by (simp add: pmm_inv_def)
qed

interpretation pmm_pages: frame_source "\<lambda>cpu. cpu < MAX_CPUS" pmm_inv pmm_frames pmm_arena
  pmm_alloc_page pmm_free_page
proof unfold_locales
  show "mset_distinct (pmm_frames s) \<and> set_mset (pmm_frames s) \<subseteq> pmm_arena s" if "pmm_inv s" for s
    using that by (simp add: pmm_inv_def)
  show "0 \<notin> pmm_arena s" if "pmm_inv s" for s
    using that pages.arena_nonzero [of "g_buddy s"] by (simp add: pmm_inv_def pmm_arena_def)
  show "pmm_inv s' \<and> a mod 4096 = 0 \<and> pmm_frames s = add_mset (a div 4096) (pmm_frames s') \<and> pmm_arena s' = pmm_arena s"
    if "pmm_inv s" "cpu < MAX_CPUS" "pmm_alloc_page cpu s = (a, s')" "a \<noteq> 0" for s cpu a s'
    using pmm_alloc_page_ok [OF that(1,2,3)] that(4) by simp
  show "pmm_inv s' \<and> pmm_frames s' = pmm_frames s \<and> pmm_arena s' = pmm_arena s"
    if "pmm_inv s" "cpu < MAX_CPUS" "pmm_alloc_page cpu s = (0, s')" for s cpu s'
    using pmm_alloc_page_ok [OF that] by simp
  show "pmm_inv (pmm_free_page cpu (p * 4096) s) \<and>
      pmm_frames (pmm_free_page cpu (p * 4096) s) = add_mset p (pmm_frames s) \<and>
      pmm_arena (pmm_free_page cpu (p * 4096) s) = pmm_arena s"
    if "pmm_inv s" "cpu < MAX_CPUS" "p \<in> pmm_arena s" "p \<notin># pmm_frames s" for s cpu p
    using pmm_free_page_ok [OF that] by simp
qed

lemma pmm_alloc_pages_ok:
  assumes inv: "pmm_inv s" and cpu: "cpu < MAX_CPUS" and run: "pmm_alloc_pages cpu n s = (a, s')"
  shows "pmm_inv s' \<and> pmm_arena s' = pmm_arena s \<and> (a = 0 \<longrightarrow> pmm_frames s' = pmm_frames s) \<and>
    (a \<noteq> 0 \<longrightarrow> n \<noteq> 0 \<and> n \<le> 2 ^ pages_to_order n \<and> a mod (4096 * 2 ^ pages_to_order n) = 0 \<and>
      pmm_frames s = pmm_frames s' + block_frames a (pages_to_order n))"
proof (cases "n \<le> 1")
  case True
  show ?thesis
  proof (cases "n = 0")
    case True
    then show ?thesis
      using inv run by (auto simp: pmm_alloc_pages_def)
  next
    case False
    then show ?thesis
      using True run pmm_alloc_page_ok [OF inv cpu, of a s']
      by (auto simp: pmm_alloc_pages_def pages_to_order_def block_frames_0)
  qed
next
  case False
  obtain b where b: "buddy_alloc (pages_to_order n) (g_buddy s) = (a, b)" and s': "s' = s\<lparr>g_buddy := b\<rparr>"
    using run False by (auto simp: pmm_alloc_pages_def buddy_alloc_pages_def split: prod.splits)
  have bi: "buddy_inv (g_buddy s)"
    using inv by (simp add: pmm_inv_def)
  show ?thesis
  proof (cases "a = 0")
    case True
    then have "b = g_buddy s"
      using buddy_alloc_none(1) [OF bi] b by blast
    then show ?thesis
      using inv s' True by simp
  next
    case nz: False
    note ok = buddy_alloc_ok [OF bi b nz]
    have frames: "pmm_frames s = pmm_frames s' + block_frames a (pages_to_order n)"
      using ok(1) by (simp add: pmm_frames_def s' ac_simps)
    have arena: "pmm_arena s' = pmm_arena s"
      using ok(4,5) by (simp add: pmm_arena_def s' arena_frames_def)
    have "n \<le> 2 ^ pages_to_order n"
      using ok(6) False pages_to_order_loop_least [of 1 0 n] by (auto simp: pages_to_order_def split: if_splits)
    moreover have "pmm_inv s'"
      using inv frames arena ok by (auto simp: pmm_inv_def mset_distinct_add s')
    ultimately show ?thesis
      using frames arena ok(2) nz False by (simp add: block_ok_def PAGE_SIZE_def)
  qed
qed

section \<open>Initialisation\<close>

definition usable :: "memory_map_entry list \<Rightarrow> memory_map_entry set" where
  "usable es = {e \<in> set es. e_type e = 1}"

lemma best_entry_max:
  "best_entry es best = (base, len) \<Longrightarrow>
    ((base, len) = best \<or> (\<exists>e\<in>usable es. (base, len) = (e_base e, e_length e))) \<and>
    snd best \<le> len \<and> (\<forall>e\<in>usable es. e_length e \<le> len)"
proof (induction es best rule: best_entry.induct)
  case (2 e es best_base best_length)
  show ?case
  proof (cases "e_type e = 1 \<and> e_length e > best_length")
    case True
    then show ?thesis
      using "2.IH"(1) [OF True] "2.prems" by (auto simp: usable_def)
  next
    case False
    then show ?thesis
      using "2.IH"(2) [OF False] "2.prems" by (auto simp: usable_def)
  qed
qed (simp add: usable_def)

lemma boot_caches:
  "caches_frames (g_pcpu_caches pmm_static) = {#}" "\<forall>c\<in>set (g_pcpu_caches pmm_static). cache_ok c"
  "length (g_pcpu_caches pmm_static) = MAX_CPUS"
  by (auto simp: pmm_static_def caches_frames_def cache_frames_def cached_def cache_ok_def)

text \<open>The first page boundary in a region and the whole pages that follow it.\<close>

definition first_page :: "addr \<Rightarrow> addr" where
  "first_page base = (base + 4095) div 4096 * 4096"

definition whole_pages :: "addr \<Rightarrow> nat \<Rightarrow> nat" where
  "whole_pages base len = (base + len - first_page base) div 4096"

lemma pmm_init_aligned:
  assumes "best_entry es (0, 0) = (base, len)" and "base + len < 2 ^ 64" and "first_page base \<le> base + len" and "0 < len"
  shows "pmm_init es s =
    s\<lparr>g_total_pages := whole_pages base len, g_buddy := buddy_init (first_page base) (whole_pages base len)\<rparr>"
proof (cases "base mod 4096 = 0")
  case True
  then have "first_page base = base"
    by (auto simp: first_page_def)
  then show ?thesis
    using assms True by (simp add: pmm_init_def whole_pages_def PAGE_SIZE_def Let_def)
next
  case False
  define q r where "q = base div 4096" and "r = base mod 4096"
  have base: "base = 4096 * q + r" and r: "0 < r" "r < 4096"
    using False by (auto simp: q_def r_def)
  have "(4096 * q + r + 4095) div 4096 = q + 1"
    using r by (intro div_nat_eqI) auto
  then have "first_page base = base + (4096 - r)"
    using r by (simp add: first_page_def base)
  then have "wadd 64 base (4096 - r) = first_page base" "wsub 64 len (4096 - r) = base + len - first_page base"
    using assms by (simp_all add: wadd_small wsub_small)
  then show ?thesis
    using assms False by (simp add: pmm_init_def PAGE_SIZE_def r_def [symmetric] whole_pages_def Let_def)
qed

lemma pmm_init_ok:
  assumes "best_entry es (0, 0) = (base, len)" and "base + len < 2 ^ 64" and "first_page base \<le> base + len"
    and "0 < len" and "0 < base"
  shows "pmm_inv (pmm_init es pmm_static)"
    and "pmm_frames (pmm_init es pmm_static) =
      mset [first_page base div 4096 ..< first_page base div 4096 + whole_pages base len]"
    and "pmm_arena (pmm_init es pmm_static) =
      {first_page base div 4096 ..< first_page base div 4096 + whole_pages base len}"
proof -
  let ?b = "buddy_init (first_page base) (whole_pages base len)"
  have "4096 * whole_pages base len \<le> base + len - first_page base"
    by (simp add: whole_pages_def)
  moreover have "base \<le> first_page base"
    unfolding first_page_def using div_mult_mod_eq [of "base + 4095" 4096] mod_less_divisor [of 4096 "base + 4095"] by linarith
  ultimately have "arena_ok (first_page base) (whole_pages base len)"
    using assms by (auto simp: arena_ok_def PAGE_SIZE_def first_page_def)
  note ok = buddy_init_ok [OF this]
  let ?s = "pmm_init es pmm_static"
  have s: "?s = pmm_static\<lparr>g_total_pages := whole_pages base len, g_buddy := ?b\<rparr>"
    using assms by (intro pmm_init_aligned)
  show frames: "pmm_frames ?s = mset [first_page base div 4096 ..< first_page base div 4096 + whole_pages base len]"
    using ok(3) boot_caches(1) by (simp add: s pmm_frames_def PAGE_SIZE_def)
  show arena: "pmm_arena ?s = {first_page base div 4096 ..< first_page base div 4096 + whole_pages base len}"
    using ok(4,5) by (simp add: s pmm_arena_def arena_frames_def PAGE_SIZE_def)
  have "mset_distinct (pmm_frames ?s)" "set_mset (pmm_frames ?s) \<subseteq> pmm_arena ?s"
    unfolding frames arena by (simp_all del: mset_upt)
  then show "pmm_inv ?s"
    using ok boot_caches by (simp add: pmm_inv_def s)
qed

section \<open>Properties of the physical memory manager\<close>

text \<open>C5. No page frame is ever handed out twice: whatever sequence of \<open>alloc_page\<close> and \<open>free_page\<close>
  calls runs, on whatever CPUs and in whatever interleaving, the frames that are live are distinct,
  none of them is free in the buddy allocator or waits in a per-CPU cache, none is frame 0, and
  together with the frames still available they are exactly the frames the manager started with.\<close>

theorem pmm_no_double_allocation:
  assumes "pmm_inv s" and "\<forall>p\<in>set ops. caller p < MAX_CPUS"
    and "client_run pmm_alloc_page pmm_free_page ops (s, []) = (s', live)"
  shows "distinct live \<and> set live \<inter> set_mset (pmm_frames s') = {} \<and> set live \<subseteq> pmm_arena s \<and> 0 \<notin> set live \<and>
    pmm_frames s' + mset live = pmm_frames s"
  using assms by (rule pmm_pages.no_double_allocation)

text \<open>A manager set up over one usable region of six pages, for the examples.\<close>

definition small_machine :: pmm where
  "small_machine = pmm_init [\<lparr>e_base = 0, e_length = 99999999, e_type = 2\<rparr>, \<lparr>e_base = 8000, e_length = 24968, e_type = 1\<rparr>] pmm_static"

lemma small_machine_inv: "pmm_inv small_machine"
  unfolding small_machine_def by (rule pmm_init_ok [of _ 8000 24968]) (simp_all add: first_page_def)

theorem pmm_no_double_allocation_witness:
  "\<exists>s' live. client_run pmm_alloc_page pmm_free_page [Get 0, Get 1, Get 0, Put 1 6, Get 1] (small_machine, []) = (s', live) \<and>
    distinct live \<and> 0 \<notin> set live \<and> pmm_frames s' + mset live = pmm_frames small_machine"
proof -
  let ?ops = "[Get 0, Get 1, Get 0, Put 1 6, Get 1]"
  obtain s' live where run: "client_run pmm_alloc_page pmm_free_page ?ops (small_machine, []) = (s', live)"
    by fastforce
  have "\<forall>p\<in>set ?ops. caller p < MAX_CPUS"
    by (simp add: MAX_CPUS_def)
  from pmm_no_double_allocation [OF small_machine_inv this run] show ?thesis
    using run by blast
qed

text \<open>A successful \<open>alloc_pages(n)\<close> returns a block of the least power of two of pages that holds
  \<open>n\<close>, aligned to its size, made of frames that were available and are not any more; a refused one
  changes nothing of the available frames; the invariant (every cache index in bounds included) is
  kept either way.\<close>

theorem pmm_alloc_pages_spec:
  assumes "pmm_inv s" and "cpu < MAX_CPUS" and "pmm_alloc_pages cpu n s = (a, s')"
  shows "pmm_inv s' \<and> (a = 0 \<longrightarrow> pmm_frames s' = pmm_frames s) \<and>
    (a \<noteq> 0 \<longrightarrow> n \<noteq> 0 \<and> n \<le> 2 ^ pages_to_order n \<and> a mod (4096 * 2 ^ pages_to_order n) = 0 \<and>
      pmm_frames s = pmm_frames s' + mset [a div 4096 ..< a div 4096 + 2 ^ pages_to_order n])"
  using pmm_alloc_pages_ok [OF assms] by (simp add: block_frames_def PAGE_SIZE_def)

theorem pmm_alloc_pages_spec_witness:
  "\<exists>a s'. pmm_alloc_pages 0 3 small_machine = (a, s') \<and> a \<noteq> 0 \<and> pmm_inv s' \<and>
    (3::nat) \<le> 2 ^ pages_to_order 3 \<and> a mod (4096 * 2 ^ pages_to_order 3) = 0"
proof -
  obtain a s' where run: "pmm_alloc_pages 0 3 small_machine = (a, s')"
    by fastforce
  have "fst (pmm_alloc_pages 0 3 small_machine) \<noteq> 0" and "0 < MAX_CPUS"
    by code_simp+
  with pmm_alloc_pages_spec [OF small_machine_inv this(2) run] show ?thesis
    unfolding run by (intro exI [of _ a] exI [of _ s']) simp
qed

text \<open>C6. \<open>init\<close> manages the largest usable region of the memory map: it establishes the invariant,
  and the available frames are exactly the whole pages of that region, as long as the region does
  not start at address 0 and reaches its first page boundary.\<close>

theorem pmm_init_spec:
  assumes "best_entry es (0, 0) = (base, len)" and "0 < base" and "0 < len" and "base + len < 2 ^ 64"
    and "first_page base \<le> base + len"
  shows "pmm_inv (pmm_init es pmm_static) \<and>
    (\<exists>e\<in>usable es. e_base e = base \<and> e_length e = len) \<and> (\<forall>e\<in>usable es. e_length e \<le> len) \<and>
    (\<forall>p. p \<in># pmm_frames (pmm_init es pmm_static) \<longleftrightarrow> base \<le> p * 4096 \<and> (p + 1) * 4096 \<le> base + len)"
proof -
  have "p \<in># pmm_frames (pmm_init es pmm_static) \<longleftrightarrow> base \<le> p * 4096 \<and> (p + 1) * 4096 \<le> base + len" for p
  proof -
    define q where "q = (base + 4095) div 4096"
    have q: "4096 * q < base + 4096" "base \<le> 4096 * q"
      using div_mult_mod_eq [of "base + 4095" 4096] mod_less_divisor [of 4096 "base + 4095"] by (auto simp: q_def)
    have fp: "first_page base = 4096 * q"
      by (simp add: first_page_def q_def)
    have "p \<in># pmm_frames (pmm_init es pmm_static) \<longleftrightarrow> q \<le> p \<and> p - q < (base + len - 4096 * q) div 4096"
      using pmm_init_ok(2) [OF assms(1,4,5,3,2)] by (auto simp: fp whole_pages_def)
    also have "\<dots> \<longleftrightarrow> q \<le> p \<and> 4096 * (p - q + 1) \<le> base + len - 4096 * q"
      using less_eq_div_iff_mult_less_eq [of 4096 "p - q + 1" "base + len - 4096 * q"] by (auto simp: mult.commute)
    also have "\<dots> \<longleftrightarrow> base \<le> p * 4096 \<and> (p + 1) * 4096 \<le> base + len"
      using q assms(5) fp by auto
    finally show ?thesis .
  qed
  then show ?thesis
    using pmm_init_ok(1) [OF assms(1,4,5,3,2)] best_entry_max [OF assms(1)] assms(3) by fastforce
qed

theorem pmm_init_spec_witness:
  "pmm_inv (pmm_init [\<lparr>e_base = 8000, e_length = 24968, e_type = 1\<rparr>] pmm_static) \<and>
    2 \<in># pmm_frames (pmm_init [\<lparr>e_base = 8000, e_length = 24968, e_type = 1\<rparr>] pmm_static)"
  using pmm_init_spec [of "[\<lparr>e_base = 8000, e_length = 24968, e_type = 1\<rparr>]" 8000 24968]
  by (simp add: first_page_def)

text \<open>A largest region too short to reach its first page boundary wraps the length around: the
  manager claims the whole address space.\<close>

lemma pmm_init_short_region:
  "g_total_pages (pmm_init [\<lparr>e_base = 1, e_length = 1, e_type = 1\<rparr>] s) = 2 ^ 52 - 1"
  by (simp add: pmm_init_def PAGE_SIZE_def wsub_def wadd_def Let_def)

end
