(* ===== verification/Byte_Queue.thy ===== *)
theory Byte_Queue
  imports Prelude
begin

text \<open>
  Bounded first-in first-out byte queues: the interface its clients rely on,
  with what follows for any sequence of writes and reads, and the facts on
  circular arrays with which the kernel's ring buffers provide it.
\<close>

type_synonym byte = "8 word"

section \<open>The interface\<close>

datatype 'a queue_op = Write "'a list" | Read nat

text \<open>A run of operations; it collects the accepted and the delivered elements.\<close>

fun queue_step ::
  "('a list \<Rightarrow> 's \<Rightarrow> nat \<times> 's) \<Rightarrow> (nat \<Rightarrow> 's \<Rightarrow> 'a list \<times> 's) \<Rightarrow> 'a queue_op \<Rightarrow> 's \<times> 'a list \<times> 'a list \<Rightarrow> 's \<times> 'a list \<times> 'a list" where
  "queue_step put get (Write d) (s, inp, outp) = (case put d s of (n, s') \<Rightarrow> (s', inp @ take n d, outp))"
| "queue_step put get (Read n) (s, inp, outp) = (case get n s of (d, s') \<Rightarrow> (s', inp, outp @ d))"

definition queue_run ::
  "('a list \<Rightarrow> 's \<Rightarrow> nat \<times> 's) \<Rightarrow> (nat \<Rightarrow> 's \<Rightarrow> 'a list \<times> 's) \<Rightarrow> 'a queue_op list \<Rightarrow> 's \<Rightarrow> 's \<times> 'a list \<times> 'a list" where
  "queue_run put get ops s = fold (queue_step put get) ops (s, [], [])"

locale bounded_fifo =
  fixes invar :: "'s \<Rightarrow> bool"
    and content :: "'s \<Rightarrow> 'a list"
    and cap :: nat
    and put :: "'a list \<Rightarrow> 's \<Rightarrow> nat \<times> 's"
    and get :: "nat \<Rightarrow> 's \<Rightarrow> 'a list \<times> 's"
  assumes content_bound: "invar s \<Longrightarrow> length (content s) \<le> cap"
    and put_law: "invar s \<Longrightarrow> put d s = (n, s') \<Longrightarrow>
      invar s' \<and> n = min (length d) (cap - length (content s)) \<and> content s' = content s @ take n d"
    and get_law: "invar s \<Longrightarrow> get k s = (d, s') \<Longrightarrow>
      invar s' \<and> d = take k (content s) \<and> content s' = drop k (content s)"
begin

lemma run_from:
  assumes "invar s" and "fold (queue_step put get) ops (s, inp, outp) = (s', inp', outp')"
    and "outp @ content s = q @ inp"
  shows "invar s' \<and> outp' @ content s' = q @ inp' \<and> length (content s') \<le> cap"
  using assms
proof (induction ops arbitrary: s inp outp)
  case Nil
  then show ?case
    using content_bound by simp
next
  case (Cons p ops)
  show ?case
  proof (cases p)
    case (Write d)
    obtain n t where put: "put d s = (n, t)"
      by (cases "put d s")
    show ?thesis
      using Cons.IH [of t "inp @ take n d" outp] Cons.prems put_law [OF Cons.prems(1) put] put Write
      by (simp add: append_assoc [symmetric] del: append_assoc)
  next
    case (Read k)
    obtain d t where get: "get k s = (d, t)"
      by (cases "get k s")
    show ?thesis
      using Cons.IH [of t inp "outp @ d"] Cons.prems get_law [OF Cons.prems(1) get] get Read by simp
  qed
qed

lemma fifo_order:
  assumes "invar s" and "queue_run put get ops s = (s', inp, outp)"
  shows "invar s' \<and> outp @ content s' = content s @ inp \<and> length (content s') \<le> cap"
  using run_from [of s ops "[]" "[]" s' inp outp "content s"] assms by (simp add: queue_run_def)

lemma put_all_when_room:
  assumes "invar s" and "length d \<le> cap - length (content s)"
  shows "fst (put d s) = length d"
  using assms put_law [of s d] by (cases "put d s") auto

lemma put_nothing_when_full:
  assumes "invar s" and "length (content s) = cap"
  shows "fst (put d s) = 0 \<and> content (snd (put d s)) = content s"
  using assms put_law [of s d] by (cases "put d s") auto

end

section \<open>Circular arrays\<close>

text \<open>\<open>memcpy\<close> of \<open>data\<close> to the offset \<open>pos\<close> of an array.\<close>

definition memcpy_at :: "'a list \<Rightarrow> nat \<Rightarrow> 'a list \<Rightarrow> 'a list" where
  "memcpy_at buf pos data = take pos buf @ data @ drop (pos + length data) buf"

lemma length_memcpy_at [simp]: "pos + length data \<le> length buf \<Longrightarrow> length (memcpy_at buf pos data) = length buf"
  by (simp add: memcpy_at_def)

lemma memcpy_at_Nil [simp]: "memcpy_at buf pos [] = buf"
  by (simp add: memcpy_at_def)

lemma nth_memcpy_at:
  assumes "pos + length data \<le> length buf" and "i < length buf"
  shows "memcpy_at buf pos data ! i = (if pos \<le> i \<and> i < pos + length data then data ! (i - pos) else buf ! i)"
  using assms by (auto simp: memcpy_at_def nth_append min_def)

definition ring_content :: "'a list \<Rightarrow> nat \<Rightarrow> nat \<Rightarrow> 'a list" where
  "ring_content buf head n = map (\<lambda>i. buf ! ((head + i) mod length buf)) [0..<n]"

lemma length_ring_content [simp]: "length (ring_content buf head n) = n"
  by (simp add: ring_content_def)

lemma nth_ring_content: "i < n \<Longrightarrow> ring_content buf head n ! i = buf ! ((head + i) mod length buf)"
  by (simp add: ring_content_def)

text \<open>The two-part copy into a ring.\<close>

lemma nth_ring_copy:
  assumes "tail < length buf" and "n \<le> length buf" and "n \<le> length d" and "first = min n (length buf - tail)"
    and "p < length buf"
  shows "memcpy_at (memcpy_at buf tail (take first d)) 0 (take (n - first) (drop first d)) ! p =
    (if (p + length buf - tail) mod length buf < n then d ! ((p + length buf - tail) mod length buf) else buf ! p)"
proof -
  let ?N = "length buf" and ?j = "(p + length buf - tail) mod length buf"
  have len: "length (take first d) = first" "length (take (n - first) (drop first d)) = n - first"
    and fit: "tail + first \<le> ?N" "n - first \<le> tail"
    using assms by auto
  have lhs: "memcpy_at (memcpy_at buf tail (take first d)) 0 (take (n - first) (drop first d)) ! p =
      (if p < n - first then d ! (first + p) else if tail \<le> p \<and> p < tail + first then d ! (p - tail) else buf ! p)"
    using assms(1,2,3,5) fit len by (simp add: nth_memcpy_at) (intro conjI impI nth_take; linarith)
  show ?thesis
  proof (cases "tail \<le> p")
    case True
    then have j: "?j = p - tail"
      using assms by (simp add: mod_if)
    have "(p < tail + first) = (p - tail < n)"
      using True assms(4,5) by auto
    then show ?thesis
      unfolding lhs j using True fit(2) by simp
  next
    case False
    then have j: "?j = p + ?N - tail"
      using assms by simp
    have "(p < n - first) = (p + ?N - tail < n)"
      using False assms(1,4) by auto
    moreover have "first + p = p + ?N - tail" if "p < n - first"
      using that assms(1,4) by auto
    ultimately show ?thesis
      unfolding lhs j using False by simp
  qed
qed

lemma mod_once: "0 < N \<Longrightarrow> x < 2 * N \<Longrightarrow> x mod N = (if x < N then x else x - N)" for x N :: nat
  by (simp add: mod_if)

text \<open>The distance of a slot from the tail of the ring.\<close>

lemma ring_distance:
  fixes h n m i N :: nat
  assumes "h < N" and "m + n \<le> N" and "i < m + n"
  shows "((h + i) mod N + N - (h + m) mod N) mod N = (if m \<le> i then i - m else i + N - m)"
proof -
  have "(h + i) mod N = (if h + i < N then h + i else h + i - N)"
    and "(h + m) mod N = (if h + m < N then h + m else h + m - N)"
    using assms mod_once [of N "h + i"] mod_once [of N "h + m"] by linarith+
  then have "((h + i) mod N + N - (h + m) mod N) = (if m \<le> i then i - m else i + N - m) \<or>
      ((h + i) mod N + N - (h + m) mod N) = (if m \<le> i then i - m else i + N - m) + N"
    using assms by (auto split: if_splits)
  moreover have "(if m \<le> i then i - m else i + N - m) < N"
    using assms by auto
  ultimately show ?thesis
    by (elim disjE) (simp_all only: mod_add_self2 mod_less)
qed

lemma ring_content_copy:
  assumes "head < length buf" and "m + n \<le> length buf" and "n \<le> length d"
    and tail: "tail = (head + m) mod length buf" and first: "first = min n (length buf - tail)"
  shows "ring_content (memcpy_at (memcpy_at buf tail (take first d)) 0 (take (n - first) (drop first d))) head (m + n) =
    ring_content buf head m @ take n d" (is "ring_content ?buf _ _ = _")
proof (rule nth_equalityI)
  have tl: "tail < length buf"
    using assms(1) by (simp add: tail) (metis mod_less_divisor gr_zeroI not_less0)
  have len: "length ?buf = length buf"
    using assms(2,3) tl by (simp add: first)
  fix i assume "i < length (ring_content ?buf head (m + n))"
  then have i: "i < m + n"
    by simp
  have p: "(head + i) mod length buf < length buf"
    using assms(1) by (intro mod_less_divisor) linarith
  show "ring_content ?buf head (m + n) ! i = (ring_content buf head m @ take n d) ! i"
    using nth_ring_copy [OF tl _ assms(3) first p] ring_distance [OF assms(1,2) i, folded tail] assms(2) i
    by (auto simp: nth_ring_content len nth_append)
qed (use assms in simp)

lemma ring_content_advance:
  assumes "k \<le> m"
  shows "ring_content buf ((head + k) mod length buf) (m - k) = drop k (ring_content buf head m)"
proof (rule nth_equalityI)
  fix i assume "i < length (ring_content buf ((head + k) mod length buf) (m - k))"
  then have "i < m - k"
    by simp
  then show "ring_content buf ((head + k) mod length buf) (m - k) ! i = drop k (ring_content buf head m) ! i"
    by (simp add: nth_ring_content mod_add_left_eq add.assoc)
qed simp

text \<open>The two-part copy out of a ring.\<close>

lemma ring_content_take:
  assumes "head < length buf" and "n \<le> m" and "m \<le> length buf" and first: "first = min n (length buf - head)"
  shows "take first (drop head buf) @ take (n - first) buf = take n (ring_content buf head m)"
proof (rule nth_equalityI)
  show "length (take first (drop head buf) @ take (n - first) buf) = length (take n (ring_content buf head m))"
    using assms by simp
  fix i assume "i < length (take first (drop head buf) @ take (n - first) buf)"
  then have i: "i < n"
    using assms by simp
  have "(head + i) mod length buf = (if head + i < length buf then head + i else head + i - length buf)"
    using i assms by (intro mod_once) linarith+
  then show "(take first (drop head buf) @ take (n - first) buf) ! i = take n (ring_content buf head m) ! i"
    using i assms by (auto simp: nth_append nth_ring_content min_def add.commute)
qed

end
