(* ===== verification/Vfs.thy ===== *)
theory Vfs
  imports Byte_Queue
begin

text \<open>
  The virtual file system switch (\<open>src/src/kernel/vfs/vfs.cpp\<close>,
  \<open>src/src/include/kernel/vfs/vfs.hpp\<close>): node references, path resolution, the
  descriptor tables of the threads and the file system calls over them.

  A node is named by a number that stands for its address; \<open>nodes\<close> is the heap
  of live nodes.  Function pointer tables are the argument \<open>tbl\<close>: a node names
  its table (\<open>n_ops\<close>), and a table entry is a function on the whole state, whose
  driver-private part has the type \<open>'d\<close>.  A null pointer in a table is \<open>None\<close>.
  Whether an allocation of the kernel heap succeeds is the argument \<open>mem\<close>.
  Errors are the negative numbers of the source.  A null \<open>fd_table\<close> is the
  empty table: a table that exists has at least \<open>INITIAL_FDS\<close> entries.
\<close>

section \<open>State\<close>

type_synonym nid = nat

datatype file_type = REGULAR | DIRECTORY | CHAR_DEVICE | BLOCK_DEVICE | SOCKET | EPOLL

record vfs_node =
  n_name :: string
  n_hash :: "32 word"
  n_inode :: nat
  n_length :: nat
  n_type :: file_type
  n_uid :: nat
  n_gid :: nat
  n_mask :: nat
  n_flags :: nat
  n_ops :: "nat option"
  n_references :: nat
  n_managed :: bool

record file_descriptor =
  fd_node :: "nid option"
  fd_offset :: nat
  fd_flags :: nat

record 'd vfs =
  nodes :: "nid \<Rightarrow> vfs_node option"
  tables :: "file_descriptor list list"
  cur :: "nat option"
  g_root :: "nid option"
  drv :: 'd

record 'd vfs_ops =
  o_read :: "(nid \<Rightarrow> nat \<Rightarrow> nat \<Rightarrow> 'd vfs \<Rightarrow> int \<times> byte list \<times> 'd vfs) option"
  o_write :: "(nid \<Rightarrow> nat \<Rightarrow> byte list \<Rightarrow> 'd vfs \<Rightarrow> int \<times> 'd vfs) option"
  o_truncate :: "(nid \<Rightarrow> nat \<Rightarrow> 'd vfs \<Rightarrow> int \<times> 'd vfs) option"
  o_open :: "(nid \<Rightarrow> 'd vfs \<Rightarrow> 'd vfs) option"
  o_close :: "(nid \<Rightarrow> 'd vfs \<Rightarrow> 'd vfs) option"
  o_ioctl :: "(nid \<Rightarrow> nat \<Rightarrow> nat \<Rightarrow> 'd vfs \<Rightarrow> int \<times> 'd vfs) option"
  o_readdir :: "(nid \<Rightarrow> nat \<Rightarrow> 'd vfs \<Rightarrow> nid option) option"
  o_lookup :: "(nid \<Rightarrow> string \<Rightarrow> 'd vfs \<Rightarrow> int \<times> nid option \<times> 'd vfs) option"
  o_fsync :: "(nid \<Rightarrow> 'd vfs \<Rightarrow> int \<times> 'd vfs) option"
  o_poll :: "(nid \<Rightarrow> 'd vfs \<Rightarrow> nat) option"
  o_refresh_metadata :: "(nid \<Rightarrow> 'd vfs \<Rightarrow> int \<times> 'd vfs) option"
  o_append :: "(nid \<Rightarrow> byte list \<Rightarrow> 'd vfs \<Rightarrow> int \<times> nat \<times> 'd vfs) option"
  o_destroy :: "nid \<Rightarrow> 'd vfs \<Rightarrow> 'd vfs"

type_synonym 'd optab = "nat \<Rightarrow> 'd vfs_ops"

definition LONG_MAX :: nat where
  "LONG_MAX = 2 ^ 63 - 1"

definition SIZE_MAX :: nat where
  "SIZE_MAX = 2 ^ 64 - 1"

definition INITIAL_FDS :: nat where
  "INITIAL_FDS = 8"

definition MAX_FDS :: nat where
  "MAX_FDS = 32"

definition ACCESS_MODE :: nat where
  "ACCESS_MODE = 3"

definition O_APPEND_K :: nat where
  "O_APPEND_K = 0x400"

definition O_NONBLOCK_K :: nat where
  "O_NONBLOCK_K = 0x800"

definition SETTABLE_FLAGS :: nat where
  "SETTABLE_FLAGS = O_APPEND_K OR O_NONBLOCK_K"

definition node :: "'d vfs \<Rightarrow> nid \<Rightarrow> vfs_node" where
  "node s n = the (nodes s n)"

definition upd_node :: "nid \<Rightarrow> (vfs_node \<Rightarrow> vfs_node) \<Rightarrow> 'd vfs \<Rightarrow> 'd vfs" where
  "upd_node n f s = s\<lparr>nodes := (nodes s)(n := map_option f (nodes s n))\<rparr>"

text \<open>The entry of a node's table, \<open>node->ops && node->ops->op\<close>.\<close>

definition op_of :: "'d optab \<Rightarrow> ('d vfs_ops \<Rightarrow> 'f option) \<Rightarrow> 'd vfs \<Rightarrow> nid \<Rightarrow> 'f option" where
  "op_of tbl sel s n = Option.bind (n_ops (node s n)) (\<lambda>t. sel (tbl t))"

text \<open>\<open>delete node\<close>, what every finalizer ends with.  It also stands in the tables of drivers that
  leave \<open>destroy\<close> null, where it is never called.\<close>

definition delete_node :: "nid \<Rightarrow> 'd vfs \<Rightarrow> 'd vfs" where
  "delete_node n s = s\<lparr>nodes := (nodes s)(n := None)\<rparr>"

section \<open>Node references\<close>

primrec hash_name_from :: "32 word \<Rightarrow> string \<Rightarrow> 32 word" where
  "hash_name_from h [] = h"
| "hash_name_from h (c # cs) = hash_name_from ((h XOR word_of_nat (of_char c)) * 16777619) cs"

definition hash_name :: "string \<Rightarrow> 32 word" where
  "hash_name s = hash_name_from 2166136261 s"

definition retain :: "nid \<Rightarrow> 'd vfs \<Rightarrow> 'd vfs" where
  "retain n s =
    (if n_managed (node s n) then upd_node n (\<lambda>v. v\<lparr>n_references := wadd 32 (n_references v) 1\<rparr>) s else s)"

definition release :: "'d optab \<Rightarrow> nid \<Rightarrow> 'd vfs \<Rightarrow> 'd vfs" where
  "release tbl n s =
    (if n_managed (node s n) then
       let old = n_references (node s n);
           s = upd_node n (\<lambda>v. v\<lparr>n_references := wsub 32 (n_references v) 1\<rparr>) s
       in if old = 1 then o_destroy (tbl (the (n_ops (node s n)))) n s else s
     else s)"

definition open_reference :: "'d optab \<Rightarrow> nid \<Rightarrow> 'd vfs \<Rightarrow> 'd vfs" where
  "open_reference tbl n s =
    (let s = retain n s in
     case op_of tbl o_open s n of None \<Rightarrow> s | Some f \<Rightarrow> f n s)"

definition close_reference :: "'d optab \<Rightarrow> nid \<Rightarrow> 'd vfs \<Rightarrow> 'd vfs" where
  "close_reference tbl n s =
    (let managed = n_managed (node s n);
         s = (case op_of tbl o_close s n of None \<Rightarrow> s | Some f \<Rightarrow> f n s)
     in if managed then release tbl n s else s)"

definition set_root :: "'d optab \<Rightarrow> nid option \<Rightarrow> 'd vfs \<Rightarrow> 'd vfs" where
  "set_root tbl n s =
    (let previous = g_root s; s = s\<lparr>g_root := n\<rparr>
     in case previous of None \<Rightarrow> s | Some p \<Rightarrow> release tbl p s)"

section \<open>Path resolution\<close>

definition validate_component :: "string \<Rightarrow> int" where
  "validate_component name =
    (if length name = 0 then -22
     else if length name > 127 then -36
     else if name = ''.'' \<or> name = ''..'' then -95
     else 0)"

text \<open>The scan at the start of \<open>lookup\<close>; its result is an error or 0.\<close>

fun scan_name :: "string \<Rightarrow> nat \<Rightarrow> int" where
  "scan_name [] len = 0"
| "scan_name (c # cs) len = (if c = CHR ''/'' then -22 else if len + 1 > 127 then -36 else scan_name cs (len + 1))"

definition vfs_lookup :: "'d optab \<Rightarrow> nid option \<Rightarrow> string option \<Rightarrow> 'd vfs \<Rightarrow> int \<times> nid option \<times> 'd vfs" where
  "vfs_lookup tbl directory name s =
    (case name of None \<Rightarrow> (-14, None, s) | Some name \<Rightarrow>
     if scan_name name 0 < 0 then (scan_name name 0, None, s)
     else if validate_component name < 0 then (validate_component name, None, s)
     else
       case directory of None \<Rightarrow> (-2, None, s) | Some d \<Rightarrow>
       if n_type (node s d) \<noteq> DIRECTORY then (-20, None, s)
       else
         case op_of tbl o_lookup s d of None \<Rightarrow> (-95, None, s) | Some look \<Rightarrow>
         (case look d name s of
            (error, child, s) \<Rightarrow>
              if error < 0 then (error, None, s)
              else if error \<noteq> 0 \<or> child = None then (-5, None, s)
              else (0, child, s)))"

text \<open>The validation of every component before any file system is called.\<close>

function validate_path :: "string \<Rightarrow> int" where
  "validate_path [] = 0"
| "validate_path (c # cs) =
    (if c = CHR ''/'' then validate_path cs
     else
       let component = takeWhile (\<lambda>x. x \<noteq> CHR ''/'') (c # cs);
           error = validate_component component
       in if error < 0 then error else validate_path (dropWhile (\<lambda>x. x \<noteq> CHR ''/'') cs))"
  by pat_completeness auto
termination
  by (relation "measure length") (auto simp: le_imp_less_Suc length_dropWhile_le)

function walk_path :: "'d optab \<Rightarrow> nid \<Rightarrow> string \<Rightarrow> 'd vfs \<Rightarrow> int \<times> nid option \<times> 'd vfs" where
  "walk_path tbl current [] s = (0, Some current, s)"
| "walk_path tbl current (c # cs) s =
    (if c = CHR ''/'' then
       if n_type (node s current) \<noteq> DIRECTORY then (-20, None, release tbl current s)
       else walk_path tbl current cs s
     else
       let component = takeWhile (\<lambda>x. x \<noteq> CHR ''/'') (c # cs);
           rest = dropWhile (\<lambda>x. x \<noteq> CHR ''/'') cs
       in case vfs_lookup tbl (Some current) (Some component) s of
            (error, child, s) \<Rightarrow>
              if error < 0 then (error, None, release tbl current s)
              else walk_path tbl (the child) rest (release tbl current s))"
  by pat_completeness auto
termination
  by (relation "measure (\<lambda>(tbl, current, path, s). length path)") (auto simp: le_imp_less_Suc length_dropWhile_le)

definition resolve_path :: "'d optab \<Rightarrow> string option \<Rightarrow> 'd vfs \<Rightarrow> int \<times> nid option \<times> 'd vfs" where
  "resolve_path tbl path s =
    (case path of None \<Rightarrow> (-14, None, s) | Some path \<Rightarrow>
     if path = [] then (-2, None, s)
     else if hd path \<noteq> CHR ''/'' then (-22, None, s)
     else if length path \<ge> 1024 then (-36, None, s)
     else if validate_path (tl path) < 0 then (validate_path (tl path), None, s)
     else
       case g_root s of None \<Rightarrow> (-2, None, s) | Some r \<Rightarrow> walk_path tbl r path (retain r s))"

section \<open>Descriptor tables\<close>

definition empty_fd :: file_descriptor where
  "empty_fd = \<lparr>fd_node = None, fd_offset = 0, fd_flags = 0\<rparr>"

function grow_count :: "nat \<Rightarrow> nat \<Rightarrow> nat" where
  "grow_count n new_count = (if new_count < n \<and> 0 < new_count then grow_count n (new_count * 2) else new_count)"
  by pat_completeness auto
termination
  by (relation "measure (\<lambda>(n, c). n - c)") auto

definition ensure_fd_capacity :: "bool \<Rightarrow> nat \<Rightarrow> file_descriptor list \<Rightarrow> bool \<times> file_descriptor list" where
  "ensure_fd_capacity mem n table =
    (let n = min n MAX_FDS in
     if table \<noteq> [] \<and> length table \<ge> n then (True, table)
     else
       let new_count = grow_count n (if length table \<noteq> 0 then length table else INITIAL_FDS);
           new_count = min new_count MAX_FDS
       in if \<not> mem then (False, table)
          else (True, table @ replicate (new_count - length table) empty_fd))"

definition get_fd :: "'d vfs \<Rightarrow> int \<Rightarrow> file_descriptor option" where
  "get_fd s fd =
    (case cur s of None \<Rightarrow> None | Some t \<Rightarrow>
     if fd < 0 \<or> nat fd \<ge> length (tables s ! t) then None else Some (tables s ! t ! nat fd))"

definition put_fd :: "int \<Rightarrow> file_descriptor \<Rightarrow> 'd vfs \<Rightarrow> 'd vfs" where
  "put_fd fd d s =
    (case cur s of None \<Rightarrow> s | Some t \<Rightarrow> s\<lparr>tables := (tables s)[t := (tables s ! t)[nat fd := d]]\<rparr>)"

fun first_free :: "file_descriptor list \<Rightarrow> nat option" where
  "first_free [] = None"
| "first_free (d # ds) = (if fd_node d = None then Some 0 else map_option Suc (first_free ds))"

text \<open>\<open>alloc_fd\<close> on one table: the descriptor or the error, and the table.\<close>

definition alloc_slot :: "bool \<Rightarrow> file_descriptor list \<Rightarrow> (int + nat) \<times> file_descriptor list" where
  "alloc_slot mem table =
    (let (ok, table) = (if table = [] then ensure_fd_capacity mem INITIAL_FDS table else (True, table)) in
     if \<not> ok then (Inl (-12), table)
     else
       case first_free table of
         Some i \<Rightarrow> (Inr i, table)
       | None \<Rightarrow>
           if length table < MAX_FDS then
             let old = length table; (ok, table) = ensure_fd_capacity mem (length table + 1) table in
             if \<not> ok then (Inl (-12), table)
             else if old < length table then (Inr old, table)
             else (Inl (if length table \<ge> MAX_FDS then -24 else -12), table)
           else (Inl (-24), table))"

definition alloc_fd :: "bool \<Rightarrow> nid option \<Rightarrow> 'd vfs \<Rightarrow> int \<times> 'd vfs" where
  "alloc_fd mem n s =
    (case cur s of None \<Rightarrow> (-3, s) | Some t \<Rightarrow>
     case n of None \<Rightarrow> (-22, s) | Some n \<Rightarrow>
     let flags = (if n_type (node s n) = SOCKET then 2 else 0);
         (slot, table) = alloc_slot mem (tables s ! t);
         s = s\<lparr>tables := (tables s)[t := table]\<rparr>
     in case slot of
          Inl e \<Rightarrow> (e, s)
        | Inr i \<Rightarrow>
            (int i,
             put_fd (int i) \<lparr>fd_node = Some n, fd_offset = 0, fd_flags = flags\<rparr> (retain n s)))"

text \<open>\<open>close_descriptor\<close> on entry \<open>i\<close> of the table of thread \<open>t\<close>.\<close>

definition close_descriptor :: "'d optab \<Rightarrow> nat \<Rightarrow> nat \<Rightarrow> 'd vfs \<Rightarrow> 'd vfs" where
  "close_descriptor tbl t i s =
    (let n = fd_node (tables s ! t ! i);
         s = s\<lparr>tables := (tables s)[t := (tables s ! t)[i := empty_fd]]\<rparr>
     in case n of None \<Rightarrow> s | Some n \<Rightarrow> close_reference tbl n s)"

definition free_fd :: "'d optab \<Rightarrow> int \<Rightarrow> 'd vfs \<Rightarrow> 'd vfs" where
  "free_fd tbl fd s =
    (case get_fd s fd of None \<Rightarrow> s | Some _ \<Rightarrow> close_descriptor tbl (the (cur s)) (nat fd) s)"

definition close_all :: "'d optab \<Rightarrow> nat \<Rightarrow> 'd vfs \<Rightarrow> 'd vfs" where
  "close_all tbl owner s = fold (close_descriptor tbl owner) [0..<length (tables s ! owner)] s"

primrec copy_fd_loop :: "'d optab \<Rightarrow> nat \<Rightarrow> nat \<Rightarrow> nat list \<Rightarrow> 'd vfs \<Rightarrow> 'd vfs" where
  "copy_fd_loop tbl source target [] s = s"
| "copy_fd_loop tbl source target (i # is) s =
    (let d = tables s ! source ! i;
         s = s\<lparr>tables := (tables s)[target := (tables s ! target)[i := d]]\<rparr>;
         s = (case fd_node d of None \<Rightarrow> s | Some n \<Rightarrow> open_reference tbl n s)
     in copy_fd_loop tbl source target is s)"

definition copy_fds :: "'d optab \<Rightarrow> bool \<Rightarrow> nat option \<Rightarrow> nat option \<Rightarrow> 'd vfs \<Rightarrow> int \<times> 'd vfs" where
  "copy_fds tbl mem source target s =
    (case (source, target) of
       (Some src, Some dst) \<Rightarrow>
         if src = dst then (-22, s)
         else if \<exists>d\<in>set (tables s ! dst). fd_node d \<noteq> None then (-22, s)
         else if tables s ! src = [] then (0, s)
         else
           let (ok, table) = ensure_fd_capacity mem (length (tables s ! src)) (tables s ! dst) in
           if \<not> ok then (-12, s)
           else (0, copy_fd_loop tbl src dst [0..<length (tables s ! src)] (s\<lparr>tables := (tables s)[dst := table]\<rparr>))
     | _ \<Rightarrow> (-22, s))"

definition get_fd_node :: "'d vfs \<Rightarrow> int \<Rightarrow> nid option" where
  "get_fd_node s fd = Option.bind (get_fd s fd) fd_node"

section \<open>System calls\<close>

definition O_DIRECTORY_K :: nat where
  "O_DIRECTORY_K = 0x10000"

definition vfs_sys_open :: "'d optab \<Rightarrow> bool \<Rightarrow> string option \<Rightarrow> nat \<Rightarrow> 'd vfs \<Rightarrow> int \<times> 'd vfs" where
  "vfs_sys_open tbl mem path flags s =
    (if cur s = None then (-3, s)
     else if flags AND ACCESS_MODE = ACCESS_MODE then (-22, s)
     else
       case resolve_path tbl path s of (error, n, s) \<Rightarrow>
       if error < 0 then (error, s)
       else
         let n = the n in
         if flags AND O_DIRECTORY_K \<noteq> 0 \<and> n_type (node s n) \<noteq> DIRECTORY then (-20, release tbl n s)
         else
           case alloc_fd mem (Some n) s of (fd, s) \<Rightarrow>
           if fd < 0 then (fd, release tbl n s)
           else
             let s = put_fd fd ((the (get_fd s fd))\<lparr>fd_flags := flags\<rparr>) s;
                 s = (case op_of tbl o_open s n of None \<Rightarrow> s | Some f \<Rightarrow> f n s)
             in (fd, release tbl n s))"

text \<open>The buffers of \<open>read\<close> and \<open>write\<close>: whether the pointer is not null, and the bytes written
  through it (\<open>read\<close>); the bytes it points to, or null (\<open>write\<close>, where \<open>sz\<close> is their number).\<close>

definition vfs_sys_read :: "'d optab \<Rightarrow> int \<Rightarrow> bool \<Rightarrow> nat \<Rightarrow> 'd vfs \<Rightarrow> int \<times> byte list \<times> 'd vfs" where
  "vfs_sys_read tbl fd buffer sz s =
    (case get_fd s fd of None \<Rightarrow> (-9, [], s) | Some d \<Rightarrow>
     case fd_node d of None \<Rightarrow> (-9, [], s) | Some n \<Rightarrow>
     let access = fd_flags d AND ACCESS_MODE in
     if access \<noteq> 0 \<and> access \<noteq> 2 then (-9, [], s)
     else if n_type (node s n) = DIRECTORY then (-21, [], s)
     else if sz = 0 then (0, [], s)
     else if \<not> buffer then (-14, [], s)
     else if sz > LONG_MAX then (-75, [], s)
     else
       case op_of tbl o_read s n of None \<Rightarrow> (-22, [], s) | Some rd \<Rightarrow>
       case rd n (fd_offset d) sz s of (bytes_read, data, s) \<Rightarrow>
       if bytes_read > 0 then
         if nat bytes_read > sz then (-5, data, s)
         else if nat bytes_read > SIZE_MAX - fd_offset d then (-75, data, s)
         else (bytes_read, data, put_fd fd (d\<lparr>fd_offset := fd_offset d + nat bytes_read\<rparr>) s)
       else (bytes_read, data, s))"

definition vfs_sys_write :: "'d optab \<Rightarrow> int \<Rightarrow> byte list option \<Rightarrow> nat \<Rightarrow> 'd vfs \<Rightarrow> int \<times> 'd vfs" where
  "vfs_sys_write tbl fd buffer sz s =
    (case get_fd s fd of None \<Rightarrow> (-9, s) | Some d \<Rightarrow>
     case fd_node d of None \<Rightarrow> (-9, s) | Some n \<Rightarrow>
     let access = fd_flags d AND ACCESS_MODE in
     if access \<noteq> 1 \<and> access \<noteq> 2 then (-9, s)
     else if n_type (node s n) = DIRECTORY then (-21, s)
     else if sz = 0 then (0, s)
     else
       case buffer of None \<Rightarrow> (-14, s) | Some data \<Rightarrow>
       if sz > LONG_MAX then (-75, s)
       else if n_type (node s n) = REGULAR \<and> fd_flags d AND O_APPEND_K \<noteq> 0 then
         case op_of tbl o_append s n of None \<Rightarrow> (-95, s) | Some app \<Rightarrow>
         case app n (take sz data) s of (written, end_offset, s) \<Rightarrow>
         (written, if written > 0 then put_fd fd (d\<lparr>fd_offset := end_offset\<rparr>) s else s)
       else
         case op_of tbl o_write s n of None \<Rightarrow> (-22, s) | Some wr \<Rightarrow>
         if sz > SIZE_MAX - fd_offset d then (-75, s)
         else
           case wr n (fd_offset d) (take sz data) s of (bytes_written, s) \<Rightarrow>
           if bytes_written > 0 then
             if nat bytes_written > sz then (-5, s)
             else (bytes_written, put_fd fd (d\<lparr>fd_offset := wadd 64 (fd_offset d) (nat bytes_written)\<rparr>) s)
           else (bytes_written, s))"

definition vfs_sys_close :: "'d optab \<Rightarrow> int \<Rightarrow> 'd vfs \<Rightarrow> int \<times> 'd vfs" where
  "vfs_sys_close tbl fd s =
    (case get_fd s fd of None \<Rightarrow> (-9, s) | Some d \<Rightarrow>
     if fd_node d = None then (-9, s)
     else (0, close_descriptor tbl (the (cur s)) (nat fd) s))"

definition vfs_sys_ioctl :: "'d optab \<Rightarrow> int \<Rightarrow> nat \<Rightarrow> nat \<Rightarrow> 'd vfs \<Rightarrow> int \<times> 'd vfs" where
  "vfs_sys_ioctl tbl fd request argp s =
    (case get_fd_node s fd of None \<Rightarrow> (-1, s) | Some n \<Rightarrow>
     case op_of tbl o_ioctl s n of None \<Rightarrow> (-1, s) | Some f \<Rightarrow> f n request argp s)"

record dirent_k =
  d_ino :: nat
  d_off :: nat
  d_reclen :: nat
  d_type :: nat
  d_name :: string

definition sizeof_dirent :: nat where
  "sizeof_dirent = 280"

definition vfs_sys_getdents :: "'d optab \<Rightarrow> int \<Rightarrow> nat \<Rightarrow> 'd vfs \<Rightarrow> int \<times> dirent_k option \<times> 'd vfs" where
  "vfs_sys_getdents tbl fd sz s =
    (case get_fd s fd of None \<Rightarrow> (-1, None, s) | Some d \<Rightarrow>
     case fd_node d of None \<Rightarrow> (-1, None, s) | Some n \<Rightarrow>
     if sz < sizeof_dirent then (-1, None, s)
     else if n_type (node s n) \<noteq> DIRECTORY then (-1, None, s)
     else
       case op_of tbl o_readdir s n of None \<Rightarrow> (-1, None, s) | Some rd \<Rightarrow>
       case rd n (fd_offset d) s of None \<Rightarrow> (0, None, s) | Some child \<Rightarrow>
       (int sizeof_dirent,
        Some \<lparr>d_ino = n_inode (node s child), d_off = fd_offset d, d_reclen = sizeof_dirent,
              d_type = (if n_type (node s child) = DIRECTORY then 4 else 8),
              d_name = take 255 (n_name (node s child))\<rparr>,
        put_fd fd (d\<lparr>fd_offset := wadd 64 (fd_offset d) 1\<rparr>) s))"

definition refresh_metadata :: "'d optab \<Rightarrow> nid \<Rightarrow> 'd vfs \<Rightarrow> int \<times> 'd vfs" where
  "refresh_metadata tbl n s =
    (case op_of tbl o_refresh_metadata s n of None \<Rightarrow> (0, s) | Some f \<Rightarrow> f n s)"

definition vfs_sys_lseek :: "'d optab \<Rightarrow> int \<Rightarrow> int \<Rightarrow> int \<Rightarrow> 'd vfs \<Rightarrow> int \<times> 'd vfs" where
  "vfs_sys_lseek tbl fd offset whence s =
    (case get_fd s fd of None \<Rightarrow> (-9, s) | Some d \<Rightarrow>
     case fd_node d of None \<Rightarrow> (-9, s) | Some n \<Rightarrow>
     case (if whence = 1 then (0, fd_offset d, s)
           else if whence = 2 then
             (case refresh_metadata tbl n s of (r, s) \<Rightarrow> (r, n_length (node s n), s))
           else if whence \<noteq> 0 then (-22, 0, s)
           else (0, 0, s)) of
       (error, base, s) \<Rightarrow>
         if error < 0 then (error, s)
         else
           case (if offset < 0 then
                   let distance = nat (- offset) in
                   if distance > base then Inl (-22) else Inr (base - distance)
                 else if base + nat offset > SIZE_MAX then Inl (-75)
                 else Inr (base + nat offset)) of
             Inl e \<Rightarrow> (e, s)
           | Inr new_offset \<Rightarrow>
               if new_offset > LONG_MAX then (-75, s)
               else (int new_offset, put_fd fd (d\<lparr>fd_offset := new_offset\<rparr>) s))"

record stat_k =
  st_ino :: nat
  st_mode :: nat
  st_nlink :: nat
  st_uid :: nat
  st_gid :: nat
  st_size :: nat
  st_blksize :: nat
  st_blocks :: nat

primrec type_bits :: "file_type \<Rightarrow> nat" where
  "type_bits REGULAR = 0x8000"
| "type_bits DIRECTORY = 0x4000"
| "type_bits CHAR_DEVICE = 0x2000"
| "type_bits BLOCK_DEVICE = 0x6000"
| "type_bits SOCKET = 0xC000"
| "type_bits EPOLL = 0x8000"

definition fill_stat :: "vfs_node \<Rightarrow> stat_k" where
  "fill_stat n =
    \<lparr>st_ino = n_inode n, st_mode = type_bits (n_type n) OR (n_mask n AND 0xFFF), st_nlink = 1,
     st_uid = n_uid n, st_gid = n_gid n, st_size = n_length n, st_blksize = 4096,
     st_blocks = n_length n div 512 + (if n_length n mod 512 \<noteq> 0 then 1 else 0)\<rparr>"

definition vfs_sys_stat :: "'d optab \<Rightarrow> string option \<Rightarrow> bool \<Rightarrow> 'd vfs \<Rightarrow> int \<times> stat_k option \<times> 'd vfs" where
  "vfs_sys_stat tbl path statbuf s =
    (if path = None \<or> \<not> statbuf then (-14, None, s)
     else
       case resolve_path tbl path s of (error, n, s) \<Rightarrow>
       if error < 0 then (error, None, s)
       else
         case refresh_metadata tbl (the n) s of (r, s) \<Rightarrow>
         if r < 0 then (r, None, release tbl (the n) s)
         else (0, Some (fill_stat (node s (the n))), release tbl (the n) s))"

definition vfs_sys_fstat :: "'d optab \<Rightarrow> int \<Rightarrow> bool \<Rightarrow> 'd vfs \<Rightarrow> int \<times> stat_k option \<times> 'd vfs" where
  "vfs_sys_fstat tbl fd statbuf s =
    (case get_fd_node s fd of None \<Rightarrow> (-9, None, s) | Some n \<Rightarrow>
     if \<not> statbuf then (-14, None, s)
     else
       case refresh_metadata tbl n s of (r, s) \<Rightarrow>
       if r < 0 then (r, None, s) else (0, Some (fill_stat (node s n)), s))"

definition vfs_sys_ftruncate :: "'d optab \<Rightarrow> int \<Rightarrow> int \<Rightarrow> 'd vfs \<Rightarrow> int \<times> 'd vfs" where
  "vfs_sys_ftruncate tbl fd len s =
    (case get_fd s fd of None \<Rightarrow> (-9, s) | Some d \<Rightarrow>
     case fd_node d of None \<Rightarrow> (-9, s) | Some n \<Rightarrow>
     let access = fd_flags d AND ACCESS_MODE in
     if len < 0 then (-22, s)
     else if access \<noteq> 1 \<and> access \<noteq> 2 then (-22, s)
     else if n_type (node s n) = DIRECTORY then (-21, s)
     else if n_type (node s n) \<noteq> REGULAR then (-22, s)
     else case op_of tbl o_truncate s n of None \<Rightarrow> (-95, s) | Some f \<Rightarrow> f n (nat len) s)"

definition vfs_sys_fsync :: "'d optab \<Rightarrow> int \<Rightarrow> 'd vfs \<Rightarrow> int \<times> 'd vfs" where
  "vfs_sys_fsync tbl fd s =
    (case get_fd_node s fd of None \<Rightarrow> (-9, s) | Some n \<Rightarrow>
     case op_of tbl o_fsync s n of None \<Rightarrow> (-22, s) | Some f \<Rightarrow> f n s)"

definition vfs_sys_fcntl :: "int \<Rightarrow> int \<Rightarrow> nat \<Rightarrow> 'd vfs \<Rightarrow> int \<times> 'd vfs" where
  "vfs_sys_fcntl fd cmd arg s =
    (case get_fd s fd of None \<Rightarrow> (-9, s) | Some d \<Rightarrow>
     if fd_node d = None then (-9, s)
     else if cmd = 3 then (int (fd_flags d AND (ACCESS_MODE OR SETTABLE_FLAGS)), s)
     else if cmd = 4 then
       (0, put_fd fd (d\<lparr>fd_flags := (fd_flags d AND (mask 32 XOR SETTABLE_FLAGS)) OR (arg AND SETTABLE_FLAGS)\<rparr>) s)
     else (-22, s))"

section \<open>The descriptor table\<close>

lemma grow_count_ge: "0 < c \<Longrightarrow> n \<le> grow_count n c \<and> c \<le> grow_count n c"
proof (induction n c rule: grow_count.induct)
  case (1 n c)
  show ?case
  proof (cases "c < n")
    case True
    then have "grow_count n c = grow_count n (c * 2)"
      using "1.prems" by (subst grow_count.simps) simp
    then show ?thesis
      using 1 True by simp
  next
    case False
    then have "grow_count n c = c"
      by (subst grow_count.simps) simp
    then show ?thesis
      using False by simp
  qed
qed

declare grow_count.simps [simp del]

lemma ensure_fd_capacity_ok:
  assumes "ensure_fd_capacity mem n table = (ok, table')" and "length table \<le> MAX_FDS"
  shows "(ok \<longrightarrow> (\<exists>k. table' = table @ replicate k empty_fd) \<and> min n MAX_FDS \<le> length table' \<and>
      length table' \<le> MAX_FDS \<and> table' \<noteq> []) \<and>
    (\<not> ok \<longrightarrow> \<not> mem \<and> table' = table)"
proof -
  let ?n = "min n MAX_FDS"
  define c where "c = grow_count ?n (if length table \<noteq> 0 then length table else INITIAL_FDS)"
  have c: "?n \<le> c" "length table \<le> c" "0 < c"
    using grow_count_ge [of "if length table \<noteq> 0 then length table else INITIAL_FDS" ?n]
    by (cases table; simp add: c_def INITIAL_FDS_def)+
  have "0 < MAX_FDS"
    by (simp add: MAX_FDS_def)
  show ?thesis
  proof (cases "table \<noteq> [] \<and> length table \<ge> ?n")
    case True
    then show ?thesis
      using assms by (auto simp: ensure_fd_capacity_def Let_def intro: exI [of _ 0])
  next
    case False
    then have "(ok, table') = (if \<not> mem then (False, table)
        else (True, table @ replicate (min c MAX_FDS - length table) empty_fd))"
      using assms(1) by (auto simp: ensure_fd_capacity_def Let_def c_def)
    then show ?thesis
      using c assms(2) \<open>0 < MAX_FDS\<close> by (cases mem) auto
  qed
qed

lemma first_free_Some:
  "first_free ds = Some i \<Longrightarrow> i < length ds \<and> fd_node (ds ! i) = None \<and> (\<forall>j<i. fd_node (ds ! j) \<noteq> None)"
proof (induction ds arbitrary: i)
  case (Cons d ds)
  then show ?case
    by (cases i) (auto simp: nth_Cons split: if_splits nat.splits)
qed simp

lemma first_free_None: "first_free ds = None \<longleftrightarrow> (\<forall>d\<in>set ds. fd_node d \<noteq> None)"
  by (induction ds) auto

lemma alloc_slot_ok:
  assumes "alloc_slot mem table = (r, table')" and "length table \<le> MAX_FDS"
  shows "case r of
      Inr i \<Rightarrow> i < length table' \<and> length table' \<le> MAX_FDS \<and> fd_node (table' ! i) = None \<and>
        (\<forall>j<i. fd_node (table' ! j) \<noteq> None) \<and> (\<exists>k. table' = table @ replicate k empty_fd)
    | Inl e \<Rightarrow> table' = table \<and>
        (e = -12 \<and> \<not> mem \<or> e = -24 \<and> length table = MAX_FDS \<and> (\<forall>d\<in>set table. fd_node d \<noteq> None))"
proof -
  obtain ok1 t1 where one: "(if table = [] then ensure_fd_capacity mem INITIAL_FDS table else (True, table)) = (ok1, t1)"
    by fastforce
  have t1: "(ok1 \<longrightarrow> (\<exists>k. t1 = table @ replicate k empty_fd) \<and> length t1 \<le> MAX_FDS \<and> t1 \<noteq> []) \<and>
      (\<not> ok1 \<longrightarrow> \<not> mem \<and> t1 = table)"
    using ensure_fd_capacity_ok [of mem INITIAL_FDS table ok1 t1] one assms(2)
    by (cases "table = []") (auto intro: exI [of _ 0])
  consider "\<not> ok1" | i where "ok1" "first_free t1 = Some i" | "ok1 \<and> first_free t1 = None"
    by fastforce
  then show ?thesis
  proof cases
    case 1
    then have "r = Inl (-12)" "table' = t1"
      using assms(1) by (simp_all add: alloc_slot_def one Let_def)
    then show ?thesis
      using 1 t1 by simp
  next
    case (2 i)
    then have "r = Inr i" "table' = t1"
      using assms(1) by (simp_all add: alloc_slot_def one Let_def)
    then show ?thesis
      using 2 t1 first_free_Some [of t1 i] by simp
  next
    case 3
    then obtain k where k: "t1 = table @ replicate k empty_fd" "length t1 \<le> MAX_FDS" "t1 \<noteq> []"
      using t1 by blast
    have used: "\<forall>d\<in>set t1. fd_node d \<noteq> None"
      using 3 by (simp add: first_free_None)
    then have same: "t1 = table"
      using k(1) by (cases k) (auto simp: empty_fd_def)
    obtain ok2 t2 where two: "ensure_fd_capacity mem (Suc (length t1)) t1 = (ok2, t2)"
      by fastforce
    note t2 = ensure_fd_capacity_ok [OF two k(2)]
    show ?thesis
    proof (cases "length t1 < MAX_FDS \<and> ok2")
      case True
      then obtain m where m: "t2 = t1 @ replicate m empty_fd" "length t1 < length t2" "length t2 \<le> MAX_FDS"
        using t2 by auto
      then have "r = Inr (length t1)" "table' = t2"
        using assms(1) 3 True by (simp_all add: alloc_slot_def one two Let_def)
      then show ?thesis
        using m used same by (auto simp: nth_append empty_fd_def)
    next
      case False
      then have "(r, table') = (if length t1 < MAX_FDS then (Inl (-12), t2) else (Inl (-24), t1))"
        using assms(1) 3 by (cases "length t1 < MAX_FDS") (simp_all add: alloc_slot_def one two Let_def)
      then show ?thesis
        using False t2 used same k(2) by (cases "length t1 < MAX_FDS") auto
    qed
  qed
qed

section \<open>Reference accounting\<close>

definition refs_in :: "nid \<Rightarrow> file_descriptor list \<Rightarrow> nat" where
  "refs_in n table = length (filter (\<lambda>d. fd_node d = Some n) table)"

definition fd_refs :: "'d vfs \<Rightarrow> nid \<Rightarrow> nat" where
  "fd_refs s n = (\<Sum>t<length (tables s). refs_in n (tables s ! t))"

text \<open>With \<open>ext n\<close> references to \<open>n\<close> held outside the descriptor tables, the count of every managed
  node is what the tables and the others hold, and nothing that is held is gone.\<close>

definition ref_at :: "int \<Rightarrow> 'd vfs \<Rightarrow> nid \<Rightarrow> bool" where
  "ref_at e s n \<longleftrightarrow>
     (case nodes s n of
        None \<Rightarrow> int (fd_refs s n) + e \<le> 0
      | Some v \<Rightarrow> n_managed v \<longrightarrow>
          int (n_references v) = int (fd_refs s n) + e \<and> 0 < n_references v \<and> n_references v < 2 ^ 32)"

definition ref_ok :: "(nid \<Rightarrow> int) \<Rightarrow> 'd vfs \<Rightarrow> bool" where
  "ref_ok ext s \<longleftrightarrow> (\<forall>n. ref_at (ext n) s n)"

definition tables_ok :: "'d vfs \<Rightarrow> bool" where
  "tables_ok s \<longleftrightarrow>
     (\<forall>table\<in>set (tables s). length table \<le> MAX_FDS) \<and> (\<forall>t. cur s = Some t \<longrightarrow> t < length (tables s))"

text \<open>What a driver callback may not touch: the tables, and the references of managed nodes.\<close>

definition node_refs :: "vfs_node \<Rightarrow> nat option" where
  "node_refs v = (if n_managed v then Some (n_references v) else None)"

definition keeps :: "(nid \<Rightarrow> vfs_node option) \<Rightarrow> 'd vfs \<Rightarrow> 'd vfs \<Rightarrow> bool" where
  "keeps ns s s' \<longleftrightarrow>
     tables s' = tables s \<and> cur s' = cur s \<and> (\<forall>n. map_option node_refs (nodes s' n) = map_option node_refs (ns n))"

lemma refs_in_update:
  "i < length table \<Longrightarrow>
    refs_in n (table[i := d]) + of_bool (fd_node (table ! i) = Some n) = refs_in n table + of_bool (fd_node d = Some n)"
proof (induction table arbitrary: i)
  case (Cons x table)
  then show ?case
    by (cases i) (auto simp: refs_in_def)
qed simp

lemma refs_in_extend [simp]: "refs_in n (table @ replicate k empty_fd) = refs_in n table"
  by (simp add: refs_in_def empty_fd_def filter_replicate)

lemma refs_in_nodes: "(\<forall>d\<in>set table. fd_node d = None) \<Longrightarrow> refs_in n table = 0"
  by (auto simp: refs_in_def filter_empty_conv)

lemma fd_refs_table:
  assumes "t < length (tables s)"
  shows "fd_refs (s\<lparr>tables := (tables s)[t := table]\<rparr>) n + refs_in n (tables s ! t) = fd_refs s n + refs_in n table"
  using sum_list_update [OF assms, of "\<lambda>_. refs_in n"] by (simp add: fd_refs_def)

lemma fd_refs_put:
  assumes "t < length (tables s)" and "i < length (tables s ! t)"
  shows "int (fd_refs (s\<lparr>tables := (tables s)[t := (tables s ! t)[i := d]]\<rparr>) n) =
    int (fd_refs s n) + of_bool (fd_node d = Some n) - of_bool (fd_node (tables s ! t ! i) = Some n)"
  using fd_refs_table [OF assms(1), of "(tables s ! t)[i := d]" n] refs_in_update [OF assms(2), of n d]
  by (auto simp: of_bool_def split: if_splits)

lemma fd_refs_cong: "tables s' = tables s \<Longrightarrow> fd_refs s' n = fd_refs s n"
  by (simp add: fd_refs_def)

lemma fd_refs_pos:
  assumes "t < length (tables s)" and "i < length (tables s ! t)" and "fd_node (tables s ! t ! i) = Some n"
  shows "0 < fd_refs s n"
proof -
  have "0 < refs_in n (tables s ! t)"
    using assms(2,3) by (auto simp: refs_in_def filter_empty_conv intro: nth_mem)
  then show ?thesis
    using assms(1) sum.remove [of "{..<length (tables s)}" t "\<lambda>t. refs_in n (tables s ! t)"] by (simp add: fd_refs_def)
qed

lemma ref_at_cong:
  assumes "map_option node_refs (nodes s' n) = map_option node_refs (nodes s n)" and "int (fd_refs s' n) + e' = int (fd_refs s n) + e"
  shows "ref_at e' s' n = ref_at e s n"
  using assms by (cases "nodes s n"; cases "nodes s' n") (auto simp: ref_at_def node_refs_def split: if_splits)

lemma ref_ok_cur: "ref_ok ext (s\<lparr>cur := t\<rparr>) = ref_ok ext s"
proof -
  have "ref_at e (s\<lparr>cur := t\<rparr>) n = ref_at e s n" for e n
    by (rule ref_at_cong) (simp_all add: fd_refs_def)
  then show ?thesis
    by (simp add: ref_ok_def)
qed

lemma ref_ok_keeps:
  assumes "ref_ok ext s" and "keeps (nodes s) s s'"
  shows "ref_ok ext s'"
  unfolding ref_ok_def
proof
  fix n
  have "ref_at (ext n) s' n = ref_at (ext n) s n"
    using assms(2) by (intro ref_at_cong) (auto simp: keeps_def fd_refs_def)
  then show "ref_at (ext n) s' n"
    using assms(1) by (simp add: ref_ok_def)
qed

text \<open>Changing one entry of one table, and the balance of what it held and holds.\<close>

lemma ref_ok_put:
  assumes "ref_ok ext s" and "t < length (tables s)" and "i < length (tables s ! t)"
    and "\<And>n. ext' n = ext n - of_bool (fd_node d = Some n) + of_bool (fd_node (tables s ! t ! i) = Some n)"
  shows "ref_ok ext' (s\<lparr>tables := (tables s)[t := (tables s ! t)[i := d]]\<rparr>)" (is "ref_ok _ ?s")
  unfolding ref_ok_def
proof
  fix n
  have "ref_at (ext' n) ?s n = ref_at (ext n) s n"
    by (rule ref_at_cong) (simp_all only: fd_refs_put [OF assms(2,3)] assms(4), simp_all)
  then show "ref_at (ext' n) ?s n"
    using assms(1) by (simp add: ref_ok_def)
qed

lemma ref_ok_extend:
  assumes "ref_ok ext s" and "t < length (tables s)"
  shows "ref_ok ext (s\<lparr>tables := (tables s)[t := tables s ! t @ replicate k empty_fd]\<rparr>)" (is "ref_ok _ ?s")
  unfolding ref_ok_def
proof
  fix n
  have "ref_at (ext n) ?s n = ref_at (ext n) s n"
    using fd_refs_table [OF assms(2), of "tables s ! t @ replicate k empty_fd" n] by (intro ref_at_cong) simp_all
  then show "ref_at (ext n) ?s n"
    using assms(1) by (simp add: ref_ok_def)
qed

lemma retain_tables [simp]: "tables (retain n s) = tables s" "cur (retain n s) = cur s"
  by (simp_all add: retain_def upd_node_def)

lemma ref_ok_retain:
  assumes "ref_ok (ext(n := ext n - 1)) s" and "nodes s n \<noteq> None" and "int (fd_refs s n) + ext n < 2 ^ 32"
  shows "ref_ok ext (retain n s)"
  unfolding ref_ok_def
proof
  fix m
  have at: "ref_at ((ext(n := ext n - 1)) m) s m"
    using assms(1) by (simp add: ref_ok_def)
  have refs: "fd_refs (retain n s) k = fd_refs s k" for k
    by (simp add: fd_refs_def)
  show "ref_at (ext m) (retain n s) m"
  proof (cases "m = n")
    case True
    obtain v where v: "nodes s n = Some v"
      using assms(2) by auto
    have "wadd 32 (n_references v) 1 = n_references v + 1" if "n_managed v"
      using at assms(3) that v True by (intro wadd_small) (simp add: ref_at_def)
    then have "nodes (retain n s) n = Some (if n_managed v then v\<lparr>n_references := n_references v + 1\<rparr> else v)"
      using v by (simp add: retain_def node_def upd_node_def)
    then show ?thesis
      using at v True assms(3) by (auto simp: ref_at_def refs)
  next
    case False
    then have "nodes (retain n s) m = nodes s m"
      by (simp add: retain_def upd_node_def)
    then show ?thesis
      using at False by (cases "nodes s m") (simp_all add: ref_at_def refs)
  qed
qed

text \<open>Enough room in the 32-bit counters for every descriptor of every thread.\<close>

definition room :: "(nid \<Rightarrow> int) \<Rightarrow> 'd vfs \<Rightarrow> bool" where
  "room ext s \<longleftrightarrow> (\<forall>n. 0 \<le> ext n \<and> int (MAX_FDS * length (tables s)) + ext n + 1 < 2 ^ 32)"

text \<open>The calls that change descriptor tables, by whichever thread runs.\<close>

inductive fd_step :: "'d optab \<Rightarrow> 'd vfs \<Rightarrow> 'd vfs \<Rightarrow> bool" for tbl where
  switch: "t < length (tables s) \<Longrightarrow> fd_step tbl s (s\<lparr>cur := Some t\<rparr>)"
| alloc: "nodes s n \<noteq> None \<Longrightarrow> alloc_fd mem (Some n) s = (r, s') \<Longrightarrow> fd_step tbl s s'"
| close: "vfs_sys_close tbl fd s = (r, s') \<Longrightarrow> fd_step tbl s s'"
| copy: "src < length (tables s) \<Longrightarrow> dst < length (tables s) \<Longrightarrow>
    copy_fds tbl mem (Some src) (Some dst) s = (r, s') \<Longrightarrow> fd_step tbl s s'"
| exit: "t < length (tables s) \<Longrightarrow> fd_step tbl s (close_all tbl t s)"

section \<open>Drivers\<close>

text \<open>What the switch relies on in the function tables of the file systems and devices: the open and
  close callbacks do not touch descriptor tables or the reference counts of managed nodes, and the
  finalizer of a managed node frees that node and no other.\<close>

locale vfs_driver =
  fixes tbl :: "'d optab"
  assumes open_keeps: "o_open (tbl k) = Some f \<Longrightarrow> keeps (nodes s) s (f n s)"
    and close_keeps: "o_close (tbl k) = Some f \<Longrightarrow> keeps (nodes s) s (f n s)"
    and destroy_frees: "keeps ((nodes s)(n := None)) s (o_destroy (tbl k) n s)"
begin

lemma release_tables: "tables (release tbl n s) = tables s" "cur (release tbl n s) = cur s"
proof -
  let ?s = "upd_node n (\<lambda>v. v\<lparr>n_references := wsub 32 (n_references v) 1\<rparr>) s"
  have "tables (o_destroy (tbl k) n ?s) = tables s" "cur (o_destroy (tbl k) n ?s) = cur s" for k
    using destroy_frees [of ?s n k] by (simp_all add: keeps_def upd_node_def)
  then show "tables (release tbl n s) = tables s" "cur (release tbl n s) = cur s"
    by (simp_all add: release_def Let_def upd_node_def)
qed

lemma release_other:
  assumes "m \<noteq> n"
  shows "map_option node_refs (nodes (release tbl n s) m) = map_option node_refs (nodes s m)"
proof -
  let ?s = "upd_node n (\<lambda>v. v\<lparr>n_references := wsub 32 (n_references v) 1\<rparr>) s"
  have "map_option node_refs (nodes (o_destroy (tbl k) n ?s) m) = map_option node_refs (nodes s m)" for k
    using destroy_frees [of ?s n k] assms by (simp add: keeps_def upd_node_def)
  then show ?thesis
    using assms by (simp add: release_def Let_def upd_node_def)
qed

lemma ref_ok_release:
  assumes "ref_ok (ext(n := ext n + 1)) s" and "0 \<le> ext n"
  shows "ref_ok ext (release tbl n s)"
  unfolding ref_ok_def
proof
  fix m
  have refs: "fd_refs (release tbl n s) k = fd_refs s k" for k
    by (simp add: fd_refs_def release_tables)
  have at: "ref_at ((ext(n := ext n + 1)) m) s m"
    using assms(1) by (simp add: ref_ok_def)
  show "ref_at (ext m) (release tbl n s) m"
  proof (cases "m = n")
    case False
    then have "ref_at (ext m) (release tbl n s) m = ref_at (ext m) s m"
      using release_other [of m n s] refs by (intro ref_at_cong) simp_all
    then show ?thesis
      using at False by simp
  next
    case True
    obtain v where v: "nodes s n = Some v"
      using at True assms(2) by (cases "nodes s n") (auto simp: ref_at_def)
    let ?s = "upd_node n (\<lambda>v. v\<lparr>n_references := wsub 32 (n_references v) 1\<rparr>) s"
    have dead: "nodes (o_destroy (tbl k) n ?s) n = None" for k
      using destroy_frees [of ?s n k] by (auto simp: keeps_def dest!: spec [of _ n])
    show ?thesis
    proof (cases "n_managed v")
      case False
      then show ?thesis
        using v True by (simp add: ref_at_def release_def node_def)
    next
      case m: True
      have r: "int (n_references v) = int (fd_refs s n) + ext n + 1" "n_references v < 2 ^ 32"
        using at m v True by (auto simp: ref_at_def)
      then have "wsub 32 (n_references v) 1 = n_references v - 1"
        using assms(2) by (intro wsub_small) auto
      then have "nodes (release tbl n s) n =
          (if n_references v = 1 then None else Some (v\<lparr>n_references := n_references v - 1\<rparr>))"
        using m v dead by (simp add: release_def node_def Let_def) (simp add: upd_node_def)
      then show ?thesis
        using m True r assms(2) by (auto simp: ref_at_def refs)
    qed
  qed
qed

lemma ref_ok_close_reference:
  assumes "ref_ok (ext(n := ext n + 1)) s" and "0 \<le> ext n"
  shows "ref_ok ext (close_reference tbl n s)"
proof -
  define s1 where "s1 = (case op_of tbl o_close s n of None \<Rightarrow> s | Some f \<Rightarrow> f n s)"
  have keeps: "keeps (nodes s) s s1"
    using close_keeps by (auto simp: s1_def op_of_def keeps_def Option.bind_eq_Some_conv split: option.splits)
  have ok: "ref_ok (ext(n := ext n + 1)) s1"
    using ref_ok_keeps [OF assms(1) keeps] .
  show ?thesis
  proof (cases "n_managed (node s n)")
    case True
    then show ?thesis
      using ref_ok_release [OF ok assms(2)] by (simp add: close_reference_def s1_def [symmetric])
  next
    case False
    have "ref_at (ext m) s1 m" for m
    proof (cases "m = n")
      case True
      have "nodes s n \<noteq> None"
        using assms by (auto simp: ref_ok_def ref_at_def dest!: spec [of _ n] split: option.splits)
      moreover have "map_option node_refs (nodes s1 n) = map_option node_refs (nodes s n)"
        using keeps by (simp add: keeps_def)
      ultimately show ?thesis
        using False True by (auto simp: ref_at_def node_def node_refs_def split: if_splits)
    next
      case False
      then show ?thesis
        using ok by (auto simp: ref_ok_def dest!: spec [of _ m])
    qed
    then show ?thesis
      using False by (simp add: close_reference_def s1_def [symmetric] ref_ok_def)
  qed
qed

lemma close_reference_tables: "tables (close_reference tbl n s) = tables s" "cur (close_reference tbl n s) = cur s"
proof -
  define s1 where "s1 = (case op_of tbl o_close s n of None \<Rightarrow> s | Some f \<Rightarrow> f n s)"
  have "keeps (nodes s) s s1"
    using close_keeps by (auto simp: s1_def op_of_def keeps_def Option.bind_eq_Some_conv split: option.splits)
  then show "tables (close_reference tbl n s) = tables s" "cur (close_reference tbl n s) = cur s"
    by (simp_all add: close_reference_def s1_def [symmetric] keeps_def release_tables)
qed

lemma ref_ok_open_reference:
  assumes "ref_ok (ext(n := ext n - 1)) s" and "nodes s n \<noteq> None" and "int (fd_refs s n) + ext n < 2 ^ 32"
  shows "ref_ok ext (open_reference tbl n s)" and "tables (open_reference tbl n s) = tables s"
    and "cur (open_reference tbl n s) = cur s"
proof -
  have "keeps (nodes (retain n s)) (retain n s) (open_reference tbl n s)"
    using open_keeps
    by (auto simp: open_reference_def op_of_def keeps_def Option.bind_eq_Some_conv Let_def split: option.splits)
  then show "ref_ok ext (open_reference tbl n s)" "tables (open_reference tbl n s) = tables s"
    "cur (open_reference tbl n s) = cur s"
    using ref_ok_keeps [OF ref_ok_retain [OF assms]] by (auto simp: keeps_def)
qed

lemma close_descriptor_tables:
  "tables (close_descriptor tbl t i s) = (tables s)[t := (tables s ! t)[i := empty_fd]]"
  "cur (close_descriptor tbl t i s) = cur s"
  by (simp_all add: close_descriptor_def Let_def close_reference_tables split: option.splits)

lemma ref_ok_close_descriptor:
  assumes "ref_ok ext s" and "\<And>n. 0 \<le> ext n" and "t < length (tables s)" and "i < length (tables s ! t)"
  shows "ref_ok ext (close_descriptor tbl t i s)"
proof (cases "fd_node (tables s ! t ! i)")
  case None
  then have "ref_ok ext (s\<lparr>tables := (tables s)[t := (tables s ! t)[i := empty_fd]]\<rparr>)"
    by (intro ref_ok_put [OF assms(1,3,4)]) (simp add: empty_fd_def)
  then show ?thesis
    using None by (simp add: close_descriptor_def)
next
  case (Some n)
  then have "ref_ok (ext(n := ext n + 1)) (s\<lparr>tables := (tables s)[t := (tables s ! t)[i := empty_fd]]\<rparr>)"
    by (intro ref_ok_put [OF assms(1,3,4)]) (simp add: empty_fd_def)
  from ref_ok_close_reference [OF this assms(2)] show ?thesis
    using Some by (simp add: close_descriptor_def)
qed

lemma ref_ok_close_list:
  "ref_ok ext s \<Longrightarrow> (\<And>n. 0 \<le> ext n) \<Longrightarrow> t < length (tables s) \<Longrightarrow> \<forall>i\<in>set is. i < length (tables s ! t) \<Longrightarrow>
    ref_ok ext (fold (close_descriptor tbl t) is s)"
proof (induction "is" arbitrary: s)
  case (Cons i "is")
  then show ?case
    by (simp add: ref_ok_close_descriptor close_descriptor_tables)
qed simp

lemma close_list_tables:
  "tables_ok s \<Longrightarrow> t < length (tables s) \<Longrightarrow>
    tables_ok (fold (close_descriptor tbl t) is s) \<and>
    length (tables (fold (close_descriptor tbl t) is s)) = length (tables s)"
proof (induction "is" arbitrary: s)
  case (Cons i "is")
  have "tables_ok (close_descriptor tbl t i s)"
    using Cons.prems by (auto simp: tables_ok_def close_descriptor_tables dest!: subsetD [OF set_update_subset_insert])
  then show ?case
    using Cons.IH [of "close_descriptor tbl t i s"] Cons.prems by (simp add: close_descriptor_tables)
qed simp

lemma fd_refs_bound:
  assumes "tables_ok s"
  shows "fd_refs s n \<le> MAX_FDS * length (tables s)"
proof -
  have "refs_in n (tables s ! t) \<le> MAX_FDS" if "t < length (tables s)" for t
    using assms that le_trans [OF length_filter_le] unfolding tables_ok_def refs_in_def by (metis nth_mem)
  then have "fd_refs s n \<le> (\<Sum>t<length (tables s). MAX_FDS)"
    unfolding fd_refs_def by (intro sum_mono) auto
  then show ?thesis
    by (simp add: mult.commute)
qed

lemma roomD: "room ext s \<Longrightarrow> tables_ok s \<Longrightarrow> int (fd_refs s n) + ext n + 1 < 2 ^ 32"
  using fd_refs_bound [of s n] unfolding room_def by (smt (verit) of_nat_mono)

lemma ref_ok_live: "ref_ok ext s \<Longrightarrow> 0 < int (fd_refs s n) + ext n \<Longrightarrow> nodes s n \<noteq> None"
  by (cases "nodes s n") (auto simp: ref_ok_def ref_at_def dest!: spec [of _ n])

lemma copy_fd_loop_ok:
  "ref_ok ext s \<Longrightarrow> tables_ok s \<Longrightarrow> room ext s \<Longrightarrow> src < length (tables s) \<Longrightarrow> dst < length (tables s) \<Longrightarrow> src \<noteq> dst \<Longrightarrow>
    \<forall>i\<in>set is. i < length (tables s ! src) \<and> i < length (tables s ! dst) \<and> fd_node (tables s ! dst ! i) = None \<Longrightarrow>
    distinct is \<Longrightarrow>
    ref_ok ext (copy_fd_loop tbl src dst is s) \<and> tables_ok (copy_fd_loop tbl src dst is s) \<and>
    length (tables (copy_fd_loop tbl src dst is s)) = length (tables s)"
proof (induction "is" arbitrary: s)
  case (Cons i "is")
  define d where "d = tables s ! src ! i"
  define s1 where "s1 = s\<lparr>tables := (tables s)[dst := (tables s ! dst)[i := d]]\<rparr>"
  define s2 where "s2 = (case fd_node d of None \<Rightarrow> s1 | Some n \<Rightarrow> open_reference tbl n s1)"
  have i: "i < length (tables s ! src)" "i < length (tables s ! dst)" "fd_node (tables s ! dst ! i) = None"
    using Cons.prems(7) by auto
  have t1: "tables_ok s1" "length (tables s1) = length (tables s)" "room ext s1"
    using Cons.prems by (auto simp: s1_def tables_ok_def room_def dest!: subsetD [OF set_update_subset_insert])
  have s2: "ref_ok ext s2 \<and> tables s2 = tables s1 \<and> cur s2 = cur s1"
  proof (cases "fd_node d")
    case None
    then have "ref_ok ext s1"
      unfolding s1_def using i(3) by (intro ref_ok_put [OF Cons.prems(1,5) i(2)]) simp
    then show ?thesis
      using None by (simp add: s2_def)
  next
    case (Some n)
    then have "ref_ok (ext(n := ext n - 1)) s1"
      unfolding s1_def using i(3) by (intro ref_ok_put [OF Cons.prems(1,5) i(2)]) simp
    moreover have "0 < int (fd_refs s n) + ext n"
      using fd_refs_pos [OF Cons.prems(4) i(1), of n] Some Cons.prems(3)
      by (intro add_pos_nonneg) (auto simp: d_def room_def)
    then have "nodes s1 n \<noteq> None"
      using ref_ok_live [OF Cons.prems(1)] by (simp add: s1_def)
    ultimately show ?thesis
      using ref_ok_open_reference [of ext n s1] roomD [OF t1(3,1), of n] Some by (simp add: s2_def)
  qed
  have step: "copy_fd_loop tbl src dst (i # is) s = copy_fd_loop tbl src dst is s2"
    unfolding s2_def s1_def d_def by (simp add: Let_def)
  have "tables_ok s2" "room ext s2" "length (tables s2) = length (tables s)"
    using t1 s2 by (simp_all add: tables_ok_def room_def)
  moreover have "\<forall>j\<in>set is. j < length (tables s2 ! src) \<and> j < length (tables s2 ! dst) \<and> fd_node (tables s2 ! dst ! j) = None"
    using Cons.prems s2 by (auto simp: s1_def nth_list_update)
  ultimately show ?case
    unfolding step using Cons.IH [of s2] Cons.prems(4,5,6,8) s2 by simp
qed simp

lemma ref_ok_copy_fds:
  assumes "ref_ok ext s" and "tables_ok s" and "room ext s" and "src < length (tables s)" and "dst < length (tables s)"
    and "copy_fds tbl mem (Some src) (Some dst) s = (r, s')"
  shows "ref_ok ext s' \<and> tables_ok s' \<and> length (tables s') = length (tables s)"
proof -
  obtain ok table where en: "ensure_fd_capacity mem (length (tables s ! src)) (tables s ! dst) = (ok, table)"
    by fastforce
  have len: "length (tables s ! dst) \<le> MAX_FDS" "length (tables s ! src) \<le> MAX_FDS"
    using assms(2,4,5) by (auto simp: tables_ok_def)
  note grown = ensure_fd_capacity_ok [OF en len(1)]
  let ?s = "s\<lparr>tables := (tables s)[dst := table]\<rparr>"
  consider "s' = s" | "s' = copy_fd_loop tbl src dst [0..<length (tables s ! src)] ?s" "ok" "src \<noteq> dst"
      "\<forall>d\<in>set (tables s ! dst). fd_node d = None"
    using assms(6) by (auto simp: copy_fds_def en Let_def split: if_splits)
  then show ?thesis
  proof cases
    case 2
    then obtain k where k: "table = tables s ! dst @ replicate k empty_fd" "length (tables s ! src) \<le> length table" "length table \<le> MAX_FDS"
      using grown len(2) by auto
    have "fd_node d = None" if "d \<in> set table" for d
      using 2(4) that by (auto simp: k(1) empty_fd_def)
    then show ?thesis
      using copy_fd_loop_ok [of ext ?s src dst "[0..<length (tables s ! src)]"] 2 k(2,3) assms(1-5)
        ref_ok_extend [OF assms(1,5), of k]
      by (simp add: k(1) [symmetric] tables_ok_def room_def) (auto dest!: subsetD [OF set_update_subset_insert])
  qed (use assms in simp)
qed

lemma ref_ok_alloc_fd:
  assumes "ref_ok ext s" and "tables_ok s" and "room ext s" and "nodes s n \<noteq> None" and "alloc_fd mem (Some n) s = (r, s')"
  shows "ref_ok ext s' \<and> tables_ok s' \<and> length (tables s') = length (tables s)"
proof (cases "cur s")
  case None
  then show ?thesis
    using assms by (simp add: alloc_fd_def)
next
  case (Some t)
  then have t: "t < length (tables s)" and len: "length (tables s ! t) \<le> MAX_FDS"
    using assms(2) by (auto simp: tables_ok_def)
  obtain slot table where al: "alloc_slot mem (tables s ! t) = (slot, table)"
    by fastforce
  note ok = alloc_slot_ok [OF al len]
  show ?thesis
  proof (cases slot)
    case (Inl e)
    then show ?thesis
      using assms ok Some al by (simp add: alloc_fd_def)
  next
    case (Inr i)
    then obtain k where k: "table = tables s ! t @ replicate k empty_fd" "i < length table" "length table \<le> MAX_FDS"
        "fd_node (table ! i) = None"
      using ok by auto
    define s1 where "s1 = s\<lparr>tables := (tables s)[t := table]\<rparr>"
    define d where "d = \<lparr>fd_node = Some n, fd_offset = 0, fd_flags = if n_type (node s n) = SOCKET then 2 else 0\<rparr>"
    have s1: "ref_ok ext s1" "tables_ok s1" "room ext s1" "nodes s1 n \<noteq> None"
      using ref_ok_extend [OF assms(1) t, of k] assms(2,3,4) k(1,3)
      by (auto simp: s1_def tables_ok_def room_def dest!: subsetD [OF set_update_subset_insert])
    have s': "s' = (retain n s1)\<lparr>tables := (tables (retain n s1))[t := (tables (retain n s1) ! t)[i := d]]\<rparr>"
      using assms(5) Some al Inr by (simp add: alloc_fd_def s1_def d_def put_fd_def Let_def)
    have "ref_ok (ext(n := ext n + 1)) (retain n s1)"
      using s1 roomD [OF s1(3,2), of n] by (intro ref_ok_retain) simp_all
    then have "ref_ok ext s'"
      unfolding s' using t k by (intro ref_ok_put) (auto simp: s1_def d_def)
    moreover have "tables_ok s' \<and> length (tables s') = length (tables s)"
      using assms(2) k(3) t by (auto simp: s' s1_def tables_ok_def dest!: subsetD [OF set_update_subset_insert])
    ultimately show ?thesis
      by simp
  qed
qed

lemma fd_step_refs:
  assumes "fd_step tbl s s'" and "ref_ok ext s" and "tables_ok s" and "room ext s"
  shows "ref_ok ext s' \<and> tables_ok s' \<and> length (tables s') = length (tables s)"
  using assms
proof cases
  case (switch t)
  then show ?thesis
    using assms by (auto simp: tables_ok_def ref_ok_cur)
next
  case (close fd r)
  show ?thesis
  proof (cases "s' = s")
    case False
    then obtain t where t: "cur s = Some t" "s' = close_descriptor tbl t (nat fd) s" "nat fd < length (tables s ! t)"
      using close by (auto simp: vfs_sys_close_def get_fd_def split: option.splits if_splits)
    then have "t < length (tables s)"
      using assms(3) by (simp add: tables_ok_def)
    then show ?thesis
      using t assms(2-4) ref_ok_close_descriptor [of ext s t "nat fd"] close_list_tables [of s t "[nat fd]"]
      by (simp add: room_def)
  qed (use assms in simp)
next
  case (exit t)
  then show ?thesis
    using assms ref_ok_close_list [of ext s t] close_list_tables [of s t] by (simp add: close_all_def room_def)
qed (use assms ref_ok_alloc_fd ref_ok_copy_fds in blast)+

lemma fd_steps_refs:
  assumes "(fd_step tbl)\<^sup>*\<^sup>* s s'" and "ref_ok ext s" and "tables_ok s" and "room ext s"
  shows "ref_ok ext s' \<and> tables_ok s' \<and> length (tables s') = length (tables s)"
  using assms
proof (induction rule: rtranclp_induct)
  case (step t u)
  then show ?case
    using fd_step_refs [of t u ext] by (simp add: room_def)
qed simp

end

section \<open>Properties of the switch\<close>

lemma get_fd_node_table: "cur s = Some t \<Longrightarrow>
    get_fd_node s fd = (if fd < 0 \<or> nat fd \<ge> length (tables s ! t) then None else fd_node (tables s ! t ! nat fd))"
  by (simp add: get_fd_node_def get_fd_def)

text \<open>C7. \<open>alloc_fd\<close> gives the lowest free descriptor: a result \<open>r\<close> is below \<open>MAX_FDS\<close>, was free, every
  lower descriptor is taken, it now names the node and no other descriptor changed; a refusal
  changes nothing, and is \<open>-24\<close> only when all 32 descriptors are taken and \<open>-12\<close> only when memory
  for the table ran out.\<close>

theorem alloc_fd_lowest:
  assumes "tables_ok s" and "cur s = Some t" and "alloc_fd mem (Some n) s = (r, s')"
  shows "if 0 \<le> r then r < int MAX_FDS \<and> get_fd_node s r = None \<and> get_fd_node s' r = Some n \<and>
        (\<forall>j\<in>{0..<r}. get_fd_node s j \<noteq> None) \<and> (\<forall>j. j \<noteq> r \<longrightarrow> get_fd_node s' j = get_fd_node s j)
    else s' = s \<and> (r = -12 \<and> \<not> mem \<or> r = -24 \<and> (\<forall>j\<in>{0..<int MAX_FDS}. get_fd_node s j \<noteq> None))"
proof -
  have t: "t < length (tables s)" and len: "length (tables s ! t) \<le> MAX_FDS"
    using assms(1,2) by (auto simp: tables_ok_def)
  obtain slot table where al: "alloc_slot mem (tables s ! t) = (slot, table)"
    by fastforce
  note ok = alloc_slot_ok [OF al len]
  show ?thesis
  proof (cases slot)
    case (Inl e)
    then have "s' = s" "r = e"
      using assms(2,3) al ok by (simp_all add: alloc_fd_def)
    then show ?thesis
      using ok Inl assms(2) by (auto simp: get_fd_node_table)
  next
    case (Inr i)
    then obtain k where k: "table = tables s ! t @ replicate k empty_fd" "i < length table" "length table \<le> MAX_FDS"
        "fd_node (table ! i) = None" "\<forall>j<i. fd_node (table ! j) \<noteq> None"
      using ok by auto
    have old: "get_fd_node s j = (if j < 0 \<or> nat j \<ge> length table then None else fd_node (table ! nat j))" for j
      using assms(2) by (auto simp: get_fd_node_table k(1) nth_append empty_fd_def)
    have r: "r = int i" and cur: "cur s' = Some t"
      and tab: "tables s' ! t = table[i := \<lparr>fd_node = Some n, fd_offset = 0, fd_flags = if n_type (node s n) = SOCKET then 2 else 0\<rparr>]"
      using assms(2,3) al Inr t by (auto simp: alloc_fd_def Let_def put_fd_def)
    have new: "get_fd_node s' j = (if j = r then Some n else get_fd_node s j)" for j
      using k(2) by (auto simp: old get_fd_node_table [OF cur] tab r nth_list_update)
    have "\<forall>j\<in>{0..<r}. get_fd_node s j \<noteq> None"
    proof
      fix j assume "j \<in> {0..<r}"
      then have "nat j < i" "nat j < length table" "\<not> j < 0"
        using k(2) by (auto simp: r)
      then show "get_fd_node s j \<noteq> None"
        using k(5) by (simp add: old)
    qed
    then show ?thesis
      using k by (simp add: new) (simp add: r old)
  qed
qed

text \<open>A state for the examples: one thread, one regular file of 100 bytes open read-only as descriptor 0.\<close>

definition example_file :: vfs_node where
  "example_file = \<lparr>n_name = ''f'', n_hash = 0, n_inode = 7, n_length = 100, n_type = REGULAR, n_uid = 0, n_gid = 0,
    n_mask = 0, n_flags = 0, n_ops = None, n_references = 1, n_managed = False\<rparr>"

definition example_vfs :: "unit vfs" where
  "example_vfs = \<lparr>nodes = [0 \<mapsto> example_file],
    tables = [(replicate 8 empty_fd)[0 := \<lparr>fd_node = Some 0, fd_offset = 10, fd_flags = 0\<rparr>]],
    cur = Some 0, g_root = None, drv = ()\<rparr>"

definition no_ops :: "unit optab" where
  "no_ops = (\<lambda>_. \<lparr>o_read = None, o_write = None, o_truncate = None, o_open = None, o_close = None, o_ioctl = None,
    o_readdir = None, o_lookup = None, o_fsync = None, o_poll = None, o_refresh_metadata = None, o_append = None,
    o_destroy = delete_node\<rparr>)"

lemma example_vfs_ok: "tables_ok example_vfs" "cur example_vfs = Some 0"
  by (simp_all add: example_vfs_def tables_ok_def MAX_FDS_def)

theorem alloc_fd_lowest_witness:
  "\<exists>r s'. alloc_fd True (Some 0) example_vfs = (r, s') \<and> r = 1 \<and> get_fd_node s' 1 = Some 0 \<and> get_fd_node s' 0 = Some 0"
proof -
  obtain r s' where run: "alloc_fd True (Some 0) example_vfs = (r, s')"
    by fastforce
  have "fst (alloc_fd True (Some 0) example_vfs) = 1" "get_fd_node example_vfs 0 = Some 0"
    by code_simp+
  then show ?thesis
    using alloc_fd_lowest [OF example_vfs_ok run] run by (auto simp: run)
qed

text \<open>The base a seek starts from.\<close>

definition seek_base :: "'d vfs \<Rightarrow> nid \<Rightarrow> file_descriptor \<Rightarrow> int \<Rightarrow> int" where
  "seek_base s n d whence = (if whence = 1 then int (fd_offset d) else if whence = 2 then int (n_length (node s n)) else 0)"

text \<open>C8. \<open>lseek\<close> computes the exact target: it moves the offset to \<open>base + offset\<close> and returns it when
  that lies between 0 and \<open>LONG_MAX\<close>, returns \<open>-22\<close> when it is negative and \<open>-75\<close> when it is too large,
  for every 64-bit offset (\<open>LONG_MIN\<close> included) and whatever the size of the file; on an error the
  offset stays.\<close>

theorem lseek_exact:
  assumes "get_fd s fd = Some d" and "fd_node d = Some n" and "whence \<in> {0, 1, 2}"
    and "refresh_metadata tbl n s = (0, s)" and "fd_offset d \<le> SIZE_MAX" and "n_length (node s n) \<le> SIZE_MAX"
    and "- (2 ^ 63) \<le> offset" and "offset \<le> int LONG_MAX"
  shows "vfs_sys_lseek tbl fd offset whence s =
    (let target = seek_base s n d whence + offset in
     if target < 0 then (-22, s)
     else if target > int LONG_MAX then (-75, s)
     else (target, put_fd fd (d\<lparr>fd_offset := nat target\<rparr>) s))"
proof -
  define base where "base = nat (seek_base s n d whence)"
  have base: "seek_base s n d whence = int base"
    by (simp add: base_def seek_base_def)
  have start: "(if whence = 1 then (0, fd_offset d, s)
      else if whence = 2 then (case refresh_metadata tbl n s of (r, s) \<Rightarrow> (r, n_length (node s n), s))
      else if whence \<noteq> 0 then (-22, 0, s) else (0, 0, s)) = (0, base, s)"
    using assms(3,4) by (auto simp: base_def seek_base_def)
  have run: "vfs_sys_lseek tbl fd offset whence s =
      (case (if offset < 0 then
               if nat (- offset) > base then Inl (-22) else Inr (base - nat (- offset))
             else if base + nat offset > SIZE_MAX then Inl (-75) else Inr (base + nat offset)) of
         Inl e \<Rightarrow> (e, s)
       | Inr new_offset \<Rightarrow>
           if new_offset > LONG_MAX then (-75, s)
           else (int new_offset, put_fd fd (d\<lparr>fd_offset := new_offset\<rparr>) s))"
    unfolding vfs_sys_lseek_def assms(1) option.case assms(2) start by (simp add: Let_def)
  show ?thesis
  proof (cases "offset < 0")
    case True
    have "(nat (- offset) > base) = (int base + offset < 0)"
      using True by auto
    moreover have "base - nat (- offset) = nat (int base + offset)"
      using True by auto
    ultimately show ?thesis
      unfolding run base using True by (auto simp: Let_def)
  next
    case False
    have "base + nat offset = nat (int base + offset)"
      using False by auto
    moreover have "LONG_MAX < SIZE_MAX"
      by (simp add: LONG_MAX_def SIZE_MAX_def)
    ultimately show ?thesis
      unfolding run base using False by (auto simp: Let_def)
  qed
qed

theorem lseek_exact_witness:
  "vfs_sys_lseek no_ops 0 (-30) 2 example_vfs =
    (70, put_fd 0 \<lparr>fd_node = Some 0, fd_offset = 70, fd_flags = 0\<rparr> example_vfs)"
  using lseek_exact [of example_vfs 0 "\<lparr>fd_node = Some 0, fd_offset = 10, fd_flags = 0\<rparr>" 0 2 no_ops "-30"]
  by (simp add: example_vfs_def example_file_def no_ops_def get_fd_def refresh_metadata_def op_of_def node_def seek_base_def
      SIZE_MAX_def LONG_MAX_def Let_def)

text \<open>\<open>fcntl(F_SETFL)\<close> cannot change how a descriptor may be used: the access mode and every flag
  but \<open>O_APPEND\<close> and \<open>O_NONBLOCK\<close> stay, those two become what the caller asked for, and no other
  descriptor changes.\<close>

theorem fcntl_setfl_settable_only:
  assumes "tables_ok s" and "get_fd s fd = Some d" and "fd_node d \<noteq> None" and "fd_flags d < 2 ^ 32"
    and "vfs_sys_fcntl fd 4 arg s = (r, s')"
  shows "r = 0 \<and> (\<exists>d'. get_fd s' fd = Some d' \<and> fd_node d' = fd_node d \<and> fd_offset d' = fd_offset d \<and>
      (\<forall>i. bit (fd_flags d') i = (if bit SETTABLE_FLAGS i then bit arg i else bit (fd_flags d) i))) \<and>
    (\<forall>j. j \<noteq> fd \<longrightarrow> get_fd s' j = get_fd s j)"
proof -
  obtain t where t: "cur s = Some t" "\<not> fd < 0" "nat fd < length (tables s ! t)" "d = tables s ! t ! nat fd"
    using assms(2) by (auto simp: get_fd_def split: option.splits if_splits)
  have tt: "t < length (tables s)"
    using assms(1) t(1) by (simp add: tables_ok_def)
  define d' where "d' = d\<lparr>fd_flags := (fd_flags d AND (mask 32 XOR SETTABLE_FLAGS)) OR (arg AND SETTABLE_FLAGS)\<rparr>"
  have r: "r = 0" "s' = put_fd fd d' s"
    using assms(2,3,5) by (auto simp: vfs_sys_fcntl_def d'_def)
  have "bit (fd_flags d) i \<Longrightarrow> i < 32" for i
    using assms(4) by (metis bit_take_bit_iff take_bit_nat_eq_self)
  then have "bit (fd_flags d') i = (if bit SETTABLE_FLAGS i then bit arg i else bit (fd_flags d) i)" for i
    by (auto simp: d'_def bit_simps)
  then show ?thesis
    using r t tt by (auto simp: put_fd_def get_fd_def d'_def nth_list_update)
qed

theorem fcntl_setfl_settable_only_witness:
  "\<exists>r s'. vfs_sys_fcntl 0 4 0xFFF example_vfs = (r, s') \<and> r = 0 \<and> get_fd s' 1 = get_fd example_vfs 1"
proof -
  obtain r s' where run: "vfs_sys_fcntl 0 4 0xFFF example_vfs = (r, s')"
    by fastforce
  have "get_fd example_vfs 0 = Some \<lparr>fd_node = Some 0, fd_offset = 10, fd_flags = 0\<rparr>"
    by (simp add: example_vfs_def get_fd_def)
  from fcntl_setfl_settable_only [OF example_vfs_ok(1) this _ _ run] show ?thesis
    using run by simp
qed

end
