(* ===== verification/Byte_File.thy ===== *)
theory Byte_File
  imports Byte_Queue
begin

text \<open>
  The contract of a regular file as a sequence of bytes, for the file systems
  that provide it and the callers that rely on it: a read returns what is
  there, a write replaces a range and fills a gap with zeros, a truncation
  keeps a prefix.
\<close>

definition file_write :: "byte list \<Rightarrow> nat \<Rightarrow> byte list \<Rightarrow> byte list" where
  "file_write c off d = take off (c @ replicate (off - length c) 0) @ d @ drop (off + length d) c"

lemma length_file_write: "length (file_write c off d) = (if length c < off + length d then off + length d else length c)"
  by (auto simp: file_write_def)

lemma nth_file_write:
  assumes "i < length (file_write c off d)"
  shows "file_write c off d ! i =
    (if off \<le> i \<and> i < off + length d then d ! (i - off) else if i < length c then c ! i else 0)"
  using assms by (auto simp: file_write_def nth_append min_def)

lemma file_write_range: "take (length d) (drop off (file_write c off d)) = d"
  by (simp add: file_write_def)

lemma file_write_append: "file_write c (length c) d = c @ d"
  by (simp add: file_write_def)

locale byte_file =
  fixes ok :: "'s \<Rightarrow> bool"
    and content :: "'s \<Rightarrow> byte list"
    and rd :: "nat \<Rightarrow> nat \<Rightarrow> 's \<Rightarrow> int \<times> byte list \<times> 's"
    and wr :: "nat \<Rightarrow> byte list \<Rightarrow> 's \<Rightarrow> int \<times> 's"
    and tr :: "nat \<Rightarrow> 's \<Rightarrow> int \<times> 's"
  assumes rd_law: "ok s \<Longrightarrow> rd off n s = (r, d, s') \<Longrightarrow>
      ok s' \<and> content s' = content s \<and> d = take n (drop off (content s)) \<and> r = int (length d)"
    and wr_done: "ok s \<Longrightarrow> wr off d s = (r, s') \<Longrightarrow> 0 < r \<Longrightarrow>
      ok s' \<and> r = int (length d) \<and> content s' = file_write (content s) off d"
    and wr_refused: "ok s \<Longrightarrow> wr off d s = (r, s') \<Longrightarrow> r \<le> 0 \<Longrightarrow> ok s' \<and> content s' = content s"
    and tr_law: "ok s \<Longrightarrow> tr n s = (r, s') \<Longrightarrow> ok s' \<and> content s' = (if r = 0 then take n (content s) else content s)"
begin

lemma write_then_read:
  assumes "ok s" and "wr off d s = (r, s')" and "0 < r" and "rd off (length d) s' = (r', d', s'')"
  shows "d' = d \<and> r' = r"
  using wr_done [OF assms(1,2,3)] rd_law [OF _ assms(4)] by (simp add: file_write_range)

lemma other_bytes_stay:
  assumes "ok s" and "wr off d s = (r, s')" and "i < length (content s)" and "\<not> (off \<le> i \<and> i < off + length d)"
  shows "i < length (content s') \<and> content s' ! i = content s ! i"
proof (cases "0 < r")
  case True
  then show ?thesis
    using wr_done [OF assms(1,2)] assms(3,4) by (auto simp: length_file_write nth_file_write)
qed (use wr_refused [OF assms(1,2)] assms(3) in simp)

text \<open>Bytes cut off by a truncation never come back.\<close>

lemma truncate_then_gap_is_zero:
  assumes "ok s" and "tr n s = (0, s1)" and "wr off d s1 = (r, s2)" and "0 < r" and "n \<le> i" and "i < off"
  shows "i < length (content s2) \<and> content s2 ! i = 0"
proof -
  have c1: "ok s1" "content s1 = take n (content s)"
    using tr_law [OF assms(1,2)] by auto
  then show ?thesis
    using wr_done [OF c1(1) assms(3,4)] assms(5,6) by (auto simp: length_file_write nth_file_write)
qed

end

end
