(* ===== verification/Ramfs.thy ===== *)
theory Ramfs
  imports Vfs Byte_File
begin

text \<open>
  The RAM file system (\<open>src/src/kernel/vfs/ramfs.cpp\<close>).

  \<open>ram n\<close> is the \<open>ramfs_node_internal\<close> that \<open>node->ptr\<close> points to: the data
  array (\<open>None\<close> when null), its capacity, the children of a directory in the
  order of their sibling chain and the reservation flag.  The wrapper that
  \<open>attach_node\<close> links for a foreign node only contributes the node to the
  chain.  Whether \<open>new uint8_t[]\<close> succeeds is the argument \<open>mem\<close>.  An operation
  takes the reservation and drops it before it returns; \<open>ri_busy\<close> is set on
  entry when another CPU holds it.
\<close>

section \<open>Model\<close>

record ramfs_node_internal =
  ri_data :: "byte list option"
  ri_size :: nat
  ri_children :: "nid list"
  ri_busy :: bool

record ram_drv =
  ram :: "nid \<Rightarrow> ramfs_node_internal option"

type_synonym 'a ramv = "'a ram_drv_scheme vfs"

definition internal :: "'a ramv \<Rightarrow> nid \<Rightarrow> ramfs_node_internal" where
  "internal s n = the (ram (drv s) n)"

definition upd_internal :: "nid \<Rightarrow> (ramfs_node_internal \<Rightarrow> ramfs_node_internal) \<Rightarrow> 'a ramv \<Rightarrow> 'a ramv" where
  "upd_internal n f s = s\<lparr>drv := (drv s)\<lparr>ram := (ram (drv s))(n := map_option f (ram (drv s) n))\<rparr>\<rparr>"

definition RAMFS_OPS :: nat where
  "RAMFS_OPS = 0"

definition create_internal :: "nid \<Rightarrow> string \<Rightarrow> file_type \<Rightarrow> 'a ramv \<Rightarrow> 'a ramv" where
  "create_internal n name type s =
    s\<lparr>nodes := (nodes s)(n \<mapsto>
        \<lparr>n_name = name, n_hash = hash_name name, n_inode = 0, n_length = 0, n_type = type, n_uid = 0, n_gid = 0,
         n_mask = 0, n_flags = 0, n_ops = Some RAMFS_OPS, n_references = 1, n_managed = False\<rparr>),
      drv := (drv s)\<lparr>ram := (ram (drv s))(n \<mapsto> \<lparr>ri_data = None, ri_size = 0, ri_children = [], ri_busy = False\<rparr>)\<rparr>\<rparr>"

definition ramfs_create_root :: "nid \<Rightarrow> 'a ramv \<Rightarrow> 'a ramv" where
  "ramfs_create_root n s = create_internal n ''/'' DIRECTORY s"

definition ramfs_create_file :: "nid \<Rightarrow> nid \<Rightarrow> string \<Rightarrow> byte list \<Rightarrow> 'a ramv \<Rightarrow> 'a ramv" where
  "ramfs_create_file n parent name cont s =
    (let s = create_internal n name REGULAR s;
         s = upd_node n (\<lambda>v. v\<lparr>n_length := length cont\<rparr>) s;
         s = upd_internal n (\<lambda>i. i\<lparr>ri_size := length cont, ri_data := Some cont\<rparr>) s
     in upd_internal parent (\<lambda>i. i\<lparr>ri_children := ri_children i @ [n]\<rparr>) s)"

definition ramfs_create_directory :: "nid \<Rightarrow> nid \<Rightarrow> string \<Rightarrow> 'a ramv \<Rightarrow> 'a ramv" where
  "ramfs_create_directory n parent name s =
    (let s = create_internal n name DIRECTORY s
     in upd_internal parent (\<lambda>i. i\<lparr>ri_children := ri_children i @ [n]\<rparr>) s)"

definition ramfs_attach_node :: "nid \<Rightarrow> nid \<Rightarrow> 'a ramv \<Rightarrow> 'a ramv" where
  "ramfs_attach_node parent child s =
    upd_internal parent (\<lambda>i. i\<lparr>ri_children := ri_children i @ [child]\<rparr>) s"

definition ramfs_read :: "nid \<Rightarrow> nat \<Rightarrow> bool \<Rightarrow> nat \<Rightarrow> 'a ramv \<Rightarrow> int \<times> byte list \<times> 'a ramv" where
  "ramfs_read n offset buffer sz s =
    (if nodes s n = None \<or> ram (drv s) n = None \<or> n_type (node s n) \<noteq> REGULAR then (-22, [], s)
     else if sz = 0 then (0, [], s)
     else if \<not> buffer then (-14, [], s)
     else if ri_busy (internal s n) then (-16, [], s)
     else if offset \<ge> n_length (node s n) then (0, [], s)
     else
       case ri_data (internal s n) of None \<Rightarrow> (-5, [], s) | Some data \<Rightarrow>
       if n_length (node s n) > ri_size (internal s n) then (-5, [], s)
       else
         let sz = (if sz > n_length (node s n) - offset then n_length (node s n) - offset else sz);
             sz = (if sz > LONG_MAX then LONG_MAX else sz)
         in (int sz, take sz (drop offset data), s))"

definition write_data :: "bool \<Rightarrow> nid \<Rightarrow> nat \<Rightarrow> byte list \<Rightarrow> 'a ramv \<Rightarrow> nat \<times> 'a ramv" where
  "write_data mem n offset buffer s =
    (let sz = length buffer in
     if nodes s n = None \<or> sz > SIZE_MAX - offset then (0, s)
     else if sz = 0 then (0, s)
     else
       let i = internal s n; required = offset + sz in
       if required > ri_size i \<and> \<not> mem then (0, s)
       else
         let i = (if required > ri_size i then
                    i\<lparr>ri_data := Some (case ri_data i of
                         None \<Rightarrow> replicate required 0
                       | Some old \<Rightarrow> memcpy_at (replicate required 0) 0 (take (ri_size i) old)),
                      ri_size := required\<rparr>
                  else i);
             data = the (ri_data i);
             len = n_length (node s n);
             data = (if offset > len then memcpy_at data len (replicate (offset - len) 0) else data);
             data = memcpy_at data offset buffer;
             s = upd_internal n (\<lambda>_. i\<lparr>ri_data := Some data\<rparr>) s;
             s = (if required > len then upd_node n (\<lambda>v. v\<lparr>n_length := required\<rparr>) s else s)
         in (sz, s))"

definition ramfs_write :: "bool \<Rightarrow> nid \<Rightarrow> nat \<Rightarrow> byte list \<Rightarrow> 'a ramv \<Rightarrow> int \<times> 'a ramv" where
  "ramfs_write mem n offset buffer s =
    (if nodes s n = None \<or> ram (drv s) n = None \<or> n_type (node s n) \<noteq> REGULAR then (-22, s)
     else if length buffer = 0 then (0, s)
     else if offset > LONG_MAX \<or> length buffer > LONG_MAX - offset then (-75, s)
     else if ri_busy (internal s n) then (-16, s)
     else case write_data mem n offset buffer s of (done, s) \<Rightarrow> (if done \<noteq> 0 then int done else -12, s))"

definition ramfs_append :: "bool \<Rightarrow> nid \<Rightarrow> byte list \<Rightarrow> 'a ramv \<Rightarrow> int \<times> nat \<times> 'a ramv" where
  "ramfs_append mem n buffer s =
    (if nodes s n = None \<or> n_type (node s n) \<noteq> REGULAR \<or> ram (drv s) n = None then (-22, 0, s)
     else if length buffer = 0 then (0, 0, s)
     else if ri_busy (internal s n) then (-16, 0, s)
     else if n_length (node s n) > LONG_MAX \<or> length buffer > LONG_MAX - n_length (node s n) then (-75, 0, s)
     else
       case write_data mem n (n_length (node s n)) buffer s of (done, s) \<Rightarrow>
       if done = 0 then (-12, 0, s) else (int done, n_length (node s n), s))"

definition ramfs_truncate :: "nid \<Rightarrow> nat \<Rightarrow> 'a ramv \<Rightarrow> int \<times> 'a ramv" where
  "ramfs_truncate n len s =
    (if nodes s n = None \<or> n_type (node s n) \<noteq> REGULAR \<or> ram (drv s) n = None then (-22, s)
     else if ri_busy (internal s n) then (-16, s)
     else if len > n_length (node s n) then (-95, s)
     else (0, upd_node n (\<lambda>v. v\<lparr>n_length := len\<rparr>) s))"

definition ramfs_fsync :: "nid \<Rightarrow> 'a ramv \<Rightarrow> int \<times> 'a ramv" where
  "ramfs_fsync n s =
    (if nodes s n = None \<or> ram (drv s) n = None \<or> n_type (node s n) \<notin> {REGULAR, DIRECTORY} then (-22, s)
     else if ri_busy (internal s n) then (-16, s)
     else (0, s))"

definition ramfs_readdir :: "nid \<Rightarrow> nat \<Rightarrow> 'a ramv \<Rightarrow> nid option" where
  "ramfs_readdir n index s =
    (let children = ri_children (internal s n)
     in if index < length children then Some (children ! index) else None)"

primrec find_child :: "string \<Rightarrow> 'a ramv \<Rightarrow> nid list \<Rightarrow> nid option" where
  "find_child name s [] = None"
| "find_child name s (c # cs) =
    (if n_hash (node s c) = hash_name name \<and> n_name (node s c) = name then Some c else find_child name s cs)"

definition ramfs_lookup :: "nid \<Rightarrow> string \<Rightarrow> 'a ramv \<Rightarrow> int \<times> nid option \<times> 'a ramv" where
  "ramfs_lookup n name s =
    (if nodes s n = None \<or> name = [] \<or> ram (drv s) n = None then (-22, None, s)
     else if n_type (node s n) \<noteq> DIRECTORY then (-20, None, s)
     else
       case find_child name s (ri_children (internal s n)) of
         None \<Rightarrow> (-2, None, s)
       | Some c \<Rightarrow> (0, Some c, retain c s))"

definition g_ramfs_ops :: "bool \<Rightarrow> 'a ram_drv_scheme vfs_ops" where
  "g_ramfs_ops mem =
    \<lparr>o_read = Some (\<lambda>n off sz. ramfs_read n off True sz), o_write = Some (ramfs_write mem),
     o_truncate = Some ramfs_truncate, o_open = None, o_close = None, o_ioctl = None,
     o_readdir = Some ramfs_readdir, o_lookup = Some ramfs_lookup, o_fsync = Some ramfs_fsync, o_poll = None,
     o_refresh_metadata = None, o_append = Some (ramfs_append mem), o_destroy = delete_node\<rparr>"

section \<open>Files as byte sequences\<close>

definition ram_file :: "nid \<Rightarrow> 'a ramv \<Rightarrow> bool" where
  "ram_file n s \<longleftrightarrow>
     (\<exists>v i. nodes s n = Some v \<and> ram (drv s) n = Some i \<and> n_type v = REGULAR \<and> \<not> ri_busy i \<and>
       n_length v \<le> ri_size i \<and> n_length v \<le> LONG_MAX \<and>
       (case ri_data i of None \<Rightarrow> ri_size i = 0 | Some data \<Rightarrow> length data = ri_size i))"

definition ram_content :: "nid \<Rightarrow> 'a ramv \<Rightarrow> byte list" where
  "ram_content n s = take (n_length (node s n)) (case ri_data (internal s n) of None \<Rightarrow> [] | Some d \<Rightarrow> d)"

lemma ram_fileE:
  assumes "ram_file n s"
  obtains v i data where "nodes s n = Some v" "ram (drv s) n = Some i" "n_type v = REGULAR" "\<not> ri_busy i"
    "n_length v \<le> length data" "n_length v \<le> LONG_MAX" "ri_size i = length data"
    "data = (case ri_data i of None \<Rightarrow> [] | Some d \<Rightarrow> d)" "ram_content n s = take (n_length v) data"
proof -
  obtain v i where vi: "nodes s n = Some v" "ram (drv s) n = Some i" "n_type v = REGULAR" "\<not> ri_busy i"
      "n_length v \<le> ri_size i" "n_length v \<le> LONG_MAX"
      "case ri_data i of None \<Rightarrow> ri_size i = 0 | Some data \<Rightarrow> length data = ri_size i"
    using assms by (auto simp: ram_file_def)
  show thesis
    using vi by (intro that [OF vi(1-4) _ vi(6) _ refl]; cases "ri_data i")
      (auto simp: ram_content_def node_def internal_def)
qed

lemma length_ram_content: "ram_file n s \<Longrightarrow> length (ram_content n s) = n_length (node s n)"
  by (elim ram_fileE) (simp add: node_def)

lemma ramfs_read_file:
  assumes "ram_file n s" and "ramfs_read n off True sz s = (r, d, s')"
  shows "s' = s \<and> d = take sz (drop off (ram_content n s)) \<and> r = int (length d)"
  using assms(1)
proof (cases rule: ram_fileE)
  case (1 v i data)
  have vi: "node s n = v" "internal s n = i"
    using 1 by (simp_all add: node_def internal_def)
  show ?thesis
  proof (cases "sz = 0 \<or> n_length v \<le> off")
    case True
    then show ?thesis
      using assms(2) 1(1-4,9) by (auto simp: ramfs_read_def vi split: if_splits)
  next
    case False
    then have "ri_data i = Some data"
      using 1 by (cases "ri_data i") auto
    moreover have "min sz (n_length v - off) \<le> LONG_MAX"
      using 1 by auto
    ultimately have "d = take (min sz (n_length v - off)) (drop off data)" "r = int (min sz (n_length v - off))" "s' = s"
      using assms(2) [unfolded ramfs_read_def vi] 1(1-7) False by (auto simp: Let_def min_def split: if_splits)
    then show ?thesis
      using 1 False by (simp add: drop_take min.commute)
  qed
qed

text \<open>The data array after the write, against the file as a sequence.\<close>

lemma write_data_array:
  assumes "len \<le> length data" and "data0 = (if off + length d > length data
      then memcpy_at (replicate (off + length d) 0) 0 data else data)"
  shows "take (if off + length d > len then off + length d else len)
      (memcpy_at (if off > len then memcpy_at data0 len (replicate (off - len) 0) else data0) off d) =
    file_write (take len data) off d" (is "take ?len ?data = _")
    and "length (memcpy_at (if off > len then memcpy_at data0 len (replicate (off - len) 0) else data0) off d) = length data0"
proof -
  let ?gap = "if off > len then memcpy_at data0 len (replicate (off - len) 0) else data0"
  have l0: "length data0 = (if off + length d > length data then off + length d else length data)"
    by (simp add: assms(2))
  have lg: "length ?gap = length data0"
    using l0 by (auto split: if_splits)
  show len: "length (memcpy_at ?gap off d) = length data0"
    using lg l0 by (auto split: if_splits)
  have n0: "data0 ! i = (if i < length data then data ! i else 0)" if "i < length data0" for i
    using that l0 by (auto simp: assms(2) nth_memcpy_at)
  have ng: "?gap ! i = (if len \<le> i \<and> i < off then 0 else data0 ! i)" if "i < length data0" for i
    using that l0 by (auto simp: nth_memcpy_at)
  show "take ?len (memcpy_at ?gap off d) = file_write (take len data) off d"
  proof (rule nth_equalityI)
    show "length (take ?len (memcpy_at ?gap off d)) = length (file_write (take len data) off d)"
      unfolding length_take len length_file_write using l0 assms(1) by (auto split: if_splits)
    fix i assume "i < length (take ?len (memcpy_at ?gap off d))"
    then have i: "i < ?len" "i < length data0"
      unfolding length_take len by auto
    have "memcpy_at ?gap off d ! i = (if off \<le> i \<and> i < off + length d then d ! (i - off) else ?gap ! i)"
      using i l0 lg by (intro nth_memcpy_at) (auto split: if_splits)
    moreover have "i < length (file_write (take len data) off d)"
      unfolding length_file_write using i assms(1) by (auto split: if_splits)
    ultimately show "take ?len (memcpy_at ?gap off d) ! i = file_write (take len data) off d ! i"
      using i assms(1) by (auto simp: nth_file_write ng n0 split: if_splits)
  qed
qed

lemma write_data_file:
  assumes rf: "ram_file n s" and "d \<noteq> []" and "off + length d \<le> LONG_MAX" and run: "write_data mem n off d s = (k, s')"
  shows "ram_file n s' \<and>
    (if k = 0 then s' = s \<and> \<not> mem else k = length d \<and> ram_content n s' = file_write (ram_content n s) off d)"
  using rf
proof (cases rule: ram_fileE)
  case (1 v i data)
  have vi: "node s n = v" "internal s n = i"
    using 1 by (simp_all add: node_def internal_def)
  have size: "\<not> length d > SIZE_MAX - off"
    using assms(3) by (auto simp: SIZE_MAX_def LONG_MAX_def)
  show ?thesis
  proof (cases "off + length d > length data \<and> \<not> mem")
    case True
    then have "(k, s') = (0, s)"
      using run assms(2) 1(1,7) size by (auto simp: write_data_def vi Let_def)
    then show ?thesis
      using True rf by simp
  next
    case False
    define data0 where "data0 = (if off + length d > length data then memcpy_at (replicate (off + length d) 0) 0 data else data)"
    define data1 where "data1 = memcpy_at (if off > n_length v then memcpy_at data0 (n_length v) (replicate (off - n_length v) 0) else data0) off d"
    define len where "len = (if off + length d > n_length v then off + length d else n_length v)"
    note arr = write_data_array [OF 1(5) data0_def, folded data1_def len_def]
    define j where "j = (if off + length d > length data then i\<lparr>ri_size := off + length d\<rparr> else i)\<lparr>ri_data := Some data1\<rparr>"
    have grown: "(case ri_data i of None \<Rightarrow> replicate (off + length d) 0
        | Some old \<Rightarrow> memcpy_at (replicate (off + length d) 0) 0 (take (ri_size i) old)) =
        memcpy_at (replicate (off + length d) 0) 0 data"
      using 1(7,8) by (cases "ri_data i") auto
    have old: "the (ri_data i) = data" if "\<not> off + length d > length data"
      using that 1(8) assms(2) by (cases "ri_data i") auto
    have "k = length d \<and> s' = (if off + length d > n_length v then upd_node n (\<lambda>v. v\<lparr>n_length := off + length d\<rparr>) (upd_internal n (\<lambda>_. j) s)
        else upd_internal n (\<lambda>_. j) s)"
      using run assms(2) 1(1,7) size False old
      by (cases "off + length d > length data")
        (auto simp: write_data_def vi Let_def grown data0_def data1_def j_def)
    then have k: "k = length d" and nodes: "nodes s' n = Some (v\<lparr>n_length := len\<rparr>)" and ram: "ram (drv s') n = Some j"
      using 1(1,2) by (auto simp: upd_node_def upd_internal_def len_def)
    have "length data0 = (if off + length d > length data then off + length d else length data)"
      by (simp add: data0_def)
    then have "ram_file n s'"
      using 1 arr(2) nodes ram assms(3) by (auto simp: ram_file_def j_def len_def)
    moreover have "ram_content n s' = file_write (ram_content n s) off d"
      using arr(1) nodes ram 1(9) by (simp add: ram_content_def node_def internal_def j_def)
    ultimately show ?thesis
      using k assms(2) by simp
  qed
qed

interpretation ramfile: byte_file "ram_file n" "ram_content n" "\<lambda>off. ramfs_read n off True" "ramfs_write mem n" "ramfs_truncate n"
  for n and mem
proof
  fix s :: "'a ramv" and off k r d s'
  assume rf: "ram_file n s"
  show "ram_file n s' \<and> ram_content n s' = ram_content n s \<and> d = take k (drop off (ram_content n s)) \<and> r = int (length d)"
    if "ramfs_read n off True k s = (r, d, s')"
    using ramfs_read_file [OF rf that] rf by simp
  obtain v i where vi: "nodes s n = Some v" "ram (drv s) n = Some i" "n_type v = REGULAR" "\<not> ri_busy i"
      "node s n = v" "internal s n = i"
    using rf by (elim ram_fileE) (auto simp: node_def internal_def)
  show "ram_file n s' \<and> r = int (length d) \<and> ram_content n s' = file_write (ram_content n s) off d"
    if "ramfs_write mem n off d s = (r, s')" "0 < r"
    using that vi write_data_file [OF rf, of d off mem]
    by (auto simp: ramfs_write_def split: if_splits prod.splits)
  show "ram_file n s' \<and> ram_content n s' = ram_content n s" if "ramfs_write mem n off d s = (r, s')" "r \<le> 0"
    using that vi write_data_file [OF rf, of d off mem] rf
    by (auto simp: ramfs_write_def split: if_splits prod.splits)
  show "ram_file n s' \<and> ram_content n s' = (if r = 0 then take k (ram_content n s) else ram_content n s)"
    if "ramfs_truncate n k s = (r, s')"
    using rf
  proof (cases rule: ram_fileE)
    case (1 w j data)
    then have "n_length w = n_length v" "j = i" "w = v"
      using vi by auto
    then show ?thesis
      using 1 that vi rf
      by (auto simp: ramfs_truncate_def ram_file_def ram_content_def upd_node_def node_def internal_def min_def split: if_splits)
  qed
qed

lemma ramfs_write_accepts:
  assumes "ram_file n s" and "d \<noteq> []" and "off + length d \<le> LONG_MAX" and "ramfs_write True n off d s = (r, s')"
  shows "0 < r"
proof -
  obtain v i where vi: "nodes s n = Some v" "ram (drv s) n = Some i" "n_type v = REGULAR" "\<not> ri_busy i"
      "node s n = v" "internal s n = i"
    using assms(1) by (elim ram_fileE) (auto simp: node_def internal_def)
  obtain k t where w: "write_data True n off d s = (k, t)"
    by fastforce
  then have "0 < k"
    using write_data_file [OF assms(1-3) w] by (cases "k = 0") auto
  then show ?thesis
    using assms(2-4) vi w by (simp add: ramfs_write_def split: if_splits)
qed

section \<open>Properties of the RAM file system\<close>

text \<open>C9. A \<open>ramfs\<close> write is a write to the file as a sequence of bytes: a positive result is the number
  of bytes given, exactly that range of the file is replaced, a gap between the old end and the
  offset reads as zeros whatever the array held there before, and every other byte stays; any other
  result leaves the file as it was, and with memory available and a result in range the write is
  not refused.\<close>

theorem ramfs_write_refines:
  assumes "ram_file n s" and "ramfs_write mem n off d s = (r, s')"
  shows "ram_file n s' \<and>
    (if 0 < r then r = int (length d) \<and> ram_content n s' = file_write (ram_content n s) off d
     else ram_content n s' = ram_content n s) \<and>
    (mem \<and> d \<noteq> [] \<and> off + length d \<le> LONG_MAX \<longrightarrow> 0 < r)"
proof -
  have "0 < r" if "mem" "d \<noteq> []" "off + length d \<le> LONG_MAX"
    using ramfs_write_accepts [OF assms(1) that(2,3)] assms(2) that(1) by simp
  then show ?thesis
    using ramfile.wr_done [OF assms] ramfile.wr_refused [OF assms] by auto
qed

text \<open>A file system with one file, open read-write as descriptor 3, for the examples.\<close>

definition ram_example :: "unit ramv" where
  "ram_example =
    (let s = ramfs_create_root 0 \<lparr>nodes = Map.empty, tables = [replicate 8 empty_fd], cur = Some 0, g_root = Some 0,
               drv = \<lparr>ram = Map.empty, \<dots> = ()\<rparr>\<rparr>;
         s = ramfs_create_file 2 0 ''motd'' [72, 105, 33] s
     in put_fd 3 \<lparr>fd_node = Some 2, fd_offset = 1, fd_flags = 2\<rparr> s)"

lemma ram_example_file: "ram_file 2 ram_example" "ram_content 2 ram_example = [72, 105, 33]"
  by (simp_all add: ram_example_def ramfs_create_root_def ramfs_create_file_def create_internal_def upd_node_def
      upd_internal_def put_fd_def ram_file_def ram_content_def node_def internal_def LONG_MAX_def Let_def)

theorem ramfs_write_refines_witness:
  "\<exists>r s'. ramfs_write True 2 5 [1, 2] ram_example = (r, s') \<and> r = 2 \<and>
    ram_content 2 s' = [72, 105, 33, 0, 0, 1, 2]"
proof -
  obtain r s' where run: "ramfs_write True 2 5 [1, 2] ram_example = (r, s')"
    by fastforce
  moreover have "file_write [72, 105, 33] 5 [1, 2] = [72, 105, 33, 0, 0, 1, 2]"
    by code_simp
  moreover have "5 + length [1, 2 :: byte] \<le> LONG_MAX"
    by (simp add: LONG_MAX_def)
  ultimately show ?thesis
    using ramfs_write_refines [OF ram_example_file(1) run] by (auto simp: ram_example_file(2))
qed

text \<open>C10. What a truncation cut off never comes back: after a file is shortened to \<open>len\<close> bytes and
  written at a later offset, every byte between \<open>len\<close> and that offset reads as zero, although the
  data array still held the old bytes.\<close>

theorem ramfs_no_stale_bytes:
  assumes "ram_file n s" and "ramfs_truncate n len s = (0, s1)" and "ramfs_write mem n off d s1 = (r, s2)" and "0 < r"
    and "len \<le> i" and "i < off" and "ramfs_read n i True 1 s2 = (k, out, s3)"
  shows "k = 1 \<and> out = [0]"
proof -
  have "i < length (ram_content n s2) \<and> ram_content n s2 ! i = 0"
    using assms(1-6) by (rule ramfile.truncate_then_gap_is_zero)
  moreover have "ram_file n s2"
    using ramfile.tr_law [OF assms(1,2)] ramfile.wr_done [OF _ assms(3,4)] by blast
  ultimately show ?thesis
    using ramfs_read_file [OF _ assms(7)] by (simp add: take_1_drop)
qed

theorem ramfs_no_stale_bytes_witness:
  "\<exists>s1 r s2 k out s3. ramfs_truncate 2 1 ram_example = (0, s1) \<and> ramfs_write True 2 2 [9] s1 = (r, s2) \<and>
    ramfs_read 2 1 True 1 s2 = (k, out, s3) \<and> k = 1 \<and> out = [0]"
proof -
  obtain e s1 where one: "ramfs_truncate 2 1 ram_example = (e, s1)"
    by fastforce
  have "fst (ramfs_truncate 2 1 ram_example) = 0"
    by code_simp
  then have e: "e = 0"
    unfolding one by simp
  obtain r s2 where two: "ramfs_write True 2 2 [9] s1 = (r, s2)"
    by fastforce
  obtain k out s3 where three: "ramfs_read 2 1 True 1 s2 = (k, out, s3)"
    by (metis prod_cases3)
  have "ram_file 2 s1"
    using ramfile.tr_law [OF ram_example_file(1) one] by blast
  then have "0 < r"
    by (rule ramfs_write_accepts [OF _ _ _ two]) (simp_all add: LONG_MAX_def)
  then show ?thesis
    using ramfs_no_stale_bytes [OF ram_example_file(1) one [unfolded e] two _ _ _ three] one two three e by auto
qed

text \<open>The descriptor calls over a file of this file system.\<close>

lemma ram_put_fd [simp]:
  "nodes (put_fd fd d s) = nodes s" "drv (put_fd fd d s) = drv s" "cur (put_fd fd d s) = cur s"
  by (simp_all add: put_fd_def split: option.splits)

lemma ram_file_put_fd [simp]:
  "ram_file n (put_fd fd d s) = ram_file n s" "ram_content n (put_fd fd d s) = ram_content n s" "node (put_fd fd d s) n = node s n"
  by (simp_all add: ram_file_def ram_content_def node_def internal_def)

lemma get_fd_put_fd:
  assumes "get_fd s fd = Some d" and "tables_ok s"
  shows "get_fd (put_fd fd d' s) fd = Some d'" and "tables_ok (put_fd fd d' s)"
    and "put_fd fd d'' (put_fd fd d' s) = put_fd fd d'' s"
  using assms
  by (auto simp: get_fd_def put_fd_def tables_ok_def split: option.splits if_splits
      dest!: subsetD [OF set_update_subset_insert])

lemma get_fd_cong: "tables s' = tables s \<Longrightarrow> cur s' = cur s \<Longrightarrow> get_fd s' fd = get_fd s fd"
  by (cases "cur s") (simp_all add: get_fd_def)

lemma write_data_frame:
  assumes "write_data mem n off d s = (k, s')" and "nodes s n \<noteq> None"
  shows "tables s' = tables s" "cur s' = cur s" "n_type (node s' n) = n_type (node s n)" "n_ops (node s' n) = n_ops (node s n)"
  using assms by (auto simp: write_data_def Let_def upd_node_def upd_internal_def node_def split: if_splits)

lemma ramfs_write_frame:
  assumes "ramfs_write mem n off d s = (r, s')" and "nodes s n \<noteq> None"
  shows "tables s' = tables s" "cur s' = cur s" "n_type (node s' n) = n_type (node s n)" "n_ops (node s' n) = n_ops (node s n)"
  using assms write_data_frame [of mem n off d s] by (auto simp: ramfs_write_def split: if_splits prod.splits)

lemma ram_sys_write:
  assumes "get_fd s fd = Some d" and "fd_node d = Some n" and "fd_flags d AND ACCESS_MODE = 2" and "fd_flags d AND O_APPEND_K = 0"
    and "ram_file n s" and "n_ops (node s n) = Some RAMFS_OPS" and "tbl RAMFS_OPS = g_ramfs_ops True"
    and "data \<noteq> []" and "fd_offset d + length data \<le> LONG_MAX"
  obtains s' where "vfs_sys_write tbl fd (Some data) (length data) s =
      (int (length data), put_fd fd (d\<lparr>fd_offset := fd_offset d + length data\<rparr>) s')"
    and "ramfs_write True n (fd_offset d) data s = (int (length data), s')"
proof -
  obtain r s' where w: "ramfs_write True n (fd_offset d) data s = (r, s')"
    by fastforce
  have r: "0 < r" "r = int (length data)"
    using ramfs_write_accepts [OF assms(5,8,9) w] ramfile.wr_done [OF assms(5) w] by auto
  have reg: "n_type (node s n) = REGULAR"
    using assms(5) by (auto simp: ram_file_def node_def)
  have "wadd 64 (fd_offset d) (length data) = fd_offset d + length data"
    using assms(9) by (intro wadd_small) (simp add: LONG_MAX_def)
  moreover have "\<not> length data > LONG_MAX" "\<not> length data > SIZE_MAX - fd_offset d"
    using assms(9) by (auto simp: LONG_MAX_def SIZE_MAX_def)
  moreover have "op_of tbl o_write s n = Some (ramfs_write True)"
    using assms(6,7) by (simp add: op_of_def g_ramfs_ops_def)
  ultimately have "vfs_sys_write tbl fd (Some data) (length data) s =
      (int (length data), put_fd fd (d\<lparr>fd_offset := fd_offset d + length data\<rparr>) s')"
    using assms(1-4,8) reg w r by (simp add: vfs_sys_write_def)
  then show thesis
    using that w r by simp
qed

text \<open>C11. What is written through a descriptor of a \<open>ramfs\<close> file is read back through it: after a
  \<open>write\<close> of \<open>data\<close>, an \<open>lseek\<close> back to where it started and a \<open>read\<close> of as many bytes, the calls
  all succeed, the bytes are the ones written and the offset stands after them.\<close>

theorem ramfs_fd_roundtrip:
  assumes "tables_ok s" and "get_fd s fd = Some d" and "fd_node d = Some n"
    and "fd_flags d AND ACCESS_MODE = 2" and "fd_flags d AND O_APPEND_K = 0"
    and "ram_file n s" and "n_ops (node s n) = Some RAMFS_OPS" and "tbl RAMFS_OPS = g_ramfs_ops True"
    and "data \<noteq> []" and "fd_offset d + length data \<le> LONG_MAX"
    and "vfs_sys_write tbl fd (Some data) (length data) s = (r1, s1)"
    and "vfs_sys_lseek tbl fd (int (fd_offset d)) 0 s1 = (r2, s2)"
    and "vfs_sys_read tbl fd True (length data) s2 = (r3, out, s3)"
  shows "r1 = int (length data) \<and> r2 = int (fd_offset d) \<and> r3 = int (length data) \<and> out = data \<and>
    get_fd s3 fd = Some (d\<lparr>fd_offset := fd_offset d + length data\<rparr>) \<and>
    ram_content n s3 = file_write (ram_content n s) (fd_offset d) data"
proof -
  obtain t where t: "vfs_sys_write tbl fd (Some data) (length data) s =
      (int (length data), put_fd fd (d\<lparr>fd_offset := fd_offset d + length data\<rparr>) t)"
    "ramfs_write True n (fd_offset d) data s = (int (length data), t)"
    using ram_sys_write [of s fd d n tbl data] assms(2-10) by blast
  have s1: "r1 = int (length data)" "s1 = put_fd fd (d\<lparr>fd_offset := fd_offset d + length data\<rparr>) t"
    using assms(11) t(1) by auto
  have c: "ram_file n t" "ram_content n t = file_write (ram_content n s) (fd_offset d) data"
    using ramfile.wr_done [OF assms(6) t(2)] assms(9) by auto
  have ex: "nodes s n \<noteq> None"
    using assms(6) by (auto simp: ram_file_def)
  note fr = ramfs_write_frame [OF t(2) ex]
  have gt: "get_fd t fd = Some d" "tables_ok t"
    using assms(1,2) fr(1,2) get_fd_cong [OF fr(1,2)] by (auto simp: tables_ok_def)
  have reg: "n_type (node t n) = REGULAR"
    using assms(6) fr(3) by (auto simp: ram_file_def node_def)
  have "get_fd s1 fd = Some (d\<lparr>fd_offset := fd_offset d + length data\<rparr>)"
    unfolding s1 using gt by (intro get_fd_put_fd)
  then have s2: "r2 = int (fd_offset d)" "s2 = put_fd fd d t"
    using assms(3,10,12) gt by (auto simp: vfs_sys_lseek_def s1 get_fd_put_fd Let_def SIZE_MAX_def LONG_MAX_def split: if_splits)
  have "op_of tbl o_read s2 n = Some (\<lambda>n off sz. ramfs_read n off True sz)"
    using assms(7,8) fr(4) by (simp add: op_of_def g_ramfs_ops_def s2)
  moreover obtain r' o' s' where rd: "ramfs_read n (fd_offset d) True (length data) s2 = (r', o', s')"
    by (metis prod_cases3)
  moreover have "s' = s2 \<and> o' = data \<and> r' = int (length data)"
    using ramfs_read_file [OF _ rd] c by (simp add: s2 file_write_range)
  moreover have "get_fd s2 fd = Some d"
    unfolding s2 using gt by (intro get_fd_put_fd)
  ultimately have "(r3, out, s3) = (int (length data), data, put_fd fd (d\<lparr>fd_offset := fd_offset d + length data\<rparr>) s2)"
    using assms(3,4,9,10,13) reg by (auto simp: vfs_sys_read_def s2 SIZE_MAX_def LONG_MAX_def split: if_splits)
  then show ?thesis
    using s1 s2 c gt by (simp add: get_fd_put_fd)
qed

theorem ramfs_fd_roundtrip_witness:
  "\<exists>s1 s2 s3. vfs_sys_write (\<lambda>_. g_ramfs_ops True) 3 (Some [7, 8]) (length [7, 8 :: byte]) ram_example = (2, s1) \<and>
    vfs_sys_lseek (\<lambda>_. g_ramfs_ops True) 3 (int 1) 0 s1 = (1, s2) \<and>
    vfs_sys_read (\<lambda>_. g_ramfs_ops True) 3 True (length [7, 8 :: byte]) s2 = (2, [7, 8], s3)"
proof -
  let ?tbl = "\<lambda>_. g_ramfs_ops True" and ?d = "\<lparr>fd_node = Some 2, fd_offset = 1, fd_flags = 2\<rparr>"
  obtain r1 s1 where one: "vfs_sys_write ?tbl 3 (Some [7, 8]) (length [7, 8 :: byte]) ram_example = (r1, s1)"
    by fastforce
  obtain r2 s2 where two: "vfs_sys_lseek ?tbl 3 (int (fd_offset ?d)) 0 s1 = (r2, s2)"
    by fastforce
  obtain r3 out s3 where three: "vfs_sys_read ?tbl 3 True (length [7, 8 :: byte]) s2 = (r3, out, s3)"
    by (metis prod_cases3)
  have "tables_ok ram_example" "get_fd ram_example 3 = Some ?d"
    by (simp_all add: ram_example_def ramfs_create_root_def ramfs_create_file_def create_internal_def upd_node_def
        upd_internal_def put_fd_def get_fd_def tables_ok_def Let_def MAX_FDS_def)
  moreover have "n_ops (node ram_example 2) = Some RAMFS_OPS" "fd_flags ?d AND ACCESS_MODE = 2" "fd_flags ?d AND O_APPEND_K = 0"
    by code_simp+
  moreover have "fd_offset ?d + length [7, 8 :: byte] \<le> LONG_MAX"
    by (simp add: LONG_MAX_def)
  ultimately show ?thesis
    using ramfs_fd_roundtrip [OF _ _ _ _ _ ram_example_file(1) _ _ _ _ one two three] one two three by auto
qed

end
