(* ===== verification/Local_Socket.thy ===== *)
theory Local_Socket
  imports Ramfs
begin

text \<open>
  Local (UNIX domain) stream sockets (\<open>src/src/kernel/ipc/local_socket.cpp\<close>).

  The pool \<open>g_local_sockets\<close> is the list \<open>sockets\<close> of the driver state; the node
  embedded in slot \<open>i\<close> is node \<open>sock_base + i\<close> of the node heap, and pointers to
  sockets are slot numbers.  \<open>reset_socket\<close> zeroes the embedded node as well;
  its \<open>destroy\<close> is null from the start and its reference count is not read
  while it is, so those two fields are left alone.  A user buffer is the list
  of its bytes, a null pointer \<open>None\<close>.  Descriptors are installed with
  \<open>alloc_fd\<close> of the virtual file system, where \<open>mem\<close> says whether memory for
  the descriptor table is available.
\<close>

section \<open>Model\<close>

definition PATH_MAX :: nat where
  "PATH_MAX = 108"

definition LOCAL_SOCKET_POOL_SIZE :: nat where
  "LOCAL_SOCKET_POOL_SIZE = 64"

definition LOCAL_SOCKET_BUFFER_SIZE :: nat where
  "LOCAL_SOCKET_BUFFER_SIZE = 4096"

definition SOCK_STREAM :: nat where
  "SOCK_STREAM = 1"

record unix_ipc_address =
  ua_family :: nat
  ua_namespace_kind :: nat
  ua_path_length :: nat
  ua_path :: "byte list"

definition zero_address :: unix_ipc_address where
  "zero_address = \<lparr>ua_family = 0, ua_namespace_kind = 0, ua_path_length = 0, ua_path = replicate PATH_MAX 0\<rparr>"

record local_socket =
  in_use :: bool
  ls_type :: nat
  refcount :: nat
  listening :: bool
  has_address :: bool
  address :: unix_ipc_address
  peer_index :: int
  pending_index :: int
  read_shutdown :: bool
  write_shutdown :: bool
  peer_closed :: bool
  rx_head :: nat
  rx_tail :: nat
  rx_size :: nat
  rx_buffer :: "byte list"

record ls_drv = ram_drv +
  sockets :: "local_socket list"
  sock_base :: nid

type_synonym 'a lsv = "'a ls_drv_scheme vfs"

definition LOCAL_OPS :: nat where
  "LOCAL_OPS = 1"

definition sock :: "'a lsv \<Rightarrow> nat \<Rightarrow> local_socket" where
  "sock s i = sockets (drv s) ! i"

definition upd_sock :: "nat \<Rightarrow> (local_socket \<Rightarrow> local_socket) \<Rightarrow> 'a lsv \<Rightarrow> 'a lsv" where
  "upd_sock i f s = s\<lparr>drv := (drv s)\<lparr>sockets := (sockets (drv s))[i := f (sockets (drv s) ! i)]\<rparr>\<rparr>"

definition sock_nid :: "'a lsv \<Rightarrow> nat \<Rightarrow> nid" where
  "sock_nid s i = sock_base (drv s) + i"

definition ring_write :: "local_socket \<Rightarrow> byte list \<Rightarrow> nat \<times> local_socket" where
  "ring_write socket data =
    (let capacity = LOCAL_SOCKET_BUFFER_SIZE - rx_size socket in
     if capacity = 0 then (0, socket)
     else
       let len = (if length data > capacity then capacity else length data);
           contiguous = LOCAL_SOCKET_BUFFER_SIZE - rx_tail socket;
           first = (if len > contiguous then contiguous else len);
           buf = memcpy_at (rx_buffer socket) (rx_tail socket) (take first data);
           buf = (if len > first then memcpy_at buf 0 (take (len - first) (drop first data)) else buf)
       in (len, socket\<lparr>rx_buffer := buf, rx_tail := (rx_tail socket + len) mod LOCAL_SOCKET_BUFFER_SIZE,
                       rx_size := rx_size socket + len\<rparr>))"

definition ring_read :: "local_socket \<Rightarrow> nat \<Rightarrow> byte list \<times> local_socket" where
  "ring_read socket len =
    (let len = (if len > rx_size socket then rx_size socket else len);
         contiguous = LOCAL_SOCKET_BUFFER_SIZE - rx_head socket;
         first = (if len > contiguous then contiguous else len);
         data = take first (drop (rx_head socket) (rx_buffer socket));
         data = (if len > first then data @ take (len - first) (rx_buffer socket) else data)
     in (data, socket\<lparr>rx_head := (rx_head socket + len) mod LOCAL_SOCKET_BUFFER_SIZE, rx_size := rx_size socket - len\<rparr>))"

definition zero_socket :: local_socket where
  "zero_socket =
    \<lparr>in_use = False, ls_type = 0, refcount = 0, listening = False, has_address = False, address = zero_address,
     peer_index = -1, pending_index = -1, read_shutdown = False, write_shutdown = False, peer_closed = False,
     rx_head = 0, rx_tail = 0, rx_size = 0, rx_buffer = replicate LOCAL_SOCKET_BUFFER_SIZE 0\<rparr>"

definition reset_socket :: "nat \<Rightarrow> 'a lsv \<Rightarrow> 'a lsv" where
  "reset_socket i s =
    upd_node (sock_nid s i)
      (\<lambda>v. v\<lparr>n_name := ''unix'', n_hash := hash_name ''unix'', n_inode := 0, n_type := CHAR_DEVICE, n_length := 0,
            n_uid := 0, n_gid := 0, n_mask := 0, n_flags := 0, n_ops := None\<rparr>)
      (upd_sock i (\<lambda>_. zero_socket) s)"

definition socket_from_node :: "'a lsv \<Rightarrow> nid option \<Rightarrow> nat option" where
  "socket_from_node s n =
    (case n of None \<Rightarrow> None | Some n \<Rightarrow>
     if nodes s n = None \<or> n_ops (node s n) \<noteq> Some LOCAL_OPS then None
     else
       let i = n - sock_base (drv s) in
       if n < sock_base (drv s) \<or> i \<ge> length (sockets (drv s)) \<or> \<not> in_use (sock s i) then None else Some i)"

definition socket_from_fd :: "'a lsv \<Rightarrow> int \<Rightarrow> nat option" where
  "socket_from_fd s fd = socket_from_node s (get_fd_node s fd)"

definition local_open :: "nid \<Rightarrow> 'a lsv \<Rightarrow> 'a lsv" where
  "local_open n s =
    (case socket_from_node s (Some n) of
       None \<Rightarrow> s
     | Some i \<Rightarrow> upd_sock i (\<lambda>x. x\<lparr>refcount := wadd 32 (refcount x) 1\<rparr>) s)"

definition valid_index :: "int \<Rightarrow> bool" where
  "valid_index i \<longleftrightarrow> 0 \<le> i \<and> i < int LOCAL_SOCKET_POOL_SIZE"

text \<open>\<open>release_socket_index\<close>; the recursion into a pending connection ends because every call that
  recurses first takes a socket out of use.\<close>

definition live :: "'a lsv \<Rightarrow> nat" where
  "live s = length (filter in_use (sockets (drv s)))"

definition detach_peer :: "nat \<Rightarrow> int \<Rightarrow> 'a lsv \<Rightarrow> 'a lsv" where
  "detach_peer index peer s =
    (if valid_index peer \<and> in_use (sock s (nat peer)) \<and> peer_index (sock s (nat peer)) = int index
     then upd_sock (nat peer) (\<lambda>x. x\<lparr>peer_index := -1, peer_closed := True\<rparr>) s else s)"

lemma length_sockets_upd [simp]: "length (sockets (drv (upd_sock i f s))) = length (sockets (drv s))"
  by (simp add: upd_sock_def)

lemma filter_update_le:
  assumes "P y \<Longrightarrow> P (xs ! i)"
  shows "length (filter P (xs[i := y])) \<le> length (filter P xs)"
  using assms
proof (induction xs arbitrary: i)
  case (Cons x xs)
  then show ?case
    by (cases i) auto
qed simp

lemma live_upd_le: "(in_use (f (sock s i)) \<Longrightarrow> in_use (sock s i)) \<Longrightarrow> live (upd_sock i f s) \<le> live s"
  unfolding live_def upd_sock_def sock_def by (simp add: filter_update_le)

lemma live_upd_less:
  "i < length (sockets (drv s)) \<Longrightarrow> in_use (sock s i) \<Longrightarrow> \<not> in_use (f (sock s i)) \<Longrightarrow> live (upd_sock i f s) < live s"
  unfolding live_def upd_sock_def sock_def by (simp add: filter_update_less)

lemma live_detach: "live (detach_peer i p s) \<le> live s"
  unfolding detach_peer_def by (auto intro: live_upd_le)

function release_socket_index :: "int \<Rightarrow> 'a lsv \<Rightarrow> 'a lsv" where
  "release_socket_index index s =
    (if \<not> valid_index index \<or> nat index \<ge> length (sockets (drv s)) then s
     else
       let i = nat index in
       if \<not> in_use (sock s i) then s
       else
         let peer = peer_index (sock s i);
             pending = pending_index (sock s i);
             s = upd_sock i (\<lambda>x. x\<lparr>in_use := False, refcount := 0\<rparr>) s;
             s = detach_peer i peer s;
             s = (if valid_index pending \<and> in_use (sock s (nat pending)) \<and> refcount (sock s (nat pending)) > 0
                  then release_socket_index pending (upd_sock (nat pending) (\<lambda>x. x\<lparr>refcount := 1\<rparr>) s)
                  else s)
         in reset_socket i s)"
  by pat_completeness auto
termination
proof (relation "measure (\<lambda>(index, s). live s)")
  fix index :: int and s s1 s2 :: "'a lsv" and i peer pending
  assume a: "\<not> (\<not> valid_index index \<or> nat index \<ge> length (sockets (drv s)))" "i = nat index" "\<not> \<not> in_use (sock s i)"
    "s1 = upd_sock i (\<lambda>x. x\<lparr>in_use := False, refcount := 0\<rparr>) s" "s2 = detach_peer i peer s1"
  have "live (upd_sock (nat pending) (\<lambda>x. x\<lparr>refcount := 1\<rparr>) s2) \<le> live s1"
    unfolding a(5) by (rule le_trans [OF live_upd_le live_detach]) simp
  also have "live s1 < live s"
    unfolding a(4) using a(1-3) by (intro live_upd_less) auto
  finally show "((pending, upd_sock (nat pending) (\<lambda>x. x\<lparr>refcount := 1\<rparr>) s2), index, s) \<in> measure (\<lambda>(index, s). live s)"
    by simp
qed simp

declare release_socket_index.simps [simp del]


definition local_close :: "nid \<Rightarrow> 'a lsv \<Rightarrow> 'a lsv" where
  "local_close n s =
    (case socket_from_node s (Some n) of
       None \<Rightarrow> s
     | Some i \<Rightarrow>
         if refcount (sock s i) = 0 then s
         else
           let s = upd_sock i (\<lambda>x. x\<lparr>refcount := refcount x - 1\<rparr>) s in
           if refcount (sock s i) = 0 then release_socket_index (int i) s else s)"

definition local_read :: "nid \<Rightarrow> nat \<Rightarrow> nat \<Rightarrow> 'a lsv \<Rightarrow> int \<times> byte list \<times> 'a lsv" where
  "local_read n offset len s =
    (case socket_from_node s (Some n) of
       None \<Rightarrow> (0, [], s)
     | Some i \<Rightarrow>
         if ls_type (sock s i) \<noteq> SOCK_STREAM \<or> read_shutdown (sock s i) then (0, [], s)
         else if rx_size (sock s i) = 0 then (0, [], s)
         else
           let (data, x) = ring_read (sock s i) len
           in (int (length data), data, upd_sock i (\<lambda>_. x) s))"

definition local_write :: "nid \<Rightarrow> nat \<Rightarrow> byte list \<Rightarrow> 'a lsv \<Rightarrow> int \<times> 'a lsv" where
  "local_write n offset data s =
    (case socket_from_node s (Some n) of
       None \<Rightarrow> (0, s)
     | Some i \<Rightarrow>
         if ls_type (sock s i) \<noteq> SOCK_STREAM \<or> write_shutdown (sock s i) then (0, s)
         else if peer_index (sock s i) < 0 then (0, s)
         else
           let p = nat (peer_index (sock s i)) in
           if \<not> in_use (sock s p) \<or> read_shutdown (sock s p) then (0, s)
           else let (written, x) = ring_write (sock s p) data in (int written, upd_sock p (\<lambda>_. x) s))"

definition POLLIN_K :: nat where
  "POLLIN_K = 0x001"

definition POLLOUT_K :: nat where
  "POLLOUT_K = 0x004"

definition POLLHUP_K :: nat where
  "POLLHUP_K = 0x010"

definition local_poll :: "nid \<Rightarrow> 'a lsv \<Rightarrow> nat" where
  "local_poll n s =
    (case socket_from_node s (Some n) of
       None \<Rightarrow> 0
     | Some i \<Rightarrow>
         let x = sock s i in
         if listening x then (if pending_index x \<ge> 0 then POLLIN_K else 0)
         else
           let events = (if rx_size x > 0 \<or> peer_closed x then POLLIN_K else 0);
               peer = sock s (nat (peer_index x));
               events = (if \<not> write_shutdown x \<and> peer_index x \<ge> 0 \<and> in_use peer \<and> \<not> read_shutdown peer
                            \<and> rx_size peer < LOCAL_SOCKET_BUFFER_SIZE
                         then events OR POLLOUT_K else events)
           in if peer_closed x \<and> rx_size x = 0 then events OR POLLHUP_K else events)"

definition g_local_socket_ops :: "'a ls_drv_scheme vfs_ops" where
  "g_local_socket_ops =
    \<lparr>o_read = Some local_read, o_write = Some local_write, o_truncate = None, o_open = Some local_open,
     o_close = Some local_close, o_ioctl = None, o_readdir = None, o_lookup = None, o_fsync = None,
     o_poll = Some local_poll, o_refresh_metadata = None, o_append = None, o_destroy = delete_node\<rparr>"

subsection \<open>Addresses\<close>

definition AF_UNIX_K :: nat where
  "AF_UNIX_K = 1"

definition NAMESPACE_FILESYSTEM :: nat where
  "NAMESPACE_FILESYSTEM = 1"

definition NAMESPACE_ABSTRACT :: nat where
  "NAMESPACE_ABSTRACT = 2"

record sockaddr_un_k =
  sun_family :: nat
  sun_path :: "byte list"

definition valid_socket_type :: "int \<Rightarrow> bool" where
  "valid_socket_type ty \<longleftrightarrow> ty = int SOCK_STREAM \<or> ty = 2 \<or> ty = 3"

definition valid_address :: "unix_ipc_address \<Rightarrow> bool" where
  "valid_address a \<longleftrightarrow>
     ua_family a = AF_UNIX_K \<and>
     (ua_namespace_kind a = NAMESPACE_FILESYSTEM \<or> ua_namespace_kind a = NAMESPACE_ABSTRACT) \<and>
     ua_path_length a \<le> PATH_MAX"

definition address_equal :: "unix_ipc_address \<Rightarrow> unix_ipc_address \<Rightarrow> bool" where
  "address_equal lhs rhs \<longleftrightarrow>
     ua_family lhs = ua_family rhs \<and> ua_namespace_kind lhs = ua_namespace_kind rhs \<and>
     ua_path_length lhs = ua_path_length rhs \<and>
     take (ua_path_length lhs) (ua_path lhs) = take (ua_path_length lhs) (ua_path rhs)"

definition copy_address :: "unix_ipc_address \<Rightarrow> unix_ipc_address" where
  "copy_address src =
    zero_address\<lparr>ua_family := ua_family src, ua_namespace_kind := ua_namespace_kind src,
      ua_path_length := ua_path_length src,
      ua_path := memcpy_at (replicate PATH_MAX 0) 0 (take (ua_path_length src) (ua_path src))\<rparr>"

definition translate_address_in :: "sockaddr_un_k option \<Rightarrow> nat \<Rightarrow> unix_ipc_address option" where
  "translate_address_in addr addrlen =
    (case addr of None \<Rightarrow> None | Some un \<Rightarrow>
     if addrlen < 2 then None
     else if sun_family un \<noteq> AF_UNIX_K then None
     else
       let out = zero_address\<lparr>ua_family := AF_UNIX_K\<rparr>;
           path_len = (if addrlen - 2 > PATH_MAX then PATH_MAX else addrlen - 2)
       in if path_len > 0 \<and> sun_path un ! 0 = 0 then
            let out = out\<lparr>ua_namespace_kind := NAMESPACE_ABSTRACT\<rparr> in
            Some (if path_len > 1
                  then out\<lparr>ua_path_length := path_len - 1,
                           ua_path := memcpy_at (ua_path out) 0 (take (path_len - 1) (drop 1 (sun_path un)))\<rparr>
                  else out)
          else
            let name = takeWhile (\<lambda>c. c \<noteq> 0) (take path_len (sun_path un)) in
            if length name = 0 then None
            else Some (out\<lparr>ua_namespace_kind := NAMESPACE_FILESYSTEM, ua_path_length := length name,
                           ua_path := memcpy_at (ua_path out) 0 name\<rparr>))"

text \<open>\<open>addr\<close> and \<open>addrlen\<close> say whether the caller passed the pointers; the results are what is stored
  through them.\<close>

definition translate_address_out ::
  "unix_ipc_address option \<Rightarrow> bool \<Rightarrow> bool \<Rightarrow> int \<times> sockaddr_un_k option \<times> nat option" where
  "translate_address_out a addr addrlen =
    (if \<not> addrlen then (-1, None, None)
     else if (case a of None \<Rightarrow> False | Some a \<Rightarrow> ua_path_length a + 1 > PATH_MAX) then (-1, None, None)
     else
       let total_len = (case a of None \<Rightarrow> 2 | Some a \<Rightarrow> 2 + (ua_path_length a + 1));
           path = replicate PATH_MAX 0;
           path = (case a of
                     None \<Rightarrow> path
                   | Some a \<Rightarrow>
                       if ua_namespace_kind a = NAMESPACE_ABSTRACT
                       then memcpy_at path 1 (take (ua_path_length a) (ua_path a))
                       else (memcpy_at path 0 (take (ua_path_length a) (ua_path a)))[ua_path_length a := 0])
       in (0, if addr then Some \<lparr>sun_family = AF_UNIX_K, sun_path = path\<rparr> else None, Some total_len))"

subsection \<open>The pool\<close>

definition alloc_socket_slot :: "'a lsv \<Rightarrow> int \<times> 'a lsv" where
  "alloc_socket_slot s =
    (case find (\<lambda>i. \<not> in_use (sock s i)) [0..<LOCAL_SOCKET_POOL_SIZE] of
       None \<Rightarrow> (-1, s)
     | Some i \<Rightarrow>
         (int i,
          upd_node (sock_nid s i) (\<lambda>v. v\<lparr>n_ops := Some LOCAL_OPS\<rparr>)
            (upd_sock i (\<lambda>x. x\<lparr>in_use := True, refcount := 1\<rparr>) (reset_socket i s))))"

definition address_in_use :: "'a lsv \<Rightarrow> unix_ipc_address \<Rightarrow> bool" where
  "address_in_use s a \<longleftrightarrow>
     list_ex (\<lambda>i. in_use (sock s i) \<and> has_address (sock s i) \<and> address_equal (address (sock s i)) a)
       [0..<LOCAL_SOCKET_POOL_SIZE]"

definition find_listener :: "'a lsv \<Rightarrow> unix_ipc_address \<Rightarrow> nat \<Rightarrow> nat option" where
  "find_listener s a ty =
     find (\<lambda>i. in_use (sock s i) \<and> listening (sock s i) \<and> has_address (sock s i) \<and> ls_type (sock s i) = ty
               \<and> address_equal (address (sock s i)) a)
       [0..<LOCAL_SOCKET_POOL_SIZE]"

definition install_new_socket_fd :: "bool \<Rightarrow> nat \<Rightarrow> 'a lsv \<Rightarrow> int \<times> 'a lsv" where
  "install_new_socket_fd mem slot s =
    (let (fd, s) = alloc_fd mem (Some (sock_nid s slot)) s
     in if fd < 0 then (fd, release_socket_index (int slot) s) else (fd, s))"

definition create_unconnected_socket :: "bool \<Rightarrow> int \<Rightarrow> 'a lsv \<Rightarrow> int \<times> 'a lsv" where
  "create_unconnected_socket mem ty s =
    (if \<not> valid_socket_type ty then (-1, s)
     else
       let (slot, s) = alloc_socket_slot s in
       if slot < 0 then (-1, s)
       else install_new_socket_fd mem (nat slot) (upd_sock (nat slot) (\<lambda>x. x\<lparr>ls_type := nat ty\<rparr>) s))"

text \<open>The response is the pair of descriptors; \<open>mem1\<close> and \<open>mem2\<close> are the outcomes of the two table
  allocations.\<close>

definition handle_socketpair ::
  "'a ls_drv_scheme optab \<Rightarrow> bool \<Rightarrow> bool \<Rightarrow> 32 word option \<Rightarrow> bool \<Rightarrow> 'a lsv \<Rightarrow> int \<times> (int \<times> int) option \<times> 'a lsv" where
  "handle_socketpair tbl mem1 mem2 request response s =
    (case request of None \<Rightarrow> (-1, None, s) | Some ty \<Rightarrow>
     if \<not> response then (-1, None, s)
     else
       let ty = unat (ty AND NOT 0x80000) in
       if ty \<noteq> SOCK_STREAM then (-1, None, s)
       else
         let (first, s) = alloc_socket_slot s in
         if first < 0 then (-1, None, s)
         else
           let (second, s) = alloc_socket_slot s in
           if second < 0 then (-1, None, release_socket_index first s)
           else
             let s = upd_sock (nat first) (\<lambda>x. x\<lparr>ls_type := ty, peer_index := second\<rparr>) s;
                 s = upd_sock (nat second) (\<lambda>x. x\<lparr>ls_type := ty, peer_index := first\<rparr>) s;
                 (first_fd, s) = install_new_socket_fd mem1 (nat first) s
             in if first_fd < 0 then (-1, None, release_socket_index second s)
                else
                  let (second_fd, s) = install_new_socket_fd mem2 (nat second) s in
                  if second_fd < 0 then (-1, None, snd (vfs_sys_close tbl first_fd s))
                  else (0, Some (first_fd, second_fd), s))"

definition handle_shutdown :: "nat option \<Rightarrow> int \<Rightarrow> 'a lsv \<Rightarrow> int \<times> 'a lsv" where
  "handle_shutdown i how s =
    (case i of None \<Rightarrow> (-1, s) | Some i \<Rightarrow>
     let s = (if how = 0 \<or> how = 2 then upd_sock i (\<lambda>x. x\<lparr>read_shutdown := True\<rparr>) s else s);
         s = (if how = 1 \<or> how = 2 then upd_sock i (\<lambda>x. x\<lparr>write_shutdown := True\<rparr>) s else s)
     in (0, s))"


subsection \<open>System calls\<close>

definition local_sys_socket :: "bool \<Rightarrow> int \<Rightarrow> int \<Rightarrow> 'a lsv \<Rightarrow> int \<times> 'a lsv" where
  "local_sys_socket mem ty protocol s = (if protocol \<noteq> 0 then (-1, s) else create_unconnected_socket mem ty s)"

definition bind_address :: "nat option \<Rightarrow> unix_ipc_address option \<Rightarrow> 'a lsv \<Rightarrow> int \<times> 'a lsv" where
  "bind_address i a s =
    (case i of None \<Rightarrow> (-1, s) | Some i \<Rightarrow>
     case a of None \<Rightarrow> (-1, s) | Some a \<Rightarrow>
     if \<not> valid_address a \<or> has_address (sock s i) \<or> address_in_use s a then (-1, s)
     else (0, upd_sock i (\<lambda>x. x\<lparr>address := copy_address a, has_address := True\<rparr>) s))"

definition local_sys_bind :: "int \<Rightarrow> sockaddr_un_k option \<Rightarrow> nat \<Rightarrow> 'a lsv \<Rightarrow> int \<times> 'a lsv" where
  "local_sys_bind sockfd addr addrlen s =
    bind_address (socket_from_fd s sockfd) (translate_address_in addr addrlen) s"

definition local_sys_listen :: "int \<Rightarrow> int \<Rightarrow> 'a lsv \<Rightarrow> int \<times> 'a lsv" where
  "local_sys_listen sockfd backlog s =
    (case socket_from_fd s sockfd of None \<Rightarrow> (-1, s) | Some i \<Rightarrow>
     if \<not> has_address (sock s i) \<or> ls_type (sock s i) \<noteq> SOCK_STREAM then (-1, s)
     else
       (0, upd_node (sock_nid s i) (\<lambda>v. v\<lparr>n_flags := (if backlog < 0 then 0 else nat backlog mod 2 ^ 16)\<rparr>)
             (upd_sock i (\<lambda>x. x\<lparr>listening := True\<rparr>) s)))"

definition local_sys_accept ::
  "bool \<Rightarrow> int \<Rightarrow> bool \<Rightarrow> bool \<Rightarrow> 'a lsv \<Rightarrow> int \<times> sockaddr_un_k option \<times> nat option \<times> 'a lsv" where
  "local_sys_accept mem sockfd addr addrlen s =
    (case socket_from_fd s sockfd of None \<Rightarrow> (-1, None, None, s) | Some l \<Rightarrow>
     if \<not> listening (sock s l) \<or> pending_index (sock s l) < 0 then (-1, None, None, s)
     else
       let child = pending_index (sock s l);
           s = upd_sock l (\<lambda>x. x\<lparr>pending_index := -1\<rparr>) s;
           (fd, s) = alloc_fd mem (Some (sock_nid s (nat child))) s
       in if fd < 0 then (-1, None, None, release_socket_index child s)
          else if addrlen then
            let (r, a, len) = translate_address_out None addr addrlen
            in (if r < 0 then -1 else fd, a, len, s)
          else (fd, None, None, s))"

text \<open>The server end of a new connection, waiting at the listener \<open>l\<close> for the client \<open>c\<close>.\<close>

definition attach_server :: "nat \<Rightarrow> nat \<Rightarrow> nat \<Rightarrow> 'a lsv \<Rightarrow> 'a lsv" where
  "attach_server server c l s =
    (let s = upd_sock server
               (\<lambda>x. x\<lparr>ls_type := ls_type (sock s c), peer_index := int c, has_address := has_address (sock s l)\<rparr>) s;
         s = (if has_address (sock s server)
              then upd_sock server (\<lambda>x. x\<lparr>address := copy_address (address (sock s l))\<rparr>) s else s);
         s = upd_sock c (\<lambda>x. x\<lparr>peer_index := int server, peer_closed := False\<rparr>) s
     in upd_sock l (\<lambda>x. x\<lparr>pending_index := int server\<rparr>) s)"

definition connect_address :: "nat option \<Rightarrow> unix_ipc_address option \<Rightarrow> 'a lsv \<Rightarrow> int \<times> 'a lsv" where
  "connect_address client a s =
    (case client of None \<Rightarrow> (-1, s) | Some c \<Rightarrow>
     case a of None \<Rightarrow> (-1, s) | Some a \<Rightarrow>
     if ls_type (sock s c) \<noteq> SOCK_STREAM \<or> peer_index (sock s c) \<ge> 0 \<or> \<not> valid_address a then (-1, s)
     else
       case find_listener s a (ls_type (sock s c)) of None \<Rightarrow> (-1, s) | Some l \<Rightarrow>
       if pending_index (sock s l) \<ge> 0 then (-1, s)
       else
         let (server, s) = alloc_socket_slot s in
         if server < 0 then (-1, s) else (0, attach_server (nat server) c l s))"

definition local_sys_connect :: "int \<Rightarrow> sockaddr_un_k option \<Rightarrow> nat \<Rightarrow> 'a lsv \<Rightarrow> int \<times> 'a lsv" where
  "local_sys_connect sockfd addr addrlen s =
    connect_address (socket_from_fd s sockfd) (translate_address_in addr addrlen) s"

definition local_sys_send :: "int \<Rightarrow> byte list option \<Rightarrow> 'a lsv \<Rightarrow> int \<times> 'a lsv" where
  "local_sys_send sockfd buf s =
    (case socket_from_fd s sockfd of None \<Rightarrow> (-1, s) | Some i \<Rightarrow>
     case buf of None \<Rightarrow> (-1, s) | Some data \<Rightarrow>
     if ls_type (sock s i) \<noteq> SOCK_STREAM \<or> write_shutdown (sock s i) \<or> peer_index (sock s i) < 0 then (-1, s)
     else
       let p = nat (peer_index (sock s i)) in
       if \<not> in_use (sock s p) \<or> read_shutdown (sock s p) then (-1, s)
       else
         let (written, x) = ring_write (sock s p) data; s = upd_sock p (\<lambda>_. x) s in
         if written = 0 \<and> length data \<noteq> 0 then (-1, s) else (int written, s))"

definition local_sys_recv :: "int \<Rightarrow> bool \<Rightarrow> nat \<Rightarrow> 'a lsv \<Rightarrow> int \<times> byte list \<times> 'a lsv" where
  "local_sys_recv sockfd buf len s =
    (case socket_from_fd s sockfd of None \<Rightarrow> (-1, [], s) | Some i \<Rightarrow>
     if \<not> buf \<or> ls_type (sock s i) \<noteq> SOCK_STREAM \<or> read_shutdown (sock s i) then (-1, [], s)
     else if len = 0 then (0, [], s)
     else if rx_size (sock s i) = 0 then (if peer_closed (sock s i) then 0 else -1, [], s)
     else
       let (data, x) = ring_read (sock s i) len
       in (int (length data), data, upd_sock i (\<lambda>_. x) s))"

definition local_sys_shutdown :: "int \<Rightarrow> int \<Rightarrow> 'a lsv \<Rightarrow> int \<times> 'a lsv" where
  "local_sys_shutdown sockfd how s = handle_shutdown (socket_from_fd s sockfd) how s"

definition handles_fd :: "int \<Rightarrow> 'a lsv \<Rightarrow> bool" where
  "handles_fd sockfd s \<longleftrightarrow> socket_from_fd s sockfd \<noteq> None"

definition local_sys_setsockopt :: "int \<Rightarrow> 'a lsv \<Rightarrow> int" where
  "local_sys_setsockopt sockfd s = (if handles_fd sockfd s then 0 else -1)"

text \<open>\<open>optlen\<close> is the value behind the length pointer; the result has what is stored through the two.\<close>

definition local_sys_getsockopt :: "int \<Rightarrow> bool \<Rightarrow> nat option \<Rightarrow> 'a lsv \<Rightarrow> int \<times> (nat \<times> nat) option" where
  "local_sys_getsockopt sockfd optval optlen s =
    (if \<not> handles_fd sockfd s then (-1, None)
     else if optval \<and> (case optlen of None \<Rightarrow> False | Some l \<Rightarrow> l \<ge> 4) then (0, Some (0, 4))
     else (0, None))"

definition local_sys_getsockname ::
  "int \<Rightarrow> bool \<Rightarrow> bool \<Rightarrow> 'a lsv \<Rightarrow> int \<times> sockaddr_un_k option \<times> nat option" where
  "local_sys_getsockname sockfd addr addrlen s =
    (case socket_from_fd s sockfd of None \<Rightarrow> (-1, None, None) | Some i \<Rightarrow>
     if \<not> addrlen then (-1, None, None)
     else translate_address_out (if has_address (sock s i) then Some (address (sock s i)) else None) addr addrlen)"

definition local_sys_getpeername ::
  "int \<Rightarrow> bool \<Rightarrow> bool \<Rightarrow> 'a lsv \<Rightarrow> int \<times> sockaddr_un_k option \<times> nat option" where
  "local_sys_getpeername sockfd addr addrlen s =
    (case socket_from_fd s sockfd of None \<Rightarrow> (-1, None, None) | Some i \<Rightarrow>
     if \<not> addrlen then (-1, None, None)
     else if peer_index (sock s i) < 0 then (-1, None, None)
     else
       let peer = sock s (nat (peer_index (sock s i)))
       in translate_address_out (if has_address peer then Some (address peer) else None) addr addrlen)"

definition local_poll_fd :: "int \<Rightarrow> 'a lsv \<Rightarrow> nat" where
  "local_poll_fd sockfd s =
    (case socket_from_fd s sockfd of None \<Rightarrow> 0 | Some i \<Rightarrow> local_poll (sock_nid s i) s)"

text \<open>\<open>sys_unix_ipc\<close>: the operation with the structures its arguments point to, and what the call
  returns or stores.\<close>

datatype unix_ipc_call =
    Op_Socket "32 word option"
  | Op_Bind int "unix_ipc_address option"
  | Op_Listen int "32 word option"
  | Op_Accept int bool
  | Op_Connect int "unix_ipc_address option"
  | Op_Socketpair "32 word option" bool
  | Op_Shutdown int "32 word option"
  | Op_Sendmsg int "byte list option"
  | Op_Recvmsg int bool nat
  | Op_Unknown

record unix_ipc_reply =
  r_value :: int
  r_pair :: "(int \<times> int) option"
  r_data :: "byte list"

definition reply :: "int \<times> 's \<Rightarrow> unix_ipc_reply \<times> 's" where
  "reply p = (\<lparr>r_value = fst p, r_pair = None, r_data = []\<rparr>, snd p)"

fun sys_unix_ipc ::
  "'a ls_drv_scheme optab \<Rightarrow> bool \<Rightarrow> bool \<Rightarrow> unix_ipc_call \<Rightarrow> 'a lsv \<Rightarrow> unix_ipc_reply \<times> 'a lsv" where
  "sys_unix_ipc tbl mem1 mem2 (Op_Socket request) s =
    reply (case request of None \<Rightarrow> (-1, s) | Some ty \<Rightarrow> local_sys_socket mem1 (sint ty) 0 s)"
| "sys_unix_ipc tbl mem1 mem2 (Op_Bind fd a) s = reply (bind_address (socket_from_fd s fd) a s)"
| "sys_unix_ipc tbl mem1 mem2 (Op_Listen fd request) s =
    reply (case request of None \<Rightarrow> (-1, s) | Some backlog \<Rightarrow> local_sys_listen fd (sint backlog) s)"
| "sys_unix_ipc tbl mem1 mem2 (Op_Accept fd addr) s =
    (case local_sys_accept mem1 fd addr False s of (fd, _, _, s) \<Rightarrow> reply (fd, s))"
| "sys_unix_ipc tbl mem1 mem2 (Op_Connect fd a) s = reply (connect_address (socket_from_fd s fd) a s)"
| "sys_unix_ipc tbl mem1 mem2 (Op_Socketpair request response) s =
    (case handle_socketpair tbl mem1 mem2 request response s of
       (r, pair, s) \<Rightarrow> (\<lparr>r_value = r, r_pair = pair, r_data = []\<rparr>, s))"
| "sys_unix_ipc tbl mem1 mem2 (Op_Shutdown fd request) s =
    reply (case request of None \<Rightarrow> (-1, s) | Some how \<Rightarrow> local_sys_shutdown fd (sint how) s)"
| "sys_unix_ipc tbl mem1 mem2 (Op_Sendmsg fd buf) s = reply (local_sys_send fd buf s)"
| "sys_unix_ipc tbl mem1 mem2 (Op_Recvmsg fd buf len) s =
    (case local_sys_recv fd buf len s of (r, data, s) \<Rightarrow> (\<lparr>r_value = r, r_pair = None, r_data = data\<rparr>, s))"
| "sys_unix_ipc tbl mem1 mem2 Op_Unknown s = reply (-1, s)"


section \<open>The receive ring\<close>

definition ring_ok :: "local_socket \<Rightarrow> bool" where
  "ring_ok x \<longleftrightarrow>
     length (rx_buffer x) = LOCAL_SOCKET_BUFFER_SIZE \<and> rx_head x < LOCAL_SOCKET_BUFFER_SIZE \<and>
     rx_size x \<le> LOCAL_SOCKET_BUFFER_SIZE \<and> rx_tail x = (rx_head x + rx_size x) mod LOCAL_SOCKET_BUFFER_SIZE"

definition rx_content :: "local_socket \<Rightarrow> byte list" where
  "rx_content x = ring_content (rx_buffer x) (rx_head x) (rx_size x)"

lemma buffer_size_pos [simp]: "0 < LOCAL_SOCKET_BUFFER_SIZE"
  by (simp add: LOCAL_SOCKET_BUFFER_SIZE_def)

lemma length_rx_content [simp]: "length (rx_content x) = rx_size x"
  by (simp add: rx_content_def)

lemma ring_write_content:
  assumes "ring_ok x"
  shows "ring_write x d = (min (length d) (LOCAL_SOCKET_BUFFER_SIZE - rx_size x), snd (ring_write x d))"
    and "ring_ok (snd (ring_write x d))"
    and "rx_content (snd (ring_write x d)) = rx_content x @ take (LOCAL_SOCKET_BUFFER_SIZE - rx_size x) d"
proof -
  let ?N = LOCAL_SOCKET_BUFFER_SIZE
  define n where "n = min (length d) (?N - rx_size x)"
  define first where "first = min n (?N - rx_tail x)"
  define buf where "buf = memcpy_at (memcpy_at (rx_buffer x) (rx_tail x) (take first d)) 0 (take (n - first) (drop first d))"
  have inv: "length (rx_buffer x) = ?N" "rx_head x < ?N" "rx_size x \<le> ?N" "rx_tail x = (rx_head x + rx_size x) mod ?N"
    using assms by (simp_all add: ring_ok_def)
  have run: "ring_write x d =
      (n, x\<lparr>rx_buffer := buf, rx_tail := (rx_tail x + n) mod ?N, rx_size := rx_size x + n\<rparr>)"
  proof (cases "rx_size x = ?N")
    case True
    have "rx_tail x < ?N"
      using inv(4) by simp
    then show ?thesis
      using True inv(3) by (simp add: ring_write_def n_def first_def buf_def memcpy_at_Nil)
  next
    case False
    then have "?N - rx_size x \<noteq> 0"
      using inv(3) by simp
    then show ?thesis
      by (simp add: ring_write_def Let_def n_def first_def buf_def min_def)
  qed
  have tail: "rx_tail x < ?N"
    using inv(4) by simp
  have bounds: "n \<le> length d" "rx_size x + n \<le> ?N" "first \<le> n" "rx_tail x + first \<le> ?N" "n - first \<le> ?N"
    using inv(3) tail by (auto simp: n_def first_def)
  have len: "length buf = ?N"
    using bounds inv(1) by (simp add: buf_def)
  show "ring_write x d = (min (length d) (?N - rx_size x), snd (ring_write x d))"
    by (simp add: run n_def)
  show "ring_ok (snd (ring_write x d))"
    using inv bounds len by (simp add: run ring_ok_def mod_add_left_eq add.assoc)
  have "rx_content (snd (ring_write x d)) = rx_content x @ take n d"
    using ring_content_copy [of "rx_head x" "rx_buffer x" "rx_size x" n d "rx_tail x" first] inv bounds
    by (simp add: run rx_content_def buf_def first_def)
  then show "rx_content (snd (ring_write x d)) = rx_content x @ take (?N - rx_size x) d"
    by (simp add: n_def min_def)
qed

lemma ring_read_content:
  assumes "ring_ok x"
  shows "fst (ring_read x k) = take k (rx_content x)"
    and "ring_ok (snd (ring_read x k))"
    and "rx_content (snd (ring_read x k)) = drop k (rx_content x)"
proof -
  let ?N = LOCAL_SOCKET_BUFFER_SIZE
  define n where "n = min k (rx_size x)"
  define first where "first = min n (?N - rx_head x)"
  have inv: "length (rx_buffer x) = ?N" "rx_head x < ?N" "rx_size x \<le> ?N" "rx_tail x = (rx_head x + rx_size x) mod ?N"
    using assms by (simp_all add: ring_ok_def)
  have run: "ring_read x k =
      (take first (drop (rx_head x) (rx_buffer x)) @ take (n - first) (rx_buffer x),
       x\<lparr>rx_head := (rx_head x + n) mod ?N, rx_size := rx_size x - n\<rparr>)"
    by (auto simp: ring_read_def Let_def n_def first_def min_def)
  have n: "n \<le> rx_size x"
    by (simp add: n_def)
  have same: "take n (rx_content x) = take k (rx_content x)" "drop n (rx_content x) = drop k (rx_content x)"
    by (simp_all add: n_def min_def)
  show "fst (ring_read x k) = take k (rx_content x)"
    using ring_content_take [of "rx_head x" "rx_buffer x" n "rx_size x" first] inv n same(1)
    by (simp add: run rx_content_def first_def)
  have "((rx_head x + n) mod ?N + (rx_size x - n)) mod ?N = (rx_head x + rx_size x) mod ?N"
    using n mod_add_left_eq [of "rx_head x + n" ?N "rx_size x - n"] by simp
  then show "ring_ok (snd (ring_read x k))"
    using inv n by (simp add: run ring_ok_def)
  show "rx_content (snd (ring_read x k)) = drop k (rx_content x)"
    using ring_content_advance [of n "rx_size x" "rx_buffer x" "rx_head x"] inv(1) n same(2)
    by (simp add: run rx_content_def)
qed

interpretation unix_ring: bounded_fifo ring_ok rx_content LOCAL_SOCKET_BUFFER_SIZE
  "\<lambda>d x. ring_write x d" "\<lambda>k x. ring_read x k"
proof unfold_locales
  show "length (rx_content x) \<le> LOCAL_SOCKET_BUFFER_SIZE" if "ring_ok x" for x
    using that by (simp add: ring_ok_def)
next
  fix x d n y
  assume ok: "ring_ok x" and "ring_write x d = (n, y)"
  then have "n = min (length d) (LOCAL_SOCKET_BUFFER_SIZE - rx_size x)" and y: "y = snd (ring_write x d)"
    using ring_write_content(1) [OF ok, of d] by simp_all
  then show "ring_ok y \<and> n = min (length d) (LOCAL_SOCKET_BUFFER_SIZE - length (rx_content x)) \<and>
      rx_content y = rx_content x @ take n d"
    using ring_write_content(2,3) [OF ok, of d] by (simp add: min_def)
next
  fix x k d y
  assume ok: "ring_ok x" and "ring_read x k = (d, y)"
  then show "ring_ok y \<and> d = take k (rx_content x) \<and> rx_content y = drop k (rx_content x)"
    using ring_read_content [OF ok, of k] by simp
qed

lemma ring_write_same [simp]:
  "in_use (snd (ring_write x d)) = in_use x" "peer_index (snd (ring_write x d)) = peer_index x"
  by (simp_all add: ring_write_def Let_def)

lemma ring_read_same [simp]:
  "in_use (snd (ring_read x k)) = in_use x" "peer_index (snd (ring_read x k)) = peer_index x"
  by (simp_all add: ring_read_def Let_def)


section \<open>Connections\<close>

text \<open>Two sockets are connected both ways or not at all, and only live sockets are.\<close>

definition linked :: "local_socket list \<Rightarrow> nat \<Rightarrow> bool" where
  "linked xs i \<longleftrightarrow>
     in_use (xs ! i) \<longrightarrow> peer_index (xs ! i) = -1 \<or>
       (\<exists>j < length xs. peer_index (xs ! i) = int j \<and> in_use (xs ! j) \<and> peer_index (xs ! j) = int i)"

definition pool_ok :: "local_socket list \<Rightarrow> bool" where
  "pool_ok xs \<longleftrightarrow>
     length xs = LOCAL_SOCKET_POOL_SIZE \<and> (\<forall>i < length xs. ring_ok (xs ! i)) \<and> (\<forall>i < length xs. linked xs i)"

definition socks :: "'a lsv \<Rightarrow> local_socket list" where
  "socks s = sockets (drv s)"

lemma socks_simps [simp]:
  "socks (upd_sock i f s) = (socks s)[i := f (socks s ! i)]"
  "socks (upd_node n g s) = socks s"
  "socks (s\<lparr>tables := ts\<rparr>) = socks s"
  "socks (s\<lparr>nodes := ns\<rparr>) = socks s"
  "socks (reset_socket i s) = (socks s)[i := zero_socket]"
  by (simp_all add: socks_def upd_sock_def upd_node_def reset_socket_def)

lemma sock_socks: "sock s i = socks s ! i"
  by (simp add: sock_def socks_def)

lemma zero_socket_simps [simp]:
  "\<not> in_use zero_socket" "peer_index zero_socket = -1" "pending_index zero_socket = -1" "ring_ok zero_socket"
  "rx_content zero_socket = []" "peer_closed zero_socket = False"
  by (simp_all add: zero_socket_def ring_ok_def rx_content_def ring_content_def)

lemma pool_ok_update:
  assumes "pool_ok xs" and "i < length xs \<Longrightarrow> in_use y = in_use (xs ! i)"
    and "i < length xs \<Longrightarrow> peer_index y = peer_index (xs ! i)" and "i < length xs \<Longrightarrow> ring_ok y"
  shows "pool_ok (xs[i := y])"
proof (cases "i < length xs")
  case True
  have same: "in_use (xs[i := y] ! k) = in_use (xs ! k)" "peer_index (xs[i := y] ! k) = peer_index (xs ! k)" for k
    using assms(2,3) True by (simp_all add: nth_list_update)
  have "linked (xs[i := y]) k = linked xs k" for k
    by (simp add: linked_def same)
  moreover have "ring_ok (xs[i := y] ! k)" if "k < length xs" for k
  proof -
    have "ring_ok (xs ! k)"
      using that assms(1) by (simp add: pool_ok_def)
    then show ?thesis
      using that True assms(4) [OF True] by (simp add: nth_list_update)
  qed
  ultimately show ?thesis
    using assms(1) by (simp add: pool_ok_def)
qed (use assms in \<open>simp add: list_update_beyond\<close>)

lemma linked_peer:
  assumes "pool_ok xs" and "i < length xs" and "in_use (xs ! i)" and "peer_index (xs ! i) \<ge> 0"
  shows "nat (peer_index (xs ! i)) < length xs" "in_use (xs ! nat (peer_index (xs ! i)))"
    "peer_index (xs ! nat (peer_index (xs ! i))) = int i"
  using assms by (auto simp: pool_ok_def linked_def)

text \<open>A socket taken out of use, its peer detached.\<close>

lemma pool_ok_detach:
  assumes ok: "pool_ok xs" and i: "i < length xs" and y: "\<not> in_use y" "ring_ok y"
    and p: "\<And>p. p < length xs \<Longrightarrow> p \<noteq> i \<Longrightarrow> in_use (xs ! p) \<Longrightarrow> peer_index (xs ! p) = int i \<Longrightarrow> peer_index (ys ! p) = -1"
    and same: "\<And>k. k < length xs \<Longrightarrow> k \<noteq> i \<Longrightarrow> in_use (ys ! k) = in_use (xs ! k) \<and> ring_ok (ys ! k)"
    and keep: "\<And>k. k < length xs \<Longrightarrow> k \<noteq> i \<Longrightarrow> peer_index (ys ! k) = peer_index (xs ! k) \<or> peer_index (ys ! k) = -1 \<and> peer_index (xs ! k) = int i"
    and ys: "length ys = length xs" "ys ! i = y"
  shows "pool_ok ys"
  unfolding pool_ok_def
proof (intro conjI allI impI)
  show "length ys = LOCAL_SOCKET_POOL_SIZE"
    using ok ys by (simp add: pool_ok_def)
  show "ring_ok (ys ! k)" if "k < length ys" for k
    using that same y ys by (cases "k = i") auto
  fix k assume k: "k < length ys"
  then have ki: "k < length xs"
    by (simp add: ys)
  show "linked ys k"
  proof (cases "k = i \<or> \<not> in_use (xs ! k) \<or> peer_index (xs ! k) = int i \<or> peer_index (xs ! k) = -1")
    case True
    then have "k = i \<or> k \<noteq> i \<and> (\<not> in_use (ys ! k) \<or> peer_index (ys ! k) = -1)"
      using same [OF ki] p [OF ki] keep [OF ki] by auto
    then show ?thesis
      using y(1) ys(2) by (auto simp: linked_def)
  next
    case False
    then obtain j where j: "j < length xs" "peer_index (xs ! k) = int j" "in_use (xs ! j)" "peer_index (xs ! j) = int k"
      using ok k ys by (auto simp: pool_ok_def linked_def)
    have "j \<noteq> i" "k \<noteq> i"
      using False j by auto
    then have "peer_index (ys ! k) = int j" "in_use (ys ! j)" "peer_index (ys ! j) = int k"
      using keep [of k] keep [of j] same [of j] j k ys False by auto
    then show ?thesis
      using j(1) ys by (auto simp: linked_def)
  qed
qed

lemma socks_detach:
  "socks (detach_peer i p s) =
    (if valid_index p \<and> in_use (socks s ! nat p) \<and> peer_index (socks s ! nat p) = int i
     then (socks s)[nat p := (socks s ! nat p)\<lparr>peer_index := -1, peer_closed := True\<rparr>] else socks s)"
  by (simp add: detach_peer_def sock_socks)

lemma ring_ok_simps [simp]:
  "ring_ok (x\<lparr>peer_index := a\<rparr>) = ring_ok x" "ring_ok (x\<lparr>peer_closed := b\<rparr>) = ring_ok x"
  "ring_ok (x\<lparr>in_use := b\<rparr>) = ring_ok x" "ring_ok (x\<lparr>refcount := n\<rparr>) = ring_ok x"
  "ring_ok (x\<lparr>pending_index := a\<rparr>) = ring_ok x" "ring_ok (x\<lparr>ls_type := n\<rparr>) = ring_ok x"
  "ring_ok (x\<lparr>has_address := b\<rparr>) = ring_ok x" "ring_ok (x\<lparr>address := ad\<rparr>) = ring_ok x"
  "ring_ok (x\<lparr>listening := b\<rparr>) = ring_ok x" "ring_ok (x\<lparr>read_shutdown := b\<rparr>) = ring_ok x"
  "ring_ok (x\<lparr>write_shutdown := b\<rparr>) = ring_ok x"
  by (simp_all add: ring_ok_def)

lemma pool_ok_unuse:
  assumes ok: "pool_ok (socks s)" and i: "i < length (socks s)" and use: "in_use (socks s ! i)"
  shows "pool_ok (socks (detach_peer i (peer_index (socks s ! i)) (upd_sock i (\<lambda>x. x\<lparr>in_use := False, refcount := 0\<rparr>) s)))"
    (is "pool_ok (socks (detach_peer i ?p ?s))")
proof (rule pool_ok_detach [OF ok i, where y = "(socks s ! i)\<lparr>in_use := False, refcount := 0\<rparr>"])
  show "ring_ok ((socks s ! i)\<lparr>in_use := False, refcount := 0\<rparr>)"
    using ok i by (simp add: pool_ok_def)
  show "length (socks (detach_peer i ?p ?s)) = length (socks s)"
    by (simp add: socks_detach)
  show "socks (detach_peer i ?p ?s) ! i = (socks s ! i)\<lparr>in_use := False, refcount := 0\<rparr>"
    using i by (simp add: socks_detach nth_list_update)
  fix k assume k: "k < length (socks s)" "k \<noteq> i"
  have "ring_ok (socks s ! k)"
    using ok k(1) by (simp add: pool_ok_def)
  then show "in_use (socks (detach_peer i ?p ?s) ! k) = in_use (socks s ! k) \<and> ring_ok (socks (detach_peer i ?p ?s) ! k)"
    using k i by (cases "nat ?p < length (socks s)") (auto simp: socks_detach nth_list_update)
  show "peer_index (socks (detach_peer i ?p ?s) ! k) = peer_index (socks s ! k) \<or>
      peer_index (socks (detach_peer i ?p ?s) ! k) = -1 \<and> peer_index (socks s ! k) = int i"
    using k i by (cases "nat ?p < length (socks s)") (auto simp: socks_detach nth_list_update)
  show "peer_index (socks (detach_peer i ?p ?s) ! k) = -1" if "in_use (socks s ! k)" "peer_index (socks s ! k) = int i"
  proof -
    have "?p = int k" "valid_index ?p"
      using linked_peer [OF ok k(1) that(1)] that(2) use ok k(1) by (auto simp: pool_ok_def valid_index_def)
    then show ?thesis
      using that k by (simp add: socks_detach)
  qed
qed simp

lemma pool_ok_fresh:
  assumes ok: "pool_ok xs" and i: "i < length xs" "\<not> in_use (xs ! i)" and y: "peer_index y = -1" "ring_ok y"
  shows "pool_ok (xs[i := y])"
  unfolding pool_ok_def length_list_update
proof (intro conjI allI impI)
  show "length xs = LOCAL_SOCKET_POOL_SIZE"
    using ok by (simp add: pool_ok_def)
  fix k assume k: "k < length xs"
  have "ring_ok (xs ! k)" "linked xs k"
    using ok k by (simp_all add: pool_ok_def)
  then show "ring_ok (xs[i := y] ! k)"
    using k y i(1) by (simp add: nth_list_update)
  show "linked (xs[i := y]) k"
  proof (cases "k = i")
    case False
    then show ?thesis
      using \<open>linked xs k\<close> i k by (auto simp: linked_def nth_list_update)
  qed (use i y in \<open>simp add: linked_def\<close>)
qed

lemma pool_ok_link:
  assumes ok: "pool_ok xs" and ij: "i < length xs" "j < length xs" "i \<noteq> j"
    and old: "in_use (xs ! i)" "peer_index (xs ! i) = -1" "in_use (xs ! j)" "peer_index (xs ! j) = -1"
    and y: "in_use y" "peer_index y = int j" "ring_ok y" and z: "in_use z" "peer_index z = int i" "ring_ok z"
  shows "pool_ok (xs[i := y, j := z])"
  unfolding pool_ok_def length_list_update
proof (intro conjI allI impI)
  show "length xs = LOCAL_SOCKET_POOL_SIZE"
    using ok by (simp add: pool_ok_def)
  fix k assume k: "k < length xs"
  have r: "ring_ok (xs ! k)" and l: "linked xs k"
    using ok k by (simp_all add: pool_ok_def)
  show "ring_ok (xs[i := y, j := z] ! k)"
    using k r y z ij by (simp add: nth_list_update)
  consider "k = i" | "k = j" | "k \<noteq> i" "k \<noteq> j"
    by blast
  then show "linked (xs[i := y, j := z]) k"
  proof cases
    case 3
    have "m \<noteq> i \<and> m \<noteq> j" if "peer_index (xs ! m) = int k" for m
      using that old by auto
    moreover have "xs[i := y, j := z] ! m = xs ! m" if "m \<noteq> i \<and> m \<noteq> j" for m
      using that by simp
    ultimately show ?thesis
      using l 3 unfolding linked_def by (metis length_list_update)
  qed (use ij y z in \<open>simp_all add: linked_def nth_list_update\<close>)
qed

lemma release_socket_index_pool:
  assumes "pool_ok (socks s)"
  shows "pool_ok (socks (release_socket_index index s)) \<and>
    (\<forall>k < length (socks s). \<not> in_use (socks s ! k) \<longrightarrow> \<not> in_use (socks (release_socket_index index s) ! k))"
  using assms
proof (induction index s rule: release_socket_index.induct)
  case (1 index s)
  define i where "i = nat index"
  show ?case
  proof (cases "valid_index index \<and> i < length (socks s) \<and> in_use (socks s ! i)")
    case False
    then show ?thesis
      using 1(2) by (subst (1 2) release_socket_index.simps) (auto simp: i_def sock_socks Let_def socks_def)
  next
    case True
    define pending where "pending = pending_index (sock s i)"
    define s1 where "s1 = upd_sock i (\<lambda>x. x\<lparr>in_use := False, refcount := 0\<rparr>) s"
    define s2 where "s2 = detach_peer i (peer_index (sock s i)) s1"
    define s3 where "s3 = upd_sock (nat pending) (\<lambda>x. x\<lparr>refcount := 1\<rparr>) s2"
    define s4 where "s4 = (if valid_index pending \<and> in_use (sock s2 (nat pending)) \<and> refcount (sock s2 (nat pending)) > 0
      then release_socket_index pending s3 else s2)"
    have run: "release_socket_index index s = reset_socket i s4"
      using True by (subst release_socket_index.simps)
        (simp add: i_def Let_def sock_socks socks_def pending_def s1_def s2_def s3_def s4_def)
    have ok2: "pool_ok (socks s2)"
      unfolding s2_def s1_def sock_socks using pool_ok_unuse 1(2) True by blast
    have ok3: "pool_ok (socks s3)"
      using pool_ok_update [OF ok2] ok2 by (simp add: s3_def pool_ok_def)
    have use2: "\<not> in_use (socks s2 ! k)" if "k < length (socks s)" "k = i \<or> \<not> in_use (socks s ! k)" for k
    proof -
      have "\<not> in_use (socks s1 ! k)"
        using that by (cases "k = i") (auto simp: s1_def nth_list_update)
      then show ?thesis
        by (cases "nat (peer_index (socks s ! i)) = k") (auto simp: s2_def socks_detach sock_socks)
    qed
    have len: "length (socks s2) = length (socks s)"
      by (simp add: s2_def s1_def socks_detach)
    have use3: "\<not> in_use (socks s3 ! k)" if "k < length (socks s)" "k = i \<or> \<not> in_use (socks s ! k)" for k
      using use2 [OF that] len that by (cases "nat pending = k") (auto simp: s3_def)
    have "pool_ok (socks s4) \<and> (\<forall>k < length (socks s). k = i \<or> \<not> in_use (socks s ! k) \<longrightarrow> \<not> in_use (socks s4 ! k))"
    proof (cases "valid_index pending \<and> in_use (sock s2 (nat pending)) \<and> refcount (sock s2 (nat pending)) > 0")
      case rel: True
      have "pool_ok (socks (release_socket_index pending s3)) \<and>
          (\<forall>k < length (socks s3). \<not> in_use (socks s3 ! k) \<longrightarrow> \<not> in_use (socks (release_socket_index pending s3) ! k))"
        using 1(1) [OF _ i_def _ refl pending_def s1_def s2_def rel] True ok3
        by (simp add: i_def s3_def sock_socks socks_def)
      then show ?thesis
        using use3 rel len by (simp add: s4_def s3_def)
    next
      case False
      then have "s4 = s2"
        by (simp only: s4_def if_False)
      then show ?thesis
        using ok2 use2 by simp
    qed
    then have s4: "pool_ok (socks s4)" "\<not> in_use (socks s4 ! i)"
        "\<And>k. k < length (socks s) \<Longrightarrow> \<not> in_use (socks s ! k) \<Longrightarrow> \<not> in_use (socks s4 ! k)"
      using True by blast+
    have "length (socks s4) = length (socks s)"
      using 1(2) s4(1) by (simp add: pool_ok_def)
    then show ?thesis
      unfolding run using True s4 pool_ok_fresh [of "socks s4" i zero_socket] by (simp add: nth_list_update)
  qed
qed


lemma socket_from_node_Some:
  assumes "socket_from_node s n = Some i"
  shows "i < length (socks s)" "in_use (socks s ! i)" "n = Some (sock_nid s i)" "nodes s (sock_nid s i) \<noteq> None"
    "n_ops (node s (sock_nid s i)) = Some LOCAL_OPS"
  using assms by (auto simp: socket_from_node_def sock_socks socks_def sock_nid_def Let_def split: option.splits if_splits)

lemma socket_from_fd_Some:
  assumes "socket_from_fd s fd = Some i"
  shows "i < length (socks s)" "in_use (socks s ! i)" "get_fd_node s fd = Some (sock_nid s i)"
  using socket_from_node_Some [OF assms [unfolded socket_from_fd_def]] by simp_all

lemma socks_alloc_fd [simp]: "socks (snd (alloc_fd mem n s)) = socks s"
  by (auto simp: alloc_fd_def put_fd_def retain_def Let_def split: option.splits sum.splits prod.splits)

lemma alloc_socket_slot_cases:
  assumes "pool_ok (socks s)"
  obtains (full) "alloc_socket_slot s = (-1, s)" and "\<forall>i < length (socks s). in_use (socks s ! i)"
  | (slot) i s' where "alloc_socket_slot s = (int i, s')" "i < length (socks s)" "\<not> in_use (socks s ! i)"
      "socks s' = (socks s)[i := zero_socket\<lparr>in_use := True, refcount := 1\<rparr>]"
      "tables s' = tables s" "cur s' = cur s" "sock_nid s' = sock_nid s"
      "pool_ok (socks s')"
proof (cases "find (\<lambda>i. \<not> in_use (sock s i)) [0..<LOCAL_SOCKET_POOL_SIZE]")
  case None
  then have "alloc_socket_slot s = (-1, s)"
    by (simp add: alloc_socket_slot_def)
  moreover have "\<forall>i < length (socks s). in_use (socks s ! i)"
    using None assms by (auto simp: find_None_iff sock_socks pool_ok_def)
  ultimately show ?thesis
    by (rule full)
next
  case (Some i)
  define s' where "s' = snd (alloc_socket_slot s)"
  have i: "i < length (socks s)" "\<not> in_use (socks s ! i)"
    using Some assms by (auto simp: find_Some_iff sock_socks pool_ok_def)
  have run: "alloc_socket_slot s = (int i, s')"
    by (simp add: s'_def alloc_socket_slot_def Some)
  have socks: "socks s' = (socks s)[i := zero_socket\<lparr>in_use := True, refcount := 1\<rparr>]"
    using i by (simp add: s'_def alloc_socket_slot_def Some)
  show ?thesis
  proof (rule slot [OF run i socks])
    show "pool_ok (socks s')"
      unfolding socks by (rule pool_ok_fresh [OF assms i]) simp_all
    show "tables s' = tables s" "cur s' = cur s"
      by (simp_all add: s'_def alloc_socket_slot_def Some upd_node_def upd_sock_def reset_socket_def)
    show "sock_nid s' = sock_nid s"
      by (rule ext) (simp add: s'_def alloc_socket_slot_def Some upd_node_def upd_sock_def reset_socket_def sock_nid_def)
  qed
qed

lemma pool_ok_upd:
  assumes "pool_ok (socks s)"
    and "\<And>x. in_use (f x) = in_use x" "\<And>x. peer_index (f x) = peer_index x" "\<And>x. ring_ok x \<Longrightarrow> ring_ok (f x)"
  shows "pool_ok (socks (upd_sock i f s))"
  using pool_ok_update [of "socks s" i "f (socks s ! i)"] assms by (simp add: pool_ok_def)

lemma install_new_socket_fd_pool:
  "pool_ok (socks s) \<Longrightarrow> pool_ok (socks (snd (install_new_socket_fd mem i s)))"
  using release_socket_index_pool [of "snd (alloc_fd mem (Some (sock_nid s i)) s)" "int i"]
  by (simp add: install_new_socket_fd_def Let_def case_prod_beta)

lemma local_sys_socket_pool:
  assumes "pool_ok (socks s)"
  shows "pool_ok (socks (snd (local_sys_socket mem ty protocol s)))"
  using assms
proof (cases rule: alloc_socket_slot_cases)
  case (slot i s')
  have "pool_ok (socks (snd (install_new_socket_fd mem i (upd_sock i (\<lambda>x. x\<lparr>ls_type := nat ty\<rparr>) s'))))"
    by (intro install_new_socket_fd_pool pool_ok_upd slot(8)) simp_all
  then show ?thesis
    using assms slot(1) by (simp add: local_sys_socket_def create_unconnected_socket_def)
qed (use assms in \<open>simp add: local_sys_socket_def create_unconnected_socket_def\<close>)

lemma bind_address_pool:
  "pool_ok (socks s) \<Longrightarrow> pool_ok (socks (snd (bind_address i a s)))"
  by (cases i; cases a) (simp_all add: bind_address_def pool_ok_upd del: socks_simps(1))

lemma local_sys_listen_pool:
  "pool_ok (socks s) \<Longrightarrow> pool_ok (socks (snd (local_sys_listen fd backlog s)))"
  by (cases "socket_from_fd s fd") (simp_all add: local_sys_listen_def pool_ok_upd del: socks_simps(1))

lemma handle_shutdown_pool:
  "pool_ok (socks s) \<Longrightarrow> pool_ok (socks (snd (handle_shutdown i how s)))"
  by (cases i) (simp_all add: handle_shutdown_def pool_ok_upd Let_def del: socks_simps(1))

lemma local_sys_accept_pool:
  assumes "pool_ok (socks s)"
  shows "pool_ok (socks (snd (snd (snd (local_sys_accept mem fd addr addrlen s)))))"
proof (cases "socket_from_fd s fd")
  case (Some l)
  define s1 where "s1 = upd_sock l (\<lambda>x. x\<lparr>pending_index := -1\<rparr>) s"
  define s2 where "s2 = snd (alloc_fd mem (Some (sock_nid s1 (nat (pending_index (sock s l))))) s1)"
  have "pool_ok (socks s1)"
    unfolding s1_def by (rule pool_ok_upd [OF assms]) simp_all
  then have ok: "pool_ok (socks s2)"
    by (simp add: s2_def)
  have "snd (snd (snd (local_sys_accept mem fd addr addrlen s))) \<in>
      {s, s2, release_socket_index (pending_index (sock s l)) s2}"
    by (simp add: local_sys_accept_def Some Let_def case_prod_beta flip: s1_def s2_def)
  then show ?thesis
    using assms ok release_socket_index_pool [OF ok] by auto
qed (simp add: local_sys_accept_def assms)

lemma attach_server_pool:
  assumes ok: "pool_ok (socks s)" and ic: "i < length (socks s)" "c < length (socks s)" "i \<noteq> c"
    and old: "in_use (socks s ! i)" "peer_index (socks s ! i) = -1" "in_use (socks s ! c)" "peer_index (socks s ! c) = -1"
  shows "pool_ok (socks (attach_server i c l s))"
proof -
  define s1 where "s1 = upd_sock i
    (\<lambda>x. x\<lparr>ls_type := ls_type (sock s c), peer_index := int c, has_address := has_address (sock s l)\<rparr>) s"
  define s2 where "s2 = (if has_address (sock s1 i)
    then upd_sock i (\<lambda>x. x\<lparr>address := copy_address (address (sock s1 l))\<rparr>) s1 else s1)"
  define s3 where "s3 = upd_sock c (\<lambda>x. x\<lparr>peer_index := int i, peer_closed := False\<rparr>) s2"
  have run: "attach_server i c l s = upd_sock l (\<lambda>x. x\<lparr>pending_index := int i\<rparr>) s3"
    by (simp add: attach_server_def Let_def s1_def s2_def s3_def)
  have rings: "ring_ok (socks s ! i)" "ring_ok (socks s ! c)"
    using ok ic by (simp_all add: pool_ok_def)
  have s2: "socks s2 = (socks s)[i := socks s2 ! i]" "in_use (socks s2 ! i)" "peer_index (socks s2 ! i) = int c"
      "ring_ok (socks s2 ! i)" "socks s2 ! c = socks s ! c"
    using ic old rings by (simp_all add: s2_def s1_def)
  have "socks s3 = (socks s)[i := socks s2 ! i, c := (socks s ! c)\<lparr>peer_index := int i, peer_closed := False\<rparr>]"
    by (simp add: s3_def s2(5)) (subst s2(1), rule refl)
  also have "pool_ok \<dots>"
    by (rule pool_ok_link [OF ok ic old]) (use s2 old rings in simp_all)
  finally show ?thesis
    unfolding run by (intro pool_ok_upd) simp_all
qed

lemma connect_address_pool:
  assumes ok: "pool_ok (socks s)" and c: "\<And>c. client = Some c \<Longrightarrow> c < length (socks s) \<and> in_use (socks s ! c)"
  shows "pool_ok (socks (snd (connect_address client a s)))"
proof (cases client)
  case (Some c)
  have c': "c < length (socks s)" "in_use (socks s ! c)"
    using c Some by auto
  show ?thesis
    using ok
  proof (cases rule: alloc_socket_slot_cases)
    case full
    then show ?thesis
      using ok by (cases a; cases "find_listener s (the a) SOCK_STREAM") (simp_all add: connect_address_def Some)
  next
    case (slot i s')
    have ic: "i \<noteq> c" "i < length (socks s')" "c < length (socks s')"
      using slot(2,3) c' by (auto simp: slot(4))
    have "pool_ok (socks (attach_server i c l s'))" if "\<not> peer_index (sock s c) \<ge> 0" for l
    proof (rule attach_server_pool [OF slot(8) ic(2,3,1)])
      have "linked (socks s) c"
        using ok c' by (simp add: pool_ok_def)
      then show "peer_index (socks s' ! c) = -1"
        using that c' ic by (auto simp: linked_def sock_socks slot(4))
    qed (use slot(2) ic c' in \<open>simp_all add: slot(4)\<close>)
    then show ?thesis
      using ok by (cases a; cases "find_listener s (the a) SOCK_STREAM")
        (simp_all add: connect_address_def Some slot(1))
  qed
qed (simp add: connect_address_def ok)


lemma local_open_pool: "pool_ok (socks s) \<Longrightarrow> pool_ok (socks (local_open n s))"
  by (cases "socket_from_node s (Some n)") (simp_all add: local_open_def pool_ok_upd del: socks_simps(1))

lemma local_close_pool:
  assumes "pool_ok (socks s)"
  shows "pool_ok (socks (local_close n s))"
proof (cases "socket_from_node s (Some n)")
  case (Some i)
  have "pool_ok (socks (upd_sock i (\<lambda>x. x\<lparr>refcount := refcount x - 1\<rparr>) s))"
    by (rule pool_ok_upd [OF assms]) simp_all
  from this release_socket_index_pool [OF this] show ?thesis
    using assms by (simp add: local_close_def Some Let_def del: socks_simps(1))
qed (simp add: local_close_def assms)

lemma local_read_pool:
  assumes "pool_ok (socks s)"
  shows "pool_ok (socks (snd (snd (local_read n off len s))))"
proof (cases "socket_from_node s (Some n)")
  case (Some i)
  have "ring_ok (socks s ! i)"
    using assms socket_from_node_Some(1) [OF Some] by (simp add: pool_ok_def)
  then have "pool_ok (socks (upd_sock i (\<lambda>_. snd (ring_read (sock s i) len)) s))"
    using pool_ok_update [OF assms, of i] ring_read_content(2) by (simp add: sock_socks)
  then show ?thesis
    using assms by (simp add: local_read_def Some case_prod_beta del: socks_simps(1))
qed (simp add: local_read_def assms)

lemma pool_ok_ring_write:
  "pool_ok (socks s) \<Longrightarrow> pool_ok (socks (upd_sock p (\<lambda>_. snd (ring_write (sock s p) data)) s))"
  using pool_ok_update [of "socks s" p] ring_write_content(2) by (simp add: sock_socks pool_ok_def)

lemma local_write_pool:
  assumes "pool_ok (socks s)"
  shows "pool_ok (socks (snd (local_write n off data s)))"
  using assms pool_ok_ring_write [OF assms]
  by (cases "socket_from_node s (Some n)") (simp_all add: local_write_def case_prod_beta Let_def del: socks_simps(1))

lemma local_sys_send_pool:
  assumes "pool_ok (socks s)"
  shows "pool_ok (socks (snd (local_sys_send fd buf s)))"
  using assms pool_ok_ring_write [OF assms]
  by (cases "socket_from_fd s fd"; cases buf) (simp_all add: local_sys_send_def case_prod_beta Let_def del: socks_simps(1))

lemma local_sys_recv_pool:
  assumes "pool_ok (socks s)"
  shows "pool_ok (socks (snd (snd (local_sys_recv fd buf len s))))"
proof (cases "socket_from_fd s fd")
  case (Some i)
  have "ring_ok (socks s ! i)"
    using assms socket_from_fd_Some(1) [OF Some] by (simp add: pool_ok_def)
  then have "pool_ok (socks (upd_sock i (\<lambda>_. snd (ring_read (sock s i) len)) s))"
    using pool_ok_update [OF assms, of i] ring_read_content(2) by (simp add: sock_socks)
  then show ?thesis
    using assms by (simp add: local_sys_recv_def Some case_prod_beta del: socks_simps(1))
qed (simp add: local_sys_recv_def assms)

text \<open>The drivers of a table leave the pool consistent when they close or destroy a node.\<close>

definition closes_keep_pool :: "'a ls_drv_scheme optab \<Rightarrow> bool" where
  "closes_keep_pool tbl \<longleftrightarrow>
     (\<forall>k n s. pool_ok (socks s) \<longrightarrow>
        (\<forall>f. o_close (tbl k) = Some f \<longrightarrow> pool_ok (socks (f n s))) \<and> pool_ok (socks (o_destroy (tbl k) n s)))"

lemma vfs_sys_close_pool:
  assumes "closes_keep_pool tbl" and "pool_ok (socks s)"
  shows "pool_ok (socks (snd (vfs_sys_close tbl fd s)))"
proof -
  have rel: "pool_ok (socks (release tbl n s))" if "pool_ok (socks s)" for n s
    using that assms(1) by (simp add: release_def Let_def closes_keep_pool_def)
  have cl: "pool_ok (socks (close_reference tbl n s))" if "pool_ok (socks s)" for n s
    using that assms(1) rel [of s n] rel [of "the (op_of tbl o_close s n) n s" n]
    by (cases "op_of tbl o_close s n") (auto simp: close_reference_def Let_def closes_keep_pool_def op_of_def bind_eq_Some_conv)
  have "pool_ok (socks (close_descriptor tbl t i s))" for t i
    using assms(2) cl by (simp add: close_descriptor_def Let_def split: option.splits)
  then show ?thesis
    using assms(2) by (simp add: vfs_sys_close_def split: option.splits)
qed


lemma handle_socketpair_pool:
  assumes ok: "pool_ok (socks s)" and tbl: "closes_keep_pool tbl"
  shows "pool_ok (socks (snd (snd (handle_socketpair tbl mem1 mem2 request response s))))"
proof (cases "(\<exists>ty. request = Some ty \<and> unat (ty AND NOT 0x80000) = SOCK_STREAM) \<and> response")
  case False
  then show ?thesis
    using ok by (cases request) (auto simp: handle_socketpair_def Let_def)
next
  case True
  then obtain ty where ty: "request = Some ty" "unat (ty AND NOT 0x80000) = SOCK_STREAM" and "response"
    by auto
  note run = handle_socketpair_def ty \<open>response\<close> Let_def
  show ?thesis
    using ok
  proof (cases rule: alloc_socket_slot_cases)
    case full
    then show ?thesis
      using ok by (simp add: run)
  next
    case one: (slot i s1)
    show ?thesis
      using one(8)
    proof (cases rule: alloc_socket_slot_cases)
      case full
      then show ?thesis
        using ok one(1) release_socket_index_pool [OF one(8)] by (simp add: run)
    next
      case two: (slot j s2)
      have ij: "i < length (socks s2)" "j < length (socks s2)" "i \<noteq> j" "in_use (socks s2 ! i)" "peer_index (socks s2 ! i) = -1"
          "in_use (socks s2 ! j)" "peer_index (socks s2 ! j) = -1"
        using one(2,3) two(2,3) by (auto simp: one(4) two(4) nth_list_update)
      define s3 where "s3 = upd_sock j (\<lambda>x. x\<lparr>ls_type := SOCK_STREAM, peer_index := int i\<rparr>)
        (upd_sock i (\<lambda>x. x\<lparr>ls_type := SOCK_STREAM, peer_index := int j\<rparr>) s2)"
      have "pool_ok (socks s3)"
        unfolding s3_def socks_simps using two(8) ij
        by (intro pool_ok_link [OF two(8) ij(1,2,3)]) (auto simp: pool_ok_def)
      define s4 where "s4 = snd (install_new_socket_fd mem1 i s3)"
      define s5 where "s5 = snd (install_new_socket_fd mem2 j s4)"
      have ok4: "pool_ok (socks s4)" and ok5: "pool_ok (socks s5)"
        using \<open>pool_ok (socks s3)\<close> by (simp_all add: s4_def s5_def install_new_socket_fd_pool)
      have "snd (snd (handle_socketpair tbl mem1 mem2 request response s)) \<in>
          {s, release_socket_index (int j) s4, s5, snd (vfs_sys_close tbl (fst (install_new_socket_fd mem1 i s3)) s5)}"
        using one(1) two(1) by (simp add: run case_prod_beta flip: s3_def s4_def s5_def)
      then show ?thesis
        using ok ok5 release_socket_index_pool [OF ok4] vfs_sys_close_pool [OF tbl ok5] by auto
    qed
  qed
qed

lemma connect_fd_pool:
  "pool_ok (socks s) \<Longrightarrow> pool_ok (socks (snd (connect_address (socket_from_fd s fd) a s)))"
  by (rule connect_address_pool) (use socket_from_fd_Some in blast)+

lemma snd_reply [simp]: "snd (reply p) = snd p"
  by (simp add: reply_def)

lemma sys_unix_ipc_pool:
  assumes ok: "pool_ok (socks s)" and tbl: "closes_keep_pool tbl"
  shows "pool_ok (socks (snd (sys_unix_ipc tbl mem1 mem2 call s)))"
proof (cases call)
  case (Op_Accept fd addr)
  then show ?thesis
    using local_sys_accept_pool [OF ok, of mem1 fd addr False] by (simp add: case_prod_beta)
next
  case (Op_Socketpair request response)
  then show ?thesis
    using handle_socketpair_pool [OF ok tbl, of mem1 mem2 request response] by (simp add: case_prod_beta)
next
  case (Op_Recvmsg fd buf len)
  then show ?thesis
    using local_sys_recv_pool [OF ok, of fd buf len] by (simp add: case_prod_beta)
qed (use ok in \<open>simp_all add: local_sys_socket_pool bind_address_pool local_sys_listen_pool connect_fd_pool
    local_sys_shutdown_def handle_shutdown_pool local_sys_send_pool split: option.splits\<close>)

section \<open>Runs of the socket layer\<close>

text \<open>The driver table with the RAM file system and local sockets.\<close>

definition unix_table :: "bool \<Rightarrow> 'a ls_drv_scheme optab" where
  "unix_table mem k = (if k = LOCAL_OPS then g_local_socket_ops else g_ramfs_ops mem)"

lemma closes_keep_unix_table: "closes_keep_pool (unix_table mem)"
  by (simp add: closes_keep_pool_def unix_table_def g_local_socket_ops_def g_ramfs_ops_def delete_node_def local_close_pool)

text \<open>A step: a call of the socket interface, or one the file system makes of the driver (\<open>read\<close> and
  \<open>write\<close> on a descriptor, a descriptor copied or closed), or a change of the running thread.\<close>

inductive unix_step :: "'a lsv \<Rightarrow> 'a lsv \<Rightarrow> bool" where
  ipc: "unix_step s (snd (sys_unix_ipc (unix_table mem) mem1 mem2 call s))"
| bind: "unix_step s (snd (local_sys_bind fd addr addrlen s))"
| connect: "unix_step s (snd (local_sys_connect fd addr addrlen s))"
| accept: "unix_step s (snd (snd (snd (local_sys_accept mem fd a l s))))"
| read_fd: "unix_step s (snd (snd (local_read n off len s)))"
| write_fd: "unix_step s (snd (local_write n off data s))"
| dup_fd: "unix_step s (local_open n s)"
| close_fd: "unix_step s (local_close n s)"
| switch: "unix_step s (s\<lparr>cur := t\<rparr>)"

inductive unix_reachable :: "'a lsv \<Rightarrow> bool" where
  boot: "sockets (drv s) = replicate LOCAL_SOCKET_POOL_SIZE (zero_socket\<lparr>peer_index := 0, pending_index := 0\<rparr>)
    \<Longrightarrow> unix_reachable s"
| step: "unix_reachable s \<Longrightarrow> unix_step s t \<Longrightarrow> unix_reachable t"

lemma unix_step_pool: "unix_step s t \<Longrightarrow> pool_ok (socks s) \<Longrightarrow> pool_ok (socks t)"
proof (induction rule: unix_step.induct)
  case (ipc s mem mem1 mem2 call)
  then show ?case
    using sys_unix_ipc_pool closes_keep_unix_table by blast
next
  case (switch s t)
  then show ?case
    by (simp add: socks_def)
qed (simp_all add: local_sys_bind_def bind_address_pool local_sys_connect_def connect_fd_pool local_sys_accept_pool
    local_read_pool local_write_pool local_open_pool local_close_pool)

lemma unix_reachable_pool: "unix_reachable s \<Longrightarrow> pool_ok (socks s)"
proof (induction rule: unix_reachable.induct)
  case (boot s)
  then show ?case
    by (simp add: pool_ok_def linked_def socks_def ring_ok_def zero_socket_def)
qed (blast intro: unix_step_pool)


section \<open>A connection as a byte queue\<close>

text \<open>Descriptor \<open>a\<close> of socket \<open>i\<close> and descriptor \<open>b\<close> of its peer \<open>j\<close>, neither direction shut down.\<close>

definition stream_open :: "int \<Rightarrow> nat \<Rightarrow> nat \<Rightarrow> int \<Rightarrow> 'a lsv \<Rightarrow> bool" where
  "stream_open a i j b s \<longleftrightarrow>
     pool_ok (socks s) \<and> socket_from_fd s a = Some i \<and> socket_from_fd s b = Some j \<and>
     ls_type (sock s i) = SOCK_STREAM \<and> ls_type (sock s j) = SOCK_STREAM \<and>
     \<not> write_shutdown (sock s i) \<and> \<not> read_shutdown (sock s j) \<and> peer_index (sock s i) = int j"

definition stream_put :: "int \<Rightarrow> byte list \<Rightarrow> 'a lsv \<Rightarrow> nat \<times> 'a lsv" where
  "stream_put a data s = (case local_sys_send a (Some data) s of (r, s) \<Rightarrow> (nat r, s))"

definition stream_get :: "int \<Rightarrow> nat \<Rightarrow> 'a lsv \<Rightarrow> byte list \<times> 'a lsv" where
  "stream_get b len s = (case local_sys_recv b True len s of (r, data, s) \<Rightarrow> (data, s))"

lemma socket_from_fd_upd:
  assumes "in_use (f (sock s k)) = in_use (sock s k)"
  shows "socket_from_fd (upd_sock k f s) fd = socket_from_fd s fd"
proof -
  have "get_fd_node (upd_sock k f s) fd = get_fd_node s fd"
    by (cases "cur s") (simp_all add: get_fd_node_def get_fd_def upd_sock_def)
  moreover have "in_use (sock (upd_sock k f s) i) = in_use (sock s i)" for i
    using assms by (cases "k < length (socks s)"; cases "i = k") (simp_all add: sock_socks list_update_beyond)
  ultimately show ?thesis
    by (cases "get_fd_node s fd")
      (simp_all add: socket_from_fd_def socket_from_node_def node_def Let_def, simp add: upd_sock_def)
qed

lemma ring_write_other [simp]:
  "ls_type (snd (ring_write x d)) = ls_type x" "write_shutdown (snd (ring_write x d)) = write_shutdown x"
  "read_shutdown (snd (ring_write x d)) = read_shutdown x"
  by (simp_all add: ring_write_def Let_def)

lemma ring_read_other [simp]:
  "ls_type (snd (ring_read x k)) = ls_type x" "write_shutdown (snd (ring_read x k)) = write_shutdown x"
  "read_shutdown (snd (ring_read x k)) = read_shutdown x"
  by (simp_all add: ring_read_def Let_def)

lemma stream_open_upd:
  assumes "stream_open a i j b s" and "pool_ok (socks (upd_sock j (\<lambda>_. x) s))"
    and "in_use x = in_use (sock s j)" "peer_index x = peer_index (sock s j)" "ls_type x = ls_type (sock s j)"
      "write_shutdown x = write_shutdown (sock s j)" "read_shutdown x = read_shutdown (sock s j)"
  shows "stream_open a i j b (upd_sock j (\<lambda>_. x) s)" "sock (upd_sock j (\<lambda>_. x) s) j = x"
proof -
  have j: "j < length (socks s)"
    using assms(1) socket_from_fd_Some(1) unfolding stream_open_def by blast
  then show "sock (upd_sock j (\<lambda>_. x) s) j = x"
    by (simp add: sock_socks)
  then show "stream_open a i j b (upd_sock j (\<lambda>_. x) s)"
    using assms j unfolding stream_open_def
    by (cases "i = j") (simp_all add: socket_from_fd_upd, simp_all add: sock_socks)
qed

lemma stream_put_eq:
  assumes "stream_open a i j b s"
  shows "stream_put a d s = (fst (ring_write (sock s j) d), upd_sock j (\<lambda>_. snd (ring_write (sock s j) d)) s)"
proof -
  have "in_use (sock s j)"
    using assms socket_from_fd_Some(2) by (auto simp: stream_open_def sock_socks)
  then show ?thesis
    using assms by (simp add: stream_put_def local_sys_send_def stream_open_def case_prod_beta Let_def)
qed

interpretation unix_stream: bounded_fifo "stream_open a i j b" "\<lambda>s. rx_content (sock s j)" LOCAL_SOCKET_BUFFER_SIZE
  "stream_put a" "stream_get b" for a b :: int and i j :: nat
proof unfold_locales
  fix s :: "'a lsv"
  assume op: "stream_open a i j b s"
  then have ok: "pool_ok (socks s)" and j: "socket_from_fd s b = Some j" and ring: "ring_ok (sock s j)"
    using socket_from_fd_Some(1) [of s b j] by (auto simp: stream_open_def pool_ok_def sock_socks)
  show "length (rx_content (sock s j)) \<le> LOCAL_SOCKET_BUFFER_SIZE"
    by (rule unix_ring.content_bound [OF ring])
  show "stream_open a i j b s' \<and> n = min (length d) (LOCAL_SOCKET_BUFFER_SIZE - length (rx_content (sock s j))) \<and>
      rx_content (sock s' j) = rx_content (sock s j) @ take n d" if "stream_put a d s = (n, s')" for d n s'
  proof -
    have n: "fst (ring_write (sock s j) d) = n" and s': "s' = upd_sock j (\<lambda>_. snd (ring_write (sock s j) d)) s"
      using that stream_put_eq [OF op, of d] by simp_all
    have "stream_open a i j b s'" "sock s' j = snd (ring_write (sock s j) d)"
      unfolding s' by (rule stream_open_upd [OF op pool_ok_ring_write [OF ok]]; simp)+
    then show ?thesis
      using unix_ring.put_law [OF ring, of d n "sock s' j"] n by (simp add: prod_eq_iff)
  qed
  show "stream_open a i j b s' \<and> d = take k (rx_content (sock s j)) \<and> rx_content (sock s' j) = drop k (rx_content (sock s j))"
    if "stream_get b k s = (d, s')" for k d s'
  proof (cases "k = 0 \<or> rx_size (sock s j) = 0")
    case True
    then have "rx_content (sock s j) = [] \<or> k = 0"
      by (metis length_0_conv length_rx_content)
    then show ?thesis
      using that op j True by (auto simp: stream_get_def local_sys_recv_def stream_open_def split: if_splits)
  next
    case False
    then have d: "d = fst (ring_read (sock s j) k)" and s': "s' = upd_sock j (\<lambda>_. snd (ring_read (sock s j) k)) s"
      using that op j by (simp_all add: stream_get_def local_sys_recv_def stream_open_def case_prod_beta)
    have "pool_ok (socks (upd_sock j (\<lambda>_. snd (ring_read (sock s j) k)) s))"
      using pool_ok_update [OF ok, of j] ring_read_content(2) [OF ring] by (simp add: sock_socks)
    then have "stream_open a i j b s'" "sock s' j = snd (ring_read (sock s j) k)"
      unfolding s' by (rule stream_open_upd [OF op]; simp)+
    then show ?thesis
      using unix_ring.get_law [OF ring, of k d "sock s' j"] d by (simp add: prod_eq_iff)
  qed
qed

section \<open>Properties\<close>

text \<open>A machine at boot, and after its first thread made a pair of connected sockets.\<close>

definition blank_node :: vfs_node where
  "blank_node =
    \<lparr>n_name = '''', n_hash = 0, n_inode = 0, n_length = 0, n_type = REGULAR, n_uid = 0, n_gid = 0, n_mask = 0,
     n_flags = 0, n_ops = None, n_references = 1, n_managed = False\<rparr>"

definition unix_boot :: "unit lsv" where
  "unix_boot =
    \<lparr>nodes = (\<lambda>n. if n < LOCAL_SOCKET_POOL_SIZE then Some blank_node else None),
     tables = [replicate 8 empty_fd], cur = Some 0, g_root = None,
     drv = \<lparr>ram = Map.empty, sockets = replicate LOCAL_SOCKET_POOL_SIZE (zero_socket\<lparr>peer_index := 0, pending_index := 0\<rparr>),
            sock_base = 0\<rparr>\<rparr>"

definition unix_pair :: "unit lsv" where
  "unix_pair = snd (sys_unix_ipc (unix_table True) True True (Op_Socketpair (Some 1) True) unix_boot)"

lemma unix_pair_reachable: "unix_reachable unix_pair"
proof -
  have "unix_reachable unix_boot"
    by (rule unix_reachable.boot) (simp add: unix_boot_def)
  then show ?thesis
    unfolding unix_pair_def by (rule unix_reachable.step) (rule unix_step.ipc)
qed

lemma find_first:
  "find P [0..<LOCAL_SOCKET_POOL_SIZE] = (if P 0 then Some 0 else if P 1 then Some 1 else find P [2..<LOCAL_SOCKET_POOL_SIZE])"
  using upt_conv_Cons [of 0 64] upt_conv_Cons [of 1 64] by (simp add: LOCAL_SOCKET_POOL_SIZE_def numeral_2_eq_2)

lemma unix_pair_state:
  shows "sock unix_pair 0 = zero_socket\<lparr>in_use := True, refcount := 1, ls_type := SOCK_STREAM, peer_index := 1\<rparr>"
    and "sock unix_pair (Suc 0) = zero_socket\<lparr>in_use := True, refcount := 1, ls_type := SOCK_STREAM, peer_index := 0\<rparr>"
    and "socket_from_fd unix_pair 0 = Some 0" and "socket_from_fd unix_pair 1 = Some (Suc 0)"
    and "sock_nid unix_pair 0 = 0"
proof -
  let ?table = "(replicate 8 empty_fd)[0 := \<lparr>fd_node = Some 0, fd_offset = 0, fd_flags = 0\<rparr>]"
  have p: "0 < LOCAL_SOCKET_POOL_SIZE" "Suc 0 < LOCAL_SOCKET_POOL_SIZE" "\<not> LOCAL_SOCKET_POOL_SIZE \<le> Suc 0"
    by (simp_all add: LOCAL_SOCKET_POOL_SIZE_def)
  have slots: "alloc_slot True (replicate 8 empty_fd) = (Inr 0, replicate 8 empty_fd)"
      "alloc_slot True ?table = (Inr (Suc 0), ?table)"
    by code_simp+
  note run = unix_pair_def handle_socketpair_def alloc_socket_slot_def find_first SOCK_STREAM_def sock_def unix_boot_def
    reset_socket_def upd_sock_def upd_node_def sock_nid_def Let_def install_new_socket_fd_def alloc_fd_def node_def
    blank_node_def put_fd_def retain_def p slots
  show "sock unix_pair 0 = zero_socket\<lparr>in_use := True, refcount := 1, ls_type := SOCK_STREAM, peer_index := 1\<rparr>"
    and "sock unix_pair (Suc 0) = zero_socket\<lparr>in_use := True, refcount := 1, ls_type := SOCK_STREAM, peer_index := 0\<rparr>"
    and "sock_nid unix_pair 0 = 0"
    by (simp_all add: run)
  show "socket_from_fd unix_pair 0 = Some 0" and "socket_from_fd unix_pair 1 = Some (Suc 0)"
    by (simp_all add: run socket_from_fd_def socket_from_node_def get_fd_node_def get_fd_def)
qed

lemma unix_pair_open: "stream_open 0 0 (Suc 0) 1 unix_pair"
  using unix_reachable_pool [OF unix_pair_reachable] by (simp add: stream_open_def unix_pair_state zero_socket_def)

text \<open>C12. In every state the socket layer can reach, connections are symmetric and confined to live
  sockets: a live socket with a peer index names another slot of the pool that is in use and points
  back, and no receive ring holds more than its 4096 bytes.  So no operation follows a peer index
  into a free slot.\<close>

theorem unix_sockets_symmetric:
  assumes "unix_reachable s" and "i < LOCAL_SOCKET_POOL_SIZE" and "in_use (sock s i)"
  shows "rx_size (sock s i) \<le> LOCAL_SOCKET_BUFFER_SIZE \<and>
    (peer_index (sock s i) = -1 \<or>
      (\<exists>j. peer_index (sock s i) = int j \<and> j < LOCAL_SOCKET_POOL_SIZE \<and> in_use (sock s j) \<and> peer_index (sock s j) = int i))"
  using unix_reachable_pool [OF assms(1)] assms(2,3)
  by (auto simp: pool_ok_def linked_def ring_ok_def sock_socks)

theorem unix_sockets_symmetric_witness:
  "unix_reachable unix_pair \<and> in_use (sock unix_pair 0) \<and> peer_index (sock unix_pair 0) = int 1 \<and>
    in_use (sock unix_pair 1) \<and> peer_index (sock unix_pair 1) = int 0"
proof -
  have "0 < LOCAL_SOCKET_POOL_SIZE" "in_use (sock unix_pair 0)" "peer_index (sock unix_pair 0) = int 1"
    by (simp_all add: LOCAL_SOCKET_POOL_SIZE_def unix_pair_state)
  then show ?thesis
    using unix_sockets_symmetric [OF unix_pair_reachable, of 0] unix_pair_reachable by auto
qed

text \<open>C13. A connection is a reliable byte stream: for any interleaving of \<open>send\<close> calls on one
  descriptor and \<open>recv\<close> calls on its peer, the bytes delivered so far followed by the bytes still
  buffered are exactly the bytes buffered at the start followed by the bytes the \<open>send\<close> calls
  reported as accepted, in order, and never more than the ring holds.\<close>

theorem unix_stream_fifo:
  assumes "stream_open a i j b s" and "queue_run (stream_put a) (stream_get b) ops s = (s', accepted, delivered)"
  shows "stream_open a i j b s' \<and> delivered @ rx_content (sock s' j) = rx_content (sock s j) @ accepted \<and>
    length (rx_content (sock s' j)) \<le> LOCAL_SOCKET_BUFFER_SIZE"
  using unix_stream.fifo_order assms by blast

theorem unix_stream_fifo_witness:
  "\<exists>s' accepted delivered.
    queue_run (stream_put 0) (stream_get 1) [Write [1, 2, 3], Read 2, Write [4]] unix_pair = (s', accepted, delivered) \<and>
    delivered @ rx_content (sock s' 1) = accepted"
proof -
  obtain s' accepted delivered where
    run: "queue_run (stream_put 0) (stream_get 1) [Write [1, 2, 3], Read 2, Write [4]] unix_pair = (s', accepted, delivered)"
    by (metis prod_cases3)
  have "rx_content (sock unix_pair (Suc 0)) = []"
    by (simp add: unix_pair_state rx_content_def ring_content_def zero_socket_def)
  then show ?thesis
    using unix_stream_fifo [OF unix_pair_open run] run by auto
qed

text \<open>C14. Closing the last descriptor of a connected socket hangs up: its slot is free again, its peer
  keeps the bytes it has not read and learns that the other side is gone, so that its reads drain the
  ring and then report the end of the stream.  Closing an earlier descriptor only drops a reference.\<close>

theorem local_close_hangs_up:
  assumes "pool_ok (socks s)" and "socket_from_node s (Some n) = Some i"
    and "pending_index (sock s i) = -1" and "peer_index (sock s i) = int j" and "j \<noteq> i"
  shows "(refcount (sock s i) = 1 \<longrightarrow>
      sock (local_close n s) i = zero_socket \<and>
      sock (local_close n s) j = (sock s j)\<lparr>peer_index := -1, peer_closed := True\<rparr>) \<and>
    (refcount (sock s i) > 1 \<longrightarrow>
      sock (local_close n s) i = (sock s i)\<lparr>refcount := refcount (sock s i) - 1\<rparr> \<and> sock (local_close n s) j = sock s j)"
proof -
  have i: "i < length (socks s)" "in_use (socks s ! i)"
    using socket_from_node_Some [OF assms(2)] by auto
  then have j: "j < length (socks s)" "in_use (socks s ! j)" "peer_index (socks s ! j) = int i"
    using linked_peer [OF assms(1) i] assms(4) by (simp_all add: sock_socks)
  have v: "valid_index (int i)" "valid_index (int j)" "\<not> valid_index (-1)"
    using assms(1) i j by (auto simp: valid_index_def pool_ok_def)
  define s1 where "s1 = upd_sock i (\<lambda>x. x\<lparr>refcount := refcount x - 1\<rparr>) s"
  have s1: "socks s1 = (socks s)[i := (socks s ! i)\<lparr>refcount := refcount (socks s ! i) - 1\<rparr>]"
    by (simp add: s1_def)
  have close: "local_close n s =
      (if refcount (sock s i) = 0 then s else if refcount (sock s i) = 1 then release_socket_index (int i) s1 else s1)"
    using i by (auto simp: local_close_def assms(2) Let_def s1_def sock_socks)
  have "release_socket_index (int i) s1 =
      reset_socket i (detach_peer i (int j) (upd_sock i (\<lambda>x. x\<lparr>in_use := False, refcount := 0\<rparr>) s1))"
    using i v assms(3,4) s1
    by (subst release_socket_index.simps) (simp add: Let_def sock_socks socks_def [symmetric])
  then show ?thesis
    using i j v assms(5) s1 by (auto simp: close sock_socks socks_detach nth_list_update)
qed

theorem local_close_hangs_up_witness:
  "socket_from_node unix_pair (Some 0) = Some 0 \<and> sock (local_close 0 unix_pair) 0 = zero_socket \<and>
    peer_closed (sock (local_close 0 unix_pair) 1)"
proof -
  have n: "socket_from_node unix_pair (Some 0) = Some 0"
    using unix_pair_state(3,5) socket_from_fd_Some(3) [OF unix_pair_state(3)] by (simp add: socket_from_fd_def)
  have "pending_index (sock unix_pair 0) = -1" "peer_index (sock unix_pair 0) = int (Suc 0)" "refcount (sock unix_pair 0) = 1"
    by (simp_all add: unix_pair_state)
  then show ?thesis
    using local_close_hangs_up [OF unix_reachable_pool [OF unix_pair_reachable] n, of "Suc 0"] n by simp
qed

text \<open>The kernel's form of an address with the bytes \<open>name\<close>.\<close>

definition unix_address :: "nat \<Rightarrow> byte list \<Rightarrow> unix_ipc_address" where
  "unix_address kind name =
    \<lparr>ua_family = AF_UNIX_K, ua_namespace_kind = kind, ua_path_length = length name,
     ua_path = memcpy_at (replicate PATH_MAX 0) 0 name\<rparr>"

lemma take_memcpy_at: "pos + length d \<le> length buf \<Longrightarrow> take (length d) (drop pos (memcpy_at buf pos d)) = d"
  by (simp add: memcpy_at_def)

lemma memcpy_at_0: "memcpy_at buf 0 d = d @ drop (length d) buf"
  by (simp add: memcpy_at_def)

lemma roundtrip_abstract:
  assumes "length name < PATH_MAX"
  shows "\<exists>un len. translate_address_out (Some (unix_address NAMESPACE_ABSTRACT name)) True True = (0, Some un, Some len) \<and>
    translate_address_in (Some un) len = Some (unix_address NAMESPACE_ABSTRACT name)"
proof -
  let ?path = "memcpy_at (replicate PATH_MAX 0) 1 name" and ?len = "2 + (length name + 1)"
  have out: "translate_address_out (Some (unix_address NAMESPACE_ABSTRACT name)) True True =
      (0, Some \<lparr>sun_family = AF_UNIX_K, sun_path = ?path\<rparr>, Some ?len)"
    using assms by (simp add: translate_address_out_def unix_address_def memcpy_at_0)
  have "?path ! 0 = 0"
    using assms by (simp add: nth_memcpy_at)
  moreover have "take (length name) (drop 1 ?path) = name"
    using assms by (intro take_memcpy_at) simp
  ultimately have "translate_address_in (Some \<lparr>sun_family = AF_UNIX_K, sun_path = ?path\<rparr>) ?len =
      Some (unix_address NAMESPACE_ABSTRACT name)"
    using assms by (cases name) (simp_all add: translate_address_in_def unix_address_def zero_address_def Let_def)
  with out show ?thesis
    by blast
qed

lemma roundtrip_named:
  assumes "length name < PATH_MAX" and "name \<noteq> []" and "0 \<notin> set name"
  shows "\<exists>un len. translate_address_out (Some (unix_address NAMESPACE_FILESYSTEM name)) True True = (0, Some un, Some len) \<and>
    translate_address_in (Some un) len = Some (unix_address NAMESPACE_FILESYSTEM name)"
proof -
  let ?path = "(memcpy_at (replicate PATH_MAX 0) 0 name)[length name := 0]" and ?len = "2 + (length name + 1)"
  have out: "translate_address_out (Some (unix_address NAMESPACE_FILESYSTEM name)) True True =
      (0, Some \<lparr>sun_family = AF_UNIX_K, sun_path = ?path\<rparr>, Some ?len)"
    using assms(1) by (simp add: translate_address_out_def unix_address_def memcpy_at_0 NAMESPACE_ABSTRACT_def NAMESPACE_FILESYSTEM_def)
  obtain r where r: "replicate (PATH_MAX - length name) 0 = (0 :: byte) # r"
    using assms(1) by (cases "PATH_MAX - length name") auto
  then have "?path = name @ 0 # r"
    by (simp add: memcpy_at_0)
  moreover have "takeWhile (\<lambda>c. c \<noteq> 0) (name @ [0]) = name"
    using assms(3) by (subst takeWhile_append2) auto
  moreover have "(name @ 0 # r) ! 0 \<noteq> 0"
    using assms(2,3) by (cases name) auto
  ultimately have "translate_address_in (Some \<lparr>sun_family = AF_UNIX_K, sun_path = ?path\<rparr>) ?len =
      Some (unix_address NAMESPACE_FILESYSTEM name)"
    using assms(1,2) by (simp add: translate_address_in_def unix_address_def zero_address_def Let_def)
  with out show ?thesis
    by blast
qed

lemma translate_address_in_cases:
  assumes "translate_address_in (Some un) addrlen = Some a" and "length (sun_path un) = PATH_MAX"
  shows "\<exists>name. a = unix_address NAMESPACE_ABSTRACT name \<or>
    a = unix_address NAMESPACE_FILESYSTEM name \<and> name \<noteq> [] \<and> 0 \<notin> set name"
proof -
  define k where "k = (if addrlen - 2 > PATH_MAX then PATH_MAX else addrlen - 2)"
  have k: "k \<le> PATH_MAX"
    by (simp add: k_def)
  show ?thesis
  proof (cases "0 < k \<and> sun_path un ! 0 = 0")
    case True
    then have "a = unix_address NAMESPACE_ABSTRACT (take (k - 1) (drop 1 (sun_path un)))"
      using assms k
      by (auto simp: translate_address_in_def unix_address_def zero_address_def Let_def k_def [symmetric] split: if_splits)
    then show ?thesis
      by blast
  next
    case False
    let ?name = "takeWhile (\<lambda>c. c \<noteq> 0) (take k (sun_path un))"
    have "a = unix_address NAMESPACE_FILESYSTEM ?name \<and> ?name \<noteq> []"
      using assms(1) False
      by (auto simp: translate_address_in_def unix_address_def zero_address_def Let_def k_def [symmetric] split: if_splits)
    moreover have "0 \<notin> set ?name"
      using set_takeWhileD by fastforce
    ultimately show ?thesis
      by blast
  qed
qed

text \<open>Addresses survive the trip out of the kernel and back in: an address \<open>bind\<close> accepted, as
  \<open>getsockname\<close> hands it to the caller, translates to the same address again, in both name spaces,
  provided the name leaves room for the terminator.\<close>

theorem sockaddr_roundtrip:
  assumes "translate_address_in (Some un) addrlen = Some a" and "length (sun_path un) = PATH_MAX"
    and "ua_path_length a < PATH_MAX"
  shows "\<exists>un' len. translate_address_out (Some a) True True = (0, Some un', Some len) \<and>
    translate_address_in (Some un') len = Some a"
  using translate_address_in_cases [OF assms(1,2)] assms(3) roundtrip_abstract roundtrip_named
  by (auto simp: unix_address_def)

theorem sockaddr_roundtrip_witness:
  "\<exists>a un' len. translate_address_in (Some \<lparr>sun_family = 1, sun_path = [47, 97] @ replicate 106 0\<rparr>) 5 = Some a \<and>
    translate_address_out (Some a) True True = (0, Some un', Some len) \<and> translate_address_in (Some un') len = Some a"
proof -
  have tr: "translate_address_in (Some \<lparr>sun_family = 1, sun_path = [47, 97] @ replicate 106 0\<rparr>) 5 =
      Some (unix_address NAMESPACE_FILESYSTEM [47, 97])"
    by code_simp
  have "ua_path_length (unix_address NAMESPACE_FILESYSTEM [47, 97]) < PATH_MAX"
    by (simp add: unix_address_def PATH_MAX_def)
  then show ?thesis
    using sockaddr_roundtrip [OF tr] tr by (auto simp: PATH_MAX_def)
qed

lemma alloc_fd_flags:
  assumes "tables_ok s" and "n_type (node s n) \<noteq> SOCKET" and "alloc_fd mem (Some n) s = (fd, s')" and "0 \<le> fd"
    and "get_fd s' fd = Some d"
  shows "fd_flags d = 0"
proof (cases "cur s")
  case (Some t)
  then have t: "t < length (tables s)" and len: "length (tables s ! t) \<le> MAX_FDS"
    using assms(1) by (auto simp: tables_ok_def)
  obtain slot table where al: "alloc_slot mem (tables s ! t) = (slot, table)"
    by fastforce
  show ?thesis
  proof (cases slot)
    case (Inl e)
    then show ?thesis
      using alloc_slot_ok [OF al len] assms(3,4) Some al by (auto simp: alloc_fd_def)
  next
    case (Inr i)
    then show ?thesis
      using assms(2,3,5) Some t al by (auto simp: alloc_fd_def Let_def put_fd_def get_fd_def split: if_splits)
  qed
qed (use assms in \<open>simp add: alloc_fd_def\<close>)

text \<open>\<open>write\<close> on the descriptor of a new local socket is refused with \<open>EBADF\<close>: \<open>alloc_fd\<close> gives
  read and write access to nodes of type \<open>SOCKET\<close> only, and the node of a local socket is a
  \<open>CHAR_DEVICE\<close>, so its descriptor is read-only and the driver's \<open>local_write\<close> is never reached.\<close>

theorem unix_socket_write_refused:
  assumes "pool_ok (socks s)" and "tables_ok s" and "\<forall>i < LOCAL_SOCKET_POOL_SIZE. nodes s (sock_nid s i) \<noteq> None"
    and "local_sys_socket mem ty 0 s = (fd, s')" and "0 \<le> fd"
  shows "fst (vfs_sys_write tbl fd data len s') = -9"
  using assms(1)
proof (cases rule: alloc_socket_slot_cases)
  case full
  then show ?thesis
    using assms(4,5) by (simp add: local_sys_socket_def create_unconnected_socket_def split: if_splits)
next
  case (slot i s1)
  define s2 where "s2 = upd_sock i (\<lambda>x. x\<lparr>ls_type := nat ty\<rparr>) s1"
  have i: "i < LOCAL_SOCKET_POOL_SIZE"
    using slot(2) assms(1) by (simp add: pool_ok_def)
  have "n_type (node s2 (sock_nid s2 i)) = CHAR_DEVICE"
    using slot(1) assms(3) i
    by (auto simp: s2_def alloc_socket_slot_def reset_socket_def upd_sock_def upd_node_def node_def sock_nid_def
        split: option.splits)
  moreover have "tables_ok s2"
    using assms(2) slot(5,6) by (simp add: s2_def tables_ok_def upd_sock_def)
  moreover have "alloc_fd mem (Some (sock_nid s2 i)) s2 = (fd, s')"
    using assms(4,5) slot(1)
    by (auto simp: local_sys_socket_def create_unconnected_socket_def install_new_socket_fd_def s2_def Let_def
        split: if_splits prod.splits)
  ultimately show ?thesis
    using alloc_fd_flags [of s2 "sock_nid s2 i" mem fd s'] assms(5)
    by (auto simp: vfs_sys_write_def ACCESS_MODE_def split: option.splits)
qed

theorem unix_socket_write_refused_witness:
  "fst (local_sys_socket True 1 0 unix_boot) = 0 \<and>
    fst (vfs_sys_write (unix_table True) 0 (Some [104, 105]) 2 (snd (local_sys_socket True 1 0 unix_boot))) = -9"
proof -
  have "alloc_slot True (replicate 8 empty_fd) = (Inr 0, replicate 8 empty_fd)"
    by code_simp
  moreover have "0 < LOCAL_SOCKET_POOL_SIZE"
    by (simp add: LOCAL_SOCKET_POOL_SIZE_def)
  ultimately have fd: "fst (local_sys_socket True 1 0 unix_boot) = 0"
    by (simp add: local_sys_socket_def create_unconnected_socket_def valid_socket_type_def SOCK_STREAM_def find_first
        alloc_socket_slot_def install_new_socket_fd_def alloc_fd_def unix_boot_def sock_def upd_sock_def upd_node_def
        reset_socket_def Let_def)
  have "pool_ok (socks unix_boot)"
    by (rule unix_reachable_pool, rule unix_reachable.boot) (simp add: unix_boot_def)
  moreover have "tables_ok unix_boot" "\<forall>i < LOCAL_SOCKET_POOL_SIZE. nodes unix_boot (sock_nid unix_boot i) \<noteq> None"
    by (simp_all add: unix_boot_def tables_ok_def MAX_FDS_def sock_nid_def)
  ultimately show ?thesis
    using unix_socket_write_refused [of unix_boot True 1 0 "snd (local_sys_socket True 1 0 unix_boot)"] fd
    by (simp add: prod_eq_iff)
qed

end
