(* ===== verification/Epoll.thy ===== *)
theory Epoll
  imports Local_Socket
begin

text \<open>
  Readiness: \<open>select\<close>, \<open>poll\<close> and \<open>epoll\<close> (\<open>src/src/kernel/vfs/vfs.cpp\<close>, lines 433 to 734).

  Each call scans descriptors and, when nothing is ready, sleeps for a tick and scans again.  While it
  sleeps other threads run, so a wait is a function of the moments at which it looks: for each the
  clock, whether a fatal signal is pending and the state of the file system.  A finite list of moments
  that runs out is the value \<open>None\<close>, a call that is still waiting.

  The entries of an epoll node are the list \<open>epolls\<close> of the driver state.  The event a caller passes to
  \<open>epoll_ctl\<close> is read through its pointer without a check, and the allocation of an entry is not
  checked either; the model takes the event and lets the allocation succeed.
\<close>

section \<open>Model\<close>

definition POLLERR :: nat where
  "POLLERR = 0x008"

definition POLLNVAL :: nat where
  "POLLNVAL = 0x020"

record pollfd =
  p_fd :: int
  p_events :: nat
  p_revents :: nat

type_synonym fd_set_kernel = "64 word list"

definition fd_isset :: "nat \<Rightarrow> fd_set_kernel \<Rightarrow> bool" where
  "fd_isset fd fs = bit (fs ! (fd div 64)) (fd mod 64)"

definition fd_set_bit :: "nat \<Rightarrow> fd_set_kernel \<Rightarrow> fd_set_kernel" where
  "fd_set_bit fd fs = fs[fd div 64 := fs ! (fd div 64) OR push_bit (fd mod 64) 1]"

definition fd_zero :: "fd_set_kernel" where
  "fd_zero = replicate 16 0"

text \<open>\<open>node->ops->poll(node)\<close>, or always ready without such an entry.\<close>

definition node_poll :: "'d optab \<Rightarrow> 'd vfs \<Rightarrow> nid \<Rightarrow> nat" where
  "node_poll tbl s n = (case op_of tbl o_poll s n of None \<Rightarrow> POLLIN_K OR POLLOUT_K | Some f \<Rightarrow> f n s)"

subsection \<open>Waiting\<close>

record 'd moment =
  m_fatal :: bool
  m_now :: nat
  m_vfs :: "'d vfs"

fun wait_until :: "('d vfs \<Rightarrow> nat \<times> 'o) \<Rightarrow> nat option \<Rightarrow> 'd moment list \<Rightarrow> 'o \<Rightarrow> (int \<times> 'o) option" where
  "wait_until scan deadline [] out = None"
| "wait_until scan deadline (m # ms) out =
    (if m_fatal m then Some (-4, out)
     else
       case scan (m_vfs m) of (ready, out) \<Rightarrow>
       if ready > 0 then Some (int ready, out)
       else if (case deadline of None \<Rightarrow> False | Some d \<Rightarrow> m_now m \<ge> d) then Some (0, out)
       else wait_until scan deadline ms out)"

subsection \<open>select\<close>

record fd_sets =
  rfds :: fd_set_kernel
  wfds :: fd_set_kernel
  efds :: fd_set_kernel

text \<open>One descriptor of the scan.  A set the caller did not pass is empty, so that its bit is never set.\<close>

definition select_fd :: "'d optab \<Rightarrow> 'd vfs \<Rightarrow> fd_sets \<Rightarrow> nat \<Rightarrow> nat \<times> fd_sets \<Rightarrow> nat \<times> fd_sets" where
  "select_fd tbl s inp fd acc =
    (case get_fd s (int fd) of None \<Rightarrow> acc | Some d \<Rightarrow>
     case fd_node d of None \<Rightarrow> acc | Some n \<Rightarrow>
     let events = node_poll tbl s n;
         acc = (if fd_isset fd (rfds inp) \<and> events AND POLLIN_K \<noteq> 0
                then (fst acc + 1, (snd acc)\<lparr>rfds := fd_set_bit fd (rfds (snd acc))\<rparr>) else acc);
         acc = (if fd_isset fd (wfds inp) \<and> events AND POLLOUT_K \<noteq> 0
                then (fst acc + 1, (snd acc)\<lparr>wfds := fd_set_bit fd (wfds (snd acc))\<rparr>) else acc)
     in if fd_isset fd (efds inp) \<and> events AND (POLLERR OR POLLHUP_K OR POLLNVAL) \<noteq> 0
        then (fst acc + 1, (snd acc)\<lparr>efds := fd_set_bit fd (efds (snd acc))\<rparr>) else acc)"

definition select_scan :: "'d optab \<Rightarrow> int \<Rightarrow> fd_sets \<Rightarrow> 'd vfs \<Rightarrow> nat \<times> fd_sets" where
  "select_scan tbl nfds inp s =
    fold (select_fd tbl s inp) [0..<min (nat nfds) (length (tables s ! the (cur s)))]
      (0, \<lparr>rfds = fd_zero, wfds = fd_zero, efds = fd_zero\<rparr>)"

definition select_deadline :: "nat \<Rightarrow> (int \<times> int) option \<Rightarrow> nat option" where
  "select_deadline now timeout =
    (case timeout of None \<Rightarrow> None | Some (sec, usec) \<Rightarrow>
     Some (nat ((int now + sec * 1000 + sgn usec * (\<bar>usec\<bar> div 1000)) mod 2 ^ 64)))"

definition vfs_sys_select ::
  "'d optab \<Rightarrow> nat \<Rightarrow> int \<Rightarrow> fd_sets \<Rightarrow> (int \<times> int) option \<Rightarrow> 'd vfs \<Rightarrow> 'd moment list \<Rightarrow> (int \<times> fd_sets) option" where
  "vfs_sys_select tbl now nfds inp timeout s ms =
    (if cur s = None then Some (-1, inp)
     else wait_until (select_scan tbl nfds inp) (select_deadline now timeout) ms inp)"

subsection \<open>poll\<close>

definition poll_fd :: "'d optab \<Rightarrow> 'd vfs \<Rightarrow> pollfd \<Rightarrow> pollfd" where
  "poll_fd tbl s p =
    (case get_fd s (p_fd p) of
       None \<Rightarrow> p\<lparr>p_revents := POLLNVAL\<rparr>
     | Some d \<Rightarrow>
         case fd_node d of
           None \<Rightarrow> p\<lparr>p_revents := POLLNVAL\<rparr>
         | Some n \<Rightarrow> p\<lparr>p_revents := node_poll tbl s n AND (p_events p OR POLLERR OR POLLHUP_K)\<rparr>)"

primrec poll_scan :: "'d optab \<Rightarrow> pollfd list \<Rightarrow> 'd vfs \<Rightarrow> nat \<times> pollfd list" where
  "poll_scan tbl [] s = (0, [])"
| "poll_scan tbl (p # ps) s =
    (let q = poll_fd tbl s p; (ready, qs) = poll_scan tbl ps s
     in ((if p_revents q \<noteq> 0 then 1 else 0) + ready, q # qs))"

definition poll_deadline :: "nat \<Rightarrow> int \<Rightarrow> nat option" where
  "poll_deadline now timeout = (if timeout \<ge> 0 then Some (wadd 64 now (nat timeout)) else None)"

definition vfs_sys_poll ::
  "'d optab \<Rightarrow> nat \<Rightarrow> pollfd list \<Rightarrow> int \<Rightarrow> 'd vfs \<Rightarrow> 'd moment list \<Rightarrow> (int \<times> pollfd list) option" where
  "vfs_sys_poll tbl now pfds timeout s ms =
    (if cur s = None then Some (-1, pfds)
     else wait_until (poll_scan tbl pfds) (poll_deadline now timeout) ms pfds)"

subsection \<open>epoll\<close>

definition EPOLLIN :: nat where
  "EPOLLIN = 0x001"

definition EPOLLOUT :: nat where
  "EPOLLOUT = 0x004"

definition EPOLLERR :: nat where
  "EPOLLERR = 0x008"

record epoll_event =
  ev_events :: nat
  ev_data :: nat

record epoll_entry =
  e_fd :: int
  e_event :: epoll_event

record ep_drv = ls_drv +
  epolls :: "nid \<Rightarrow> epoll_entry list option"

type_synonym 'a epv = "'a ep_drv_scheme vfs"

definition EPOLL_OPS :: nat where
  "EPOLL_OPS = 2"

definition epoll_destroy :: "nid \<Rightarrow> 'a epv \<Rightarrow> 'a epv" where
  "epoll_destroy n s = delete_node n (s\<lparr>drv := (drv s)\<lparr>epolls := (epolls (drv s))(n := None)\<rparr>\<rparr>)"

definition epoll_ops :: "'a ep_drv_scheme vfs_ops" where
  "epoll_ops =
    \<lparr>o_read = None, o_write = None, o_truncate = None, o_open = None, o_close = None, o_ioctl = None, o_readdir = None,
     o_lookup = None, o_fsync = None, o_poll = None, o_refresh_metadata = None, o_append = None, o_destroy = epoll_destroy\<rparr>"

text \<open>\<open>n\<close> is the address of the new node; the two allocations may fail.\<close>

definition vfs_sys_epoll_create :: "'a ep_drv_scheme optab \<Rightarrow> bool \<Rightarrow> bool \<Rightarrow> bool \<Rightarrow> nid \<Rightarrow> 'a epv \<Rightarrow> int \<times> 'a epv" where
  "vfs_sys_epoll_create tbl mem1 mem2 mem3 n s =
    (if \<not> mem1 then (-12, s)
     else if \<not> mem2 then (-12, s)
     else
       let s = s\<lparr>nodes := (nodes s)(n \<mapsto>
                   blank_node\<lparr>n_type := EPOLL, n_ops := Some EPOLL_OPS, n_references := 1, n_managed := True\<rparr>),
                 drv := (drv s)\<lparr>epolls := (epolls (drv s))(n \<mapsto> [])\<rparr>\<rparr>;
           (fd, s) = alloc_fd mem3 (Some n) s
       in (fd, release tbl n s))"

definition epoll_node :: "'a epv \<Rightarrow> int \<Rightarrow> nid option" where
  "epoll_node s epfd =
    (case get_fd_node s epfd of None \<Rightarrow> None | Some n \<Rightarrow> if n_type (node s n) \<noteq> EPOLL then None else Some n)"

definition entries :: "'a epv \<Rightarrow> nid \<Rightarrow> epoll_entry list" where
  "entries s n = the (epolls (drv s) n)"

definition set_entries :: "nid \<Rightarrow> epoll_entry list \<Rightarrow> 'a epv \<Rightarrow> 'a epv" where
  "set_entries n es s = s\<lparr>drv := (drv s)\<lparr>epolls := (epolls (drv s))(n \<mapsto> es)\<rparr>\<rparr>"

fun epoll_del :: "int \<Rightarrow> epoll_entry list \<Rightarrow> epoll_entry list option" where
  "epoll_del fd [] = None"
| "epoll_del fd (e # es) = (if e_fd e = fd then Some es else map_option ((#) e) (epoll_del fd es))"

fun epoll_mod :: "int \<Rightarrow> epoll_event \<Rightarrow> epoll_entry list \<Rightarrow> epoll_entry list option" where
  "epoll_mod fd ev [] = None"
| "epoll_mod fd ev (e # es) = (if e_fd e = fd then Some (e\<lparr>e_event := ev\<rparr> # es) else map_option ((#) e) (epoll_mod fd ev es))"

definition vfs_sys_epoll_ctl :: "int \<Rightarrow> int \<Rightarrow> int \<Rightarrow> epoll_event \<Rightarrow> 'a epv \<Rightarrow> int \<times> 'a epv" where
  "vfs_sys_epoll_ctl epfd opc fd ev s =
    (case epoll_node s epfd of None \<Rightarrow> (-1, s) | Some n \<Rightarrow>
     if opc = 1 then (0, set_entries n (\<lparr>e_fd = fd, e_event = ev\<rparr> # entries s n) s)
     else if opc = 2 then
       case epoll_del fd (entries s n) of None \<Rightarrow> (-1, s) | Some es \<Rightarrow> (0, set_entries n es s)
     else if opc = 3 then
       case epoll_mod fd ev (entries s n) of None \<Rightarrow> (-1, s) | Some es \<Rightarrow> (0, set_entries n es s)
     else (-1, s))"

definition epoll_revents :: "nat \<Rightarrow> nat \<Rightarrow> nat" where
  "epoll_revents status events =
    (if status AND POLLIN_K \<noteq> 0 \<and> events AND EPOLLIN \<noteq> 0 then EPOLLIN else 0) OR
    (if status AND POLLOUT_K \<noteq> 0 \<and> events AND EPOLLOUT \<noteq> 0 then EPOLLOUT else 0) OR
    (if status AND (POLLERR OR POLLHUP_K OR POLLNVAL) \<noteq> 0 then EPOLLERR else 0)"

text \<open>The entry's event to report, if any.\<close>

definition epoll_check :: "'a ep_drv_scheme optab \<Rightarrow> 'a epv \<Rightarrow> epoll_entry \<Rightarrow> epoll_event option" where
  "epoll_check tbl s e =
    (case get_fd s (e_fd e) of None \<Rightarrow> None | Some d \<Rightarrow>
     case fd_node d of None \<Rightarrow> None | Some n \<Rightarrow>
     let revents = epoll_revents (node_poll tbl s n) (ev_events (e_event e))
     in if revents \<noteq> 0 then Some \<lparr>ev_events = revents, ev_data = ev_data (e_event e)\<rparr> else None)"

fun epoll_collect :: "'a ep_drv_scheme optab \<Rightarrow> 'a epv \<Rightarrow> int \<Rightarrow> epoll_entry list \<Rightarrow> epoll_event list \<Rightarrow> epoll_event list" where
  "epoll_collect tbl s maxevents [] out = out"
| "epoll_collect tbl s maxevents (e # es) out =
    (if int (length out) < maxevents then
       epoll_collect tbl s maxevents es (case epoll_check tbl s e of None \<Rightarrow> out | Some ev \<Rightarrow> out @ [ev])
     else out)"

definition epoll_scan :: "'a ep_drv_scheme optab \<Rightarrow> nid \<Rightarrow> int \<Rightarrow> 'a epv \<Rightarrow> nat \<times> epoll_event list" where
  "epoll_scan tbl n maxevents s =
    (let out = epoll_collect tbl s maxevents (entries s n) [] in (length out, out))"

definition vfs_sys_epoll_wait ::
  "'a ep_drv_scheme optab \<Rightarrow> nat \<Rightarrow> int \<Rightarrow> int \<Rightarrow> int \<Rightarrow> 'a epv \<Rightarrow> 'a ep_drv_scheme moment list
    \<Rightarrow> (int \<times> epoll_event list) option" where
  "vfs_sys_epoll_wait tbl now epfd maxevents timeout s ms =
    (case epoll_node s epfd of None \<Rightarrow> Some (-1, []) | Some n \<Rightarrow>
     wait_until (epoll_scan tbl n maxevents) (poll_deadline now timeout) ms [])"

text \<open>The driver table of a machine with the RAM file system, local sockets and epoll nodes.\<close>

definition kernel_table :: "bool \<Rightarrow> 'a ep_drv_scheme optab" where
  "kernel_table mem k =
    (if k = LOCAL_OPS then g_local_socket_ops else if k = EPOLL_OPS then epoll_ops else g_ramfs_ops mem)"

section \<open>Waiting\<close>

text \<open>A wait ends by the first moment that is fatal, finds something ready or reaches the deadline.\<close>

definition ends_wait :: "('d vfs \<Rightarrow> nat \<times> 'o) \<Rightarrow> nat option \<Rightarrow> 'd moment \<Rightarrow> bool" where
  "ends_wait scan deadline m \<longleftrightarrow>
     m_fatal m \<or> 0 < fst (scan (m_vfs m)) \<or> (case deadline of None \<Rightarrow> False | Some d \<Rightarrow> d \<le> m_now m)"

lemma wait_until_returns:
  "wait_until scan deadline ms out \<noteq> None \<longleftrightarrow> (\<exists>m\<in>set ms. ends_wait scan deadline m)"
proof (induction ms arbitrary: out)
  case (Cons m ms)
  then show ?case
    by (cases "scan (m_vfs m)") (auto simp: ends_wait_def split: option.splits)
qed simp

lemma wait_until_result:
  assumes "wait_until scan deadline ms out = Some (r, out')"
  shows "\<exists>pre m post. ms = pre @ m # post \<and> (\<forall>x\<in>set pre. \<not> ends_wait scan deadline x) \<and> ends_wait scan deadline m \<and>
    (if m_fatal m then r = -4 else r = int (fst (scan (m_vfs m))) \<and> out' = snd (scan (m_vfs m)))"
  using assms
proof (induction ms arbitrary: out)
  case (Cons m ms)
  show ?case
  proof (cases "ends_wait scan deadline m")
    case True
    then have "if m_fatal m then r = -4 else r = int (fst (scan (m_vfs m))) \<and> out' = snd (scan (m_vfs m))"
      using Cons.prems by (cases "scan (m_vfs m)") (auto simp: ends_wait_def split: if_splits option.splits)
    then show ?thesis
      using True by (intro exI [of _ "[]"] exI [of _ m] exI [of _ ms]) simp
  next
    case False
    then have "wait_until scan deadline ms (snd (scan (m_vfs m))) = Some (r, out')"
      using Cons.prems by (cases "scan (m_vfs m)") (auto simp: ends_wait_def split: if_splits option.splits)
    then obtain pre m' post where "ms = pre @ m' # post" "\<forall>x\<in>set pre. \<not> ends_wait scan deadline x" "ends_wait scan deadline m'"
        "if m_fatal m' then r = -4 else r = int (fst (scan (m_vfs m'))) \<and> out' = snd (scan (m_vfs m'))"
      using Cons.IH by blast
    then show ?thesis
      using False by (intro exI [of _ "m # pre"] exI [of _ m'] exI [of _ post]) simp
  qed
qed simp

section \<open>Scans\<close>

lemma poll_scan_eq:
  "poll_scan tbl ps s = (length (filter (\<lambda>q. p_revents q \<noteq> 0) (map (poll_fd tbl s) ps)), map (poll_fd tbl s) ps)"
  by (induction ps) (simp_all add: Let_def)

lemma epoll_collect_eq:
  "epoll_collect tbl s k es out = out @ take (nat k - length out) (List.map_filter (epoll_check tbl s) es)"
proof (induction es arbitrary: out)
  case (Cons e es)
  show ?case
  proof (cases "int (length out) < k")
    case True
    then obtain m where "nat k - length out = Suc m"
      by (cases "nat k - length out") auto
    moreover from this have "nat k - Suc (length out) = m"
      by simp
    ultimately show ?thesis
      using True Cons.IH by (cases "epoll_check tbl s e") (simp_all add: map_filter_simps)
  next
    case False
    then have "nat k - length out = 0"
      by simp
    then show ?thesis
      using False by simp
  qed
qed (simp add: map_filter_simps)

text \<open>A descriptor that \<open>select\<close> reports for the events \<open>evs\<close>.\<close>

definition select_ready :: "'d optab \<Rightarrow> 'd vfs \<Rightarrow> nat \<Rightarrow> nat \<Rightarrow> bool" where
  "select_ready tbl s evs fd \<longleftrightarrow>
     (case get_fd_node s (int fd) of None \<Rightarrow> False | Some n \<Rightarrow> node_poll tbl s n AND evs \<noteq> 0)"

lemma fd_isset_set_bit:
  assumes "fd < 1024" and "length fs = 16"
  shows "fd_isset k (fd_set_bit fd fs) \<longleftrightarrow> k = fd \<or> fd_isset k fs"
proof (cases "k div 64 = fd div 64")
  case True
  have "fd div 64 < length fs"
    using assms by simp
  moreover have "k mod 64 = fd mod 64 \<longleftrightarrow> k = fd"
    using True by (metis div_mult_mod_eq)
  ultimately show ?thesis
    using True by (auto simp: fd_isset_def fd_set_bit_def bit_simps)
next
  case False
  then show ?thesis
    by (auto simp: fd_isset_def fd_set_bit_def)
qed

lemma fd_isset_zero: "k < 1024 \<Longrightarrow> \<not> fd_isset k fd_zero"
  by (simp add: fd_isset_def fd_zero_def)

definition select_spec :: "'d optab \<Rightarrow> 'd vfs \<Rightarrow> fd_sets \<Rightarrow> nat \<Rightarrow> nat \<times> fd_sets \<Rightarrow> bool" where
  "select_spec tbl s inp n acc \<longleftrightarrow>
     length (rfds (snd acc)) = 16 \<and> length (wfds (snd acc)) = 16 \<and> length (efds (snd acc)) = 16 \<and>
     (\<forall>k<1024.
        (fd_isset k (rfds (snd acc)) \<longleftrightarrow> k < n \<and> fd_isset k (rfds inp) \<and> select_ready tbl s POLLIN_K k) \<and>
        (fd_isset k (wfds (snd acc)) \<longleftrightarrow> k < n \<and> fd_isset k (wfds inp) \<and> select_ready tbl s POLLOUT_K k) \<and>
        (fd_isset k (efds (snd acc)) \<longleftrightarrow> k < n \<and> fd_isset k (efds inp) \<and> select_ready tbl s (POLLERR OR POLLHUP_K OR POLLNVAL) k)) \<and>
     fst acc =
       (\<Sum>k<n. of_bool (fd_isset k (rfds inp) \<and> select_ready tbl s POLLIN_K k) +
              of_bool (fd_isset k (wfds inp) \<and> select_ready tbl s POLLOUT_K k) +
              of_bool (fd_isset k (efds inp) \<and> select_ready tbl s (POLLERR OR POLLHUP_K OR POLLNVAL) k))"

lemma select_fd_eq:
  "select_fd tbl s inp fd (c, out) =
    (c + of_bool (fd_isset fd (rfds inp) \<and> select_ready tbl s POLLIN_K fd) +
         of_bool (fd_isset fd (wfds inp) \<and> select_ready tbl s POLLOUT_K fd) +
         of_bool (fd_isset fd (efds inp) \<and> select_ready tbl s (POLLERR OR POLLHUP_K OR POLLNVAL) fd),
     \<lparr>rfds = if fd_isset fd (rfds inp) \<and> select_ready tbl s POLLIN_K fd then fd_set_bit fd (rfds out) else rfds out,
      wfds = if fd_isset fd (wfds inp) \<and> select_ready tbl s POLLOUT_K fd then fd_set_bit fd (wfds out) else wfds out,
      efds = if fd_isset fd (efds inp) \<and> select_ready tbl s (POLLERR OR POLLHUP_K OR POLLNVAL) fd
             then fd_set_bit fd (efds out) else efds out\<rparr>)"
  by (simp add: select_fd_def select_ready_def get_fd_node_def Let_def split: option.splits)

lemma length_fd_set_bit [simp]: "length (fd_set_bit fd fs) = length fs"
  by (simp add: fd_set_bit_def)

lemma select_fd_spec:
  assumes "select_spec tbl s inp n acc" and "n < 1024"
  shows "select_spec tbl s inp (Suc n) (select_fd tbl s inp n acc)"
proof -
  obtain c out where acc: "acc = (c, out)"
    by fastforce
  show ?thesis
    using assms unfolding acc select_spec_def select_fd_eq
    by (simp add: fd_isset_set_bit less_Suc_eq) blast
qed

lemma select_fold_spec:
  "n \<le> 1024 \<Longrightarrow> select_spec tbl s inp n
    (fold (select_fd tbl s inp) [0..<n] (0, \<lparr>rfds = fd_zero, wfds = fd_zero, efds = fd_zero\<rparr>))"
proof (induction n)
  case 0
  then show ?case
    by (simp add: select_spec_def fd_isset_zero) (simp add: fd_zero_def)
next
  case (Suc n)
  then show ?case
    using select_fd_spec [of tbl s inp n] by simp
qed

section \<open>The drivers keep the descriptor accounting\<close>

lemma keeps_refl: "keeps (nodes s) s s"
  by (simp add: keeps_def)

lemma keeps_trans: "keeps (nodes s) s t \<Longrightarrow> keeps (nodes t) t u \<Longrightarrow> keeps (nodes s) s u"
  by (simp add: keeps_def)

lemma keeps_upd_sock: "keeps (nodes s) s (upd_sock i f s)"
  by (simp add: keeps_def upd_sock_def)

lemma keeps_reset: "keeps (nodes s) s (reset_socket i s)"
  by (cases "nodes s (sock_nid s i)") (auto simp: keeps_def reset_socket_def upd_sock_def upd_node_def node_refs_def sock_nid_def)

lemma keeps_detach: "keeps (nodes s) s (detach_peer i p s)"
  by (simp add: detach_peer_def keeps_upd_sock keeps_refl)

lemma keeps_release_socket: "keeps (nodes s) s (release_socket_index index s)"
proof (induction index s rule: release_socket_index.induct)
  case (1 index s)
  show ?case
  proof (cases "\<not> valid_index index \<or> nat index \<ge> length (sockets (drv s)) \<or> \<not> in_use (sock s (nat index))")
    case True
    then show ?thesis
      by (subst release_socket_index.simps) (auto simp: Let_def keeps_refl)
  next
    case False
    define i pending where "i = nat index" and "pending = pending_index (sock s i)"
    define s1 where "s1 = upd_sock i (\<lambda>x. x\<lparr>in_use := False, refcount := 0\<rparr>) s"
    define s2 where "s2 = detach_peer i (peer_index (sock s i)) s1"
    define s3 where "s3 = (if valid_index pending \<and> in_use (sock s2 (nat pending)) \<and> refcount (sock s2 (nat pending)) > 0
      then release_socket_index pending (upd_sock (nat pending) (\<lambda>x. x\<lparr>refcount := 1\<rparr>) s2) else s2)"
    have run: "release_socket_index index s = reset_socket i s3"
      using False by (subst release_socket_index.simps) (simp add: i_def pending_def s1_def s2_def s3_def Let_def)
    have "keeps (nodes s2) s2 s3"
    proof (cases "valid_index pending \<and> in_use (sock s2 (nat pending)) \<and> refcount (sock s2 (nat pending)) > 0")
      case True
      then show ?thesis
        unfolding s3_def using 1 [OF _ i_def _ refl pending_def s1_def s2_def True] False
        by (simp add: i_def) (rule keeps_trans [OF keeps_upd_sock])
    next
      case False
      then have "s3 = s2"
        by (simp only: s3_def if_False)
      then show ?thesis
        by (simp add: keeps_refl)
    qed
    moreover have "keeps (nodes s) s s2"
      unfolding s2_def s1_def by (rule keeps_trans [OF keeps_upd_sock keeps_detach])
    ultimately show ?thesis
      unfolding run by (intro keeps_trans [OF keeps_trans keeps_reset])
  qed
qed

lemma keeps_local_open: "keeps (nodes s) s (local_open n s)"
  by (simp add: local_open_def keeps_upd_sock keeps_refl split: option.splits)

lemma keeps_local_close: "keeps (nodes s) s (local_close n s)"
proof -
  have "keeps (nodes s) s (release_socket_index k (upd_sock i f s))" for k i f
    by (rule keeps_trans [OF keeps_upd_sock keeps_release_socket])
  then show ?thesis
    by (simp add: local_close_def keeps_upd_sock keeps_refl Let_def split: option.splits)
qed

interpretation drivers: vfs_driver "kernel_table mem" for mem
proof unfold_locales
  fix k n and f :: "nid \<Rightarrow> 'a epv \<Rightarrow> 'a epv" and s :: "'a epv"
  show "keeps (nodes s) s (f n s)" if "o_open (kernel_table mem k) = Some f"
    using that keeps_local_open
    by (auto simp: kernel_table_def g_local_socket_ops_def epoll_ops_def g_ramfs_ops_def split: if_splits)
  show "keeps (nodes s) s (f n s)" if "o_close (kernel_table mem k) = Some f"
    using that keeps_local_close
    by (auto simp: kernel_table_def g_local_socket_ops_def epoll_ops_def g_ramfs_ops_def split: if_splits)
  show "keeps ((nodes s)(n := None)) s (o_destroy (kernel_table mem k) n s)"
    by (simp add: kernel_table_def g_local_socket_ops_def epoll_ops_def g_ramfs_ops_def epoll_destroy_def delete_node_def keeps_def)
qed

text \<open>A new epoll node starts with the one reference of its descriptor, or is gone again.\<close>

lemma epoll_create_refs:
  assumes ok: "ref_ok ext s" "tables_ok s" "room (ext(n := ext n + 1)) s" and n: "nodes s n = None" "ext n = 0"
    and run: "vfs_sys_epoll_create (kernel_table mem) mem1 mem2 mem3 n s = (r, s')"
  shows "ref_ok ext s' \<and> tables_ok s' \<and> length (tables s') = length (tables s)"
proof (cases "mem1 \<and> mem2")
  case False
  then have "s' = s"
    using run by (cases mem1; cases mem2) (simp_all add: vfs_sys_epoll_create_def)
  then show ?thesis
    using ok by simp
next
  case True
  define s1 where "s1 = s\<lparr>nodes := (nodes s)(n \<mapsto>
      blank_node\<lparr>n_type := EPOLL, n_ops := Some EPOLL_OPS, n_references := 1, n_managed := True\<rparr>),
    drv := (drv s)\<lparr>epolls := (epolls (drv s))(n \<mapsto> [])\<rparr>\<rparr>"
  obtain fd s2 where alloc: "alloc_fd mem3 (Some n) s1 = (fd, s2)"
    by fastforce
  have s': "s' = release (kernel_table mem) n s2"
    using run True alloc by (simp add: vfs_sys_epoll_create_def Let_def s1_def)
  have "ref_at (ext n) s n"
    using ok(1) by (simp add: ref_ok_def)
  then have none: "fd_refs s n = 0"
    using n by (simp add: ref_at_def)
  have one: "ref_ok (ext(n := ext n + 1)) s1"
    unfolding ref_ok_def
  proof
    fix m
    have "ref_at (ext m) s m" and same: "fd_refs s1 m = fd_refs s m"
      using ok(1) by (simp_all add: ref_ok_def s1_def fd_refs_def)
    then show "ref_at ((ext(n := ext n + 1)) m) s1 m"
      using none n unfolding ref_at_def same by (cases "m = n"; cases "nodes s m") (simp_all add: s1_def)
  qed
  have "tables_ok s1" "room (ext(n := ext n + 1)) s1" "nodes s1 n \<noteq> None" "length (tables s1) = length (tables s)"
    using ok(2,3) by (simp_all add: s1_def tables_ok_def room_def)
  then have s2: "ref_ok (ext(n := ext n + 1)) s2 \<and> tables_ok s2 \<and> length (tables s2) = length (tables s)"
    using drivers.ref_ok_alloc_fd [OF one _ _ _ alloc] by simp
  then have "ref_ok ext s'"
    using drivers.ref_ok_release [of ext n s2 mem] n(2) s' by simp
  then show ?thesis
    using s2 drivers.release_tables [of mem n s2] by (auto simp: s' tables_ok_def)
qed

section \<open>Properties\<close>

text \<open>The calls that change descriptor tables, with the creation of epoll nodes at unused addresses.\<close>

inductive descriptor_run :: "bool \<Rightarrow> 'a epv \<Rightarrow> 'a epv \<Rightarrow> bool" for mem where
  none: "descriptor_run mem s s"
| call: "descriptor_run mem s t \<Longrightarrow> fd_step (kernel_table mem) t u \<Longrightarrow> descriptor_run mem s u"
| epoll: "descriptor_run mem s t \<Longrightarrow> nodes t n = None \<Longrightarrow>
    vfs_sys_epoll_create (kernel_table mem) mem1 mem2 mem3 n t = (r, u) \<Longrightarrow> descriptor_run mem s u"

lemma room_weaken: "room (\<lambda>n. ext n + 1) s \<Longrightarrow> (\<And>n. 0 \<le> ext n) \<Longrightarrow> length (tables t) = length (tables s) \<Longrightarrow>
    room ext t \<and> room (ext(n := ext n + 1)) t"
  unfolding room_def by (simp, smt (verit))

lemma descriptor_run_refs:
  assumes "descriptor_run mem s s'" and "ref_ok ext s" and "tables_ok s" and "room (\<lambda>n. ext n + 1) s" and ext: "\<And>n. 0 \<le> ext n"
  shows "ref_ok ext s' \<and> tables_ok s' \<and> length (tables s') = length (tables s)"
  using assms(1-4)
proof (induction rule: descriptor_run.induct)
  case (call s t u)
  then show ?case
    using drivers.fd_step_refs [of mem t u ext] room_weaken [OF call.prems(3) ext, of t] by simp
next
  case (epoll s t n mem1 mem2 mem3 r u)
  then have t: "ref_ok ext t" "tables_ok t" "length (tables t) = length (tables s)"
    by simp_all
  then have "ref_at (ext n) t n"
    by (simp add: ref_ok_def)
  then have "ext n = 0"
    using epoll(2) ext [of n] by (simp add: ref_at_def)
  then show ?case
    using epoll_create_refs [OF t(1,2) conjunct2 [OF room_weaken [OF epoll.prems(3) ext t(3)]] epoll(2) _ epoll(3)] t(3)
    by simp
qed simp

text \<open>C15. Descriptors and nodes stay in step over any sequence of descriptor calls (allocation, close,
  the copy of a table at fork, the closing of a table at exit, thread switches, new epoll nodes): a
  descriptor never refers to a node that is gone, and the reference count of every node that is freed
  by counting is exactly the number of descriptors that refer to it plus the references held
  elsewhere, so it is freed with the last of them and not before.\<close>

theorem descriptors_never_dangle:
  assumes "descriptor_run mem s s'" and "ref_ok ext s" and "tables_ok s" and "room (\<lambda>n. ext n + 1) s" and "\<forall>n. 0 \<le> ext n"
  shows "(\<forall>t < length (tables s'). \<forall>d \<in> set (tables s' ! t). \<forall>n. fd_node d = Some n \<longrightarrow> nodes s' n \<noteq> None) \<and>
    (\<forall>n v. nodes s' n = Some v \<and> n_managed v \<longrightarrow> int (n_references v) = int (fd_refs s' n) + ext n \<and> 0 < n_references v)"
proof (intro conjI allI ballI impI)
  have ok: "ref_ok ext s'"
    using descriptor_run_refs assms by blast
  then have at: "ref_at (ext n) s' n" for n
    by (simp add: ref_ok_def)
  fix t d n
  assume d: "t < length (tables s')" "d \<in> set (tables s' ! t)" "fd_node d = Some n"
  then obtain i where "i < length (tables s' ! t)" "fd_node (tables s' ! t ! i) = Some n"
    by (auto simp: in_set_conv_nth)
  then have "0 < fd_refs s' n"
    using fd_refs_pos d(1) by blast
  moreover have "0 \<le> ext n"
    using assms(5) by blast
  ultimately show "nodes s' n \<noteq> None"
    using at [of n] by (cases "nodes s' n") (auto simp: ref_at_def)
next
  fix n v
  assume v: "nodes s' n = Some v \<and> n_managed v"
  have "ref_at (ext n) s' n"
    using descriptor_run_refs [OF assms(1-4)] assms(5) by (simp add: ref_ok_def)
  then show "int (n_references v) = int (fd_refs s' n) + ext n" "0 < n_references v"
    using v by (auto simp: ref_at_def)
qed

text \<open>A machine without sockets whose one thread makes an epoll descriptor.\<close>

definition ep_boot :: "unit epv" where
  "ep_boot = \<lparr>nodes = Map.empty, tables = [replicate 8 empty_fd], cur = Some 0, g_root = None,
    drv = \<lparr>ram = Map.empty, sockets = [], sock_base = 0, epolls = Map.empty\<rparr>\<rparr>"

definition ep_created :: "unit epv" where
  "ep_created = snd (vfs_sys_epoll_create (kernel_table True) True True True 5 ep_boot)"

lemma ep_created_state:
  "get_fd_node ep_created 0 = Some 5" "n_managed (node ep_created 5)" "nodes ep_created 5 \<noteq> None" "fd_refs ep_created 5 = 1"
  "tables ep_created ! 0 ! 0 = \<lparr>fd_node = Some 5, fd_offset = 0, fd_flags = 0\<rparr>" "length (tables ep_created) = 1"
  by code_simp+

lemma ep_boot_ok: "ref_ok (\<lambda>_. 0) ep_boot" "tables_ok ep_boot" "room (\<lambda>n. 0 + 1) ep_boot"
  by (simp_all add: ep_boot_def ref_ok_def ref_at_def fd_refs_def refs_in_def empty_fd_def tables_ok_def MAX_FDS_def room_def)

lemma ep_created_run: "descriptor_run True ep_boot ep_created"
  by (rule descriptor_run.epoll [OF descriptor_run.none, where n = 5 and r = "fst (vfs_sys_epoll_create (kernel_table True) True True True 5 ep_boot)"])
    (simp_all add: ep_created_def, simp add: ep_boot_def)

theorem descriptors_never_dangle_witness:
  "descriptor_run True ep_boot ep_created \<and> fd_node (tables ep_created ! 0 ! 0) = Some 5 \<and> nodes ep_created 5 \<noteq> None \<and>
    int (n_references (node ep_created 5)) = 1"
proof -
  obtain v where v: "nodes ep_created 5 = Some v" "n_managed v" "node ep_created 5 = v"
    using ep_created_state(2,3) by (auto simp: node_def)
  then show ?thesis
    using descriptors_never_dangle [OF ep_created_run ep_boot_ok] ep_created_state ep_created_run by auto
qed

text \<open>C16. \<open>poll\<close> with a timeout returns: once the clock has reached the deadline at one of the moments
  it looks, the call has a result, and the result is that of the first moment at which a fatal signal is
  pending, an entry is ready or the deadline has passed.  With a fatal signal it is the code -4; without one it
  is the number of entries with a non-zero \<open>revents\<close> field, each entry filled from the readiness of its
  descriptor at that moment, and 0 only on or after the deadline.\<close>

theorem poll_returns_by_deadline:
  assumes "cur s \<noteq> None" and "0 \<le> timeout" and "m \<in> set ms" and "wadd 64 now (nat timeout) \<le> m_now m"
  shows "\<exists>r out pre m' post. vfs_sys_poll tbl now pfds timeout s ms = Some (r, out) \<and> ms = pre @ m' # post \<and>
    (\<forall>x\<in>set pre. \<not> m_fatal x \<and> (\<forall>p\<in>set pfds. p_revents (poll_fd tbl (m_vfs x) p) = 0) \<and> m_now x < wadd 64 now (nat timeout)) \<and>
    (if m_fatal m' then r = -4
     else out = map (poll_fd tbl (m_vfs m')) pfds \<and> r = int (length (filter (\<lambda>p. p_revents p \<noteq> 0) out)) \<and>
       (r = 0 \<longrightarrow> wadd 64 now (nat timeout) \<le> m_now m'))"
proof -
  let ?scan = "poll_scan tbl pfds" and ?dl = "poll_deadline now timeout"
  have ends: "ends_wait ?scan ?dl x \<longleftrightarrow> m_fatal x \<or> (\<exists>p\<in>set pfds. p_revents (poll_fd tbl (m_vfs x) p) \<noteq> 0) \<or> wadd 64 now (nat timeout) \<le> m_now x" for x
    using assms(2) by (auto simp: ends_wait_def poll_deadline_def poll_scan_eq filter_empty_conv)
  then obtain r out where run: "wait_until ?scan ?dl ms pfds = Some (r, out)"
    using wait_until_returns [of ?scan ?dl ms pfds] assms(3,4) by fastforce
  obtain pre m' post where w: "ms = pre @ m' # post" "\<forall>x\<in>set pre. \<not> ends_wait ?scan ?dl x" "ends_wait ?scan ?dl m'"
      "if m_fatal m' then r = -4 else r = int (fst (?scan (m_vfs m'))) \<and> out = snd (?scan (m_vfs m'))"
    using wait_until_result [OF run] by blast
  have "if m_fatal m' then r = -4 else out = map (poll_fd tbl (m_vfs m')) pfds \<and> r = int (length (filter (\<lambda>p. p_revents p \<noteq> 0) out)) \<and>
      (r = 0 \<longrightarrow> wadd 64 now (nat timeout) \<le> m_now m')"
    using w(3,4) by (auto simp: ends poll_scan_eq filter_empty_conv split: if_splits)
  moreover have "vfs_sys_poll tbl now pfds timeout s ms = Some (r, out)"
    using run assms(1) by (auto simp: vfs_sys_poll_def)
  ultimately show ?thesis
    using w(1,2) by (intro exI [of _ r] exI [of _ out] exI [of _ pre] exI [of _ m'] exI [of _ post]) (auto simp: ends not_le)
qed

theorem poll_returns_by_deadline_witness:
  "\<exists>out. vfs_sys_poll no_ops 3 [\<lparr>p_fd = 9, p_events = 1, p_revents = 0\<rparr>] 5 example_vfs
      [\<lparr>m_fatal = False, m_now = 20, m_vfs = example_vfs\<rparr>] = Some (1, out)"
proof -
  let ?m = "\<lparr>m_fatal = False, m_now = 20, m_vfs = example_vfs\<rparr>" and ?p = "\<lparr>p_fd = 9, p_events = 1, p_revents = 0\<rparr>"
  have "wadd 64 3 (nat 5) \<le> m_now ?m" "cur example_vfs \<noteq> None"
    by (simp_all add: wadd_def example_vfs_def)
  moreover have "p_revents (poll_fd no_ops example_vfs ?p) \<noteq> 0"
    by code_simp
  ultimately show ?thesis
    using poll_returns_by_deadline [of example_vfs 5 ?m "[?m]" 3 no_ops "[?p]"] by (auto simp: Cons_eq_append_conv)
qed

text \<open>C17. \<open>select\<close> reports exactly what is ready: after a scan, descriptor \<open>k\<close> is in the read set when
  it is below \<open>nfds\<close>, was asked for and its node is readable, and likewise for the other two sets.\<close>

theorem select_reports_ready:
  assumes "tables_ok s" and "cur s = Some t" and "k < 1024"
  shows "(fd_isset k (rfds (snd (select_scan tbl nfds inp s))) \<longleftrightarrow>
      int k < nfds \<and> fd_isset k (rfds inp) \<and> select_ready tbl s POLLIN_K k) \<and>
    (fd_isset k (wfds (snd (select_scan tbl nfds inp s))) \<longleftrightarrow>
      int k < nfds \<and> fd_isset k (wfds inp) \<and> select_ready tbl s POLLOUT_K k) \<and>
    (fd_isset k (efds (snd (select_scan tbl nfds inp s))) \<longleftrightarrow>
      int k < nfds \<and> fd_isset k (efds inp) \<and> select_ready tbl s (POLLERR OR POLLHUP_K OR POLLNVAL) k)"
proof -
  let ?n = "min (nat nfds) (length (tables s ! t))"
  have "length (tables s ! t) \<le> MAX_FDS"
    using assms(1,2) by (auto simp: tables_ok_def)
  then have "?n \<le> 1024"
    by (simp add: MAX_FDS_def)
  then have spec: "select_spec tbl s inp ?n (select_scan tbl nfds inp s)"
    using select_fold_spec [of ?n tbl s inp] assms(2) by (simp add: select_scan_def)
  have "k < length (tables s ! t)" if "select_ready tbl s evs k" for evs
    using that assms(2) by (auto simp: select_ready_def get_fd_node_def get_fd_def split: if_splits)
  then have "k < ?n \<and> P \<and> select_ready tbl s evs k \<longleftrightarrow> int k < nfds \<and> P \<and> select_ready tbl s evs k" for evs P
    by auto
  then show ?thesis
    using spec assms(3) unfolding select_spec_def by simp
qed

theorem select_reports_ready_witness:
  "fd_isset 0 (rfds (snd (select_scan no_ops 1 \<lparr>rfds = fd_set_bit 0 fd_zero, wfds = fd_zero, efds = fd_zero\<rparr> example_vfs)))"
proof -
  have "select_ready no_ops example_vfs POLLIN_K 0" "fd_isset 0 (fd_set_bit 0 fd_zero)"
    by code_simp+
  then show ?thesis
    using select_reports_ready [OF example_vfs_ok, of 0 no_ops 1 "\<lparr>rfds = fd_set_bit 0 fd_zero, wfds = fd_zero, efds = fd_zero\<rparr>"]
    by simp
qed

text \<open>An entry that watches a readable end of a stream for input has an event to report.\<close>

lemma epoll_check_stream:
  fixes s :: "'a epv"
  assumes "stream_open a i j b s" and "\<not> listening (sock s j)" and "0 < rx_size (sock s j)"
    and "e_fd e = b" and "ev_events (e_event e) AND EPOLLIN \<noteq> 0"
  shows "\<exists>ev. epoll_check (kernel_table mem) s e = Some ev \<and> ev_data ev = ev_data (e_event e) \<and> ev_events ev AND EPOLLIN \<noteq> 0"
proof -
  have b: "socket_from_fd s b = Some j"
    using assms(1) by (simp add: stream_open_def)
  note nb = socket_from_node_Some [OF b [unfolded socket_from_fd_def]]
  obtain f where f: "get_fd s b = Some f" "fd_node f = Some (sock_nid s j)"
    using nb(3) by (auto simp: get_fd_node_def bind_eq_Some_conv)
  have "node_poll (kernel_table mem) s (sock_nid s j) = local_poll (sock_nid s j) s"
    using nb(5) by (simp add: node_poll_def op_of_def kernel_table_def g_local_socket_ops_def)
  moreover have "local_poll (sock_nid s j) s AND POLLIN_K \<noteq> 0"
    using b nb(3) assms(2,3)
    by (simp add: local_poll_def socket_from_fd_def Let_def POLLIN_K_def POLLOUT_K_def POLLHUP_K_def)
  ultimately have "epoll_revents (node_poll (kernel_table mem) s (sock_nid s j)) (ev_events (e_event e)) AND EPOLLIN \<noteq> 0"
    using assms(5) by (simp add: epoll_revents_def EPOLLIN_def EPOLLOUT_def EPOLLERR_def)
  then obtain rv where rv: "rv = epoll_revents (node_poll (kernel_table mem) s (sock_nid s j)) (ev_events (e_event e))"
      "rv AND EPOLLIN \<noteq> 0"
    by blast
  from rv(2) have "rv \<noteq> 0"
    by (rule contrapos_nn) simp
  define ev where "ev = \<lparr>ev_events = rv, ev_data = ev_data (e_event e)\<rparr>"
  have ev: "epoll_check (kernel_table mem) s e = Some ev" "ev_data ev = ev_data (e_event e)" "ev_events ev AND EPOLLIN \<noteq> 0"
    using f assms(4) rv \<open>rv \<noteq> 0\<close> by (simp_all add: ev_def epoll_check_def Let_def)
  then show ?thesis
    by blast
qed

text \<open>C18. Readiness follows the data: when a process sends on one end of a local stream and bytes are
  accepted, an \<open>epoll\<close> set in which some entry watches the other end for input reports that entry, with its
  \<open>EPOLLIN\<close> bit and the caller's data word, behind the events of the entries before it that are ready; only
  when these alone fill the caller's array is it left for the next call.\<close>

theorem epoll_sees_stream:
  fixes s :: "'a epv"
  assumes "stream_open a i j b s" and "\<not> listening (sock s j)"
    and "entries s n = es @ e # es'" and "e_fd e = b" and "ev_events (e_event e) AND EPOLLIN \<noteq> 0"
    and "stream_put a d s = (k, s')" and "0 < k"
    and "int (length (filter (\<lambda>x. epoll_check (kernel_table mem) s' x \<noteq> None) es)) < maxevents"
  shows "\<exists>evs ev evs'. snd (epoll_scan (kernel_table mem) n maxevents s') = evs @ ev # evs' \<and>
    length evs = length (filter (\<lambda>x. epoll_check (kernel_table mem) s' x \<noteq> None) es) \<and>
    ev_data ev = ev_data (e_event e) \<and> ev_events ev AND EPOLLIN \<noteq> 0"
proof -
  define x where "x = snd (ring_write (sock s j) d)"
  have s': "s' = upd_sock j (\<lambda>_. x) s"
    using stream_put_eq [OF assms(1), of d] assms(6) by (simp add: x_def)
  have open': "stream_open a i j b s'" and content: "rx_content (sock s' j) = rx_content (sock s j) @ take k d"
      and k: "k \<le> length d"
    using unix_stream.put_law [OF assms(1,6)] by simp_all
  have "length (rx_content (sock s' j)) > 0"
    unfolding content using assms(7) k by (cases d) auto
  then have size: "0 < rx_size (sock s' j)"
    by simp
  have "j < length (socks s)"
    using assms(1) socket_from_fd_Some(1) unfolding stream_open_def by blast
  then have quiet: "\<not> listening (sock s' j)"
    using assms(2) by (simp add: s' sock_socks x_def ring_write_def Let_def)
  obtain ev where ev: "epoll_check (kernel_table mem) s' e = Some ev" "ev_data ev = ev_data (e_event e)" "ev_events ev AND EPOLLIN \<noteq> 0"
    using epoll_check_stream [OF open' quiet size assms(4,5)] by blast
  let ?tbl = "kernel_table mem :: 'a ep_drv_scheme optab"
  have "entries s' n = es @ e # es'"
    using assms(3) by (simp add: s' entries_def upd_sock_def)
  then have scan: "snd (epoll_scan ?tbl n maxevents s') =
      take (nat maxevents) (List.map_filter (epoll_check ?tbl s') es @ ev # List.map_filter (epoll_check ?tbl s') es')"
    using ev(1) by (simp add: epoll_scan_def epoll_collect_eq List.map_filter_def)
  have len: "length (List.map_filter (epoll_check ?tbl s') es) = length (filter (\<lambda>x. epoll_check ?tbl s' x \<noteq> None) es)"
    by (simp add: List.map_filter_def comp_def)
  then obtain q where "nat maxevents - length (List.map_filter (epoll_check ?tbl s') es) = Suc q"
      "length (List.map_filter (epoll_check ?tbl s') es) \<le> nat maxevents"
    using assms(8) by (cases "nat maxevents - length (List.map_filter (epoll_check ?tbl s') es)") auto
  then show ?thesis
    using scan len ev(2,3) by (intro exI [of _ "List.map_filter (epoll_check ?tbl s') es"] exI [of _ ev] exI) auto
qed

text \<open>A connected pair with descriptors 0 and 1, and an epoll node that watches a closed descriptor and
  then descriptor 1.\<close>

definition end_of_pair :: "int \<Rightarrow> local_socket" where
  "end_of_pair p = zero_socket\<lparr>in_use := True, refcount := 1, ls_type := SOCK_STREAM, peer_index := p\<rparr>"

definition ep_pair :: "unit epv" where
  "ep_pair =
    \<lparr>nodes = (\<lambda>n. if n < 2 then Some (blank_node\<lparr>n_ops := Some LOCAL_OPS, n_type := CHAR_DEVICE\<rparr>) else None),
     tables = [[\<lparr>fd_node = Some 0, fd_offset = 0, fd_flags = 0\<rparr>, \<lparr>fd_node = Some 1, fd_offset = 0, fd_flags = 0\<rparr>]],
     cur = Some 0, g_root = None,
     drv = \<lparr>ram = Map.empty,
            sockets = (replicate LOCAL_SOCKET_POOL_SIZE zero_socket)[0 := end_of_pair 1, 1 := end_of_pair 0],
            sock_base = 0, epolls = [7 \<mapsto> [\<lparr>e_fd = 5, e_event = \<lparr>ev_events = EPOLLIN, ev_data = 98\<rparr>\<rparr>,
              \<lparr>e_fd = 1, e_event = \<lparr>ev_events = EPOLLIN, ev_data = 99\<rparr>\<rparr>]]\<rparr>\<rparr>"

lemma ep_pair_open: "stream_open 0 0 1 1 ep_pair"
proof -
  have p: "0 < LOCAL_SOCKET_POOL_SIZE" "1 < LOCAL_SOCKET_POOL_SIZE" "Suc 0 < LOCAL_SOCKET_POOL_SIZE"
    by (simp_all add: LOCAL_SOCKET_POOL_SIZE_def)
  let ?z = "replicate LOCAL_SOCKET_POOL_SIZE zero_socket"
  have "pool_ok ?z"
    by (simp add: pool_ok_def linked_def)
  then have "pool_ok (?z[0 := end_of_pair (-1), 1 := end_of_pair (-1)])"
    using p by (intro pool_ok_fresh) (simp_all add: end_of_pair_def)
  then have "pool_ok (?z[0 := end_of_pair (-1), 1 := end_of_pair (-1), 0 := end_of_pair 1, 1 := end_of_pair 0])"
    using pool_ok_link [of _ 0 1 "end_of_pair 1" "end_of_pair 0"] p by (simp add: end_of_pair_def)
  moreover have "?z[0 := end_of_pair (-1), 1 := end_of_pair (-1), 0 := end_of_pair 1, 1 := end_of_pair 0] =
      ?z[0 := end_of_pair 1, 1 := end_of_pair 0]"
    by (simp add: list_update_swap [of "Suc 0" 0])
  ultimately show ?thesis
    using p by (simp add: stream_open_def ep_pair_def socks_def sock_def socket_from_fd_def socket_from_node_def get_fd_node_def
        get_fd_def node_def Let_def end_of_pair_def) (simp add: zero_socket_def)
qed

theorem epoll_sees_stream_witness:
  "\<exists>k s' ev evs. stream_put 0 [65] ep_pair = (k, s') \<and> snd (epoll_scan (kernel_table True) 7 4 s') = ev # evs \<and> ev_data ev = 99 \<and>
    length (entries ep_pair 7) = 2 \<and> e_fd (hd (entries ep_pair 7)) = 5"
proof -
  let ?e = "\<lparr>e_fd = 5, e_event = \<lparr>ev_events = EPOLLIN, ev_data = 98\<rparr>\<rparr>" and ?e' = "\<lparr>e_fd = 1, e_event = \<lparr>ev_events = EPOLLIN, ev_data = 99\<rparr>\<rparr>"
  obtain k s' where put: "stream_put 0 [65] ep_pair = (k, s')"
    by fastforce
  have sock: "sock ep_pair (Suc 0) = end_of_pair 0"
    by (simp add: sock_def ep_pair_def LOCAL_SOCKET_POOL_SIZE_def)
  have "rx_size (sock ep_pair (Suc 0)) = 0" "\<not> listening (sock ep_pair (Suc 0))"
    by (simp_all add: sock end_of_pair_def zero_socket_def)
  moreover from this have "0 < k"
    using unix_stream.put_law [OF ep_pair_open put] by (simp add: LOCAL_SOCKET_BUFFER_SIZE_def)
  moreover have ents: "entries ep_pair 7 = [?e] @ [?e']"
    by (simp add: entries_def ep_pair_def)
  moreover have "s' = upd_sock 1 (\<lambda>_. snd (ring_write (sock ep_pair 1) [65])) ep_pair"
    using stream_put_eq [OF ep_pair_open, of "[65]"] put by simp
  then have "epoll_check (kernel_table True) s' ?e = None"
    by (simp add: epoll_check_def get_fd_def upd_sock_def ep_pair_def)
  ultimately show ?thesis
    using epoll_sees_stream [OF ep_pair_open, of 7 "[?e]" ?e' "[]" "[65]" k s' True 4] put by (auto simp: EPOLLIN_def)
qed

text \<open>Adding a descriptor to an epoll set and deleting it again leaves the set as it was.\<close>

theorem epoll_add_del_roundtrip:
  assumes "epoll_node s epfd = Some n" and "epolls (drv s) n = Some es"
    and "vfs_sys_epoll_ctl epfd 1 fd ev s = (r1, s1)" and "vfs_sys_epoll_ctl epfd 2 fd ev' s1 = (r2, s2)"
  shows "r1 = 0 \<and> r2 = 0 \<and> s2 = s"
proof -
  have s1: "s1 = set_entries n (\<lparr>e_fd = fd, e_event = ev\<rparr> # es) s" "r1 = 0"
    using assms(1-3) by (simp_all add: vfs_sys_epoll_ctl_def entries_def)
  have "get_fd_node s1 epfd = get_fd_node s epfd"
    by (cases "cur s") (simp_all add: s1 set_entries_def get_fd_node_def get_fd_def)
  moreover have "node s1 m = node s m" for m
    by (simp add: s1 set_entries_def node_def)
  ultimately have "epoll_node s1 epfd = Some n"
    using assms(1) by (cases "get_fd_node s epfd") (simp_all add: epoll_node_def)
  moreover have "entries s1 n = \<lparr>e_fd = fd, e_event = ev\<rparr> # es"
    by (simp add: s1 set_entries_def entries_def)
  ultimately have "r2 = 0" "s2 = set_entries n es s1"
    using assms(4) by (simp_all add: vfs_sys_epoll_ctl_def)
  moreover have "set_entries n es s1 = s"
    using assms(2) by (simp add: s1 set_entries_def fun_upd_idem)
  ultimately show ?thesis
    using s1 by simp
qed

theorem epoll_add_del_roundtrip_witness:
  "\<exists>s1 s2. vfs_sys_epoll_ctl 0 1 3 \<lparr>ev_events = 1, ev_data = 8\<rparr> ep_created = (0, s1) \<and>
    vfs_sys_epoll_ctl 0 2 3 \<lparr>ev_events = 0, ev_data = 0\<rparr> s1 = (0, s2) \<and> s2 = ep_created"
proof -
  obtain r1 s1 where one: "vfs_sys_epoll_ctl 0 1 3 \<lparr>ev_events = 1, ev_data = 8\<rparr> ep_created = (r1, s1)"
    by fastforce
  obtain r2 s2 where two: "vfs_sys_epoll_ctl 0 2 3 \<lparr>ev_events = 0, ev_data = 0\<rparr> s1 = (r2, s2)"
    by fastforce
  have "epoll_node ep_created 0 = Some 5" "epolls (drv ep_created) 5 = Some []"
    by code_simp+
  then show ?thesis
    using epoll_add_del_roundtrip [OF _ _ one two] one two by simp
qed

end
