(* ===== verification/Net_Buffer.thy ===== *)
theory Net_Buffer
  imports Byte_Queue
begin

text \<open>
  Packet buffers and the Internet checksum (\<open>src/src/kernel/net/netbuf.cpp\<close>, \<open>netbuf.hpp\<close>,
  \<open>checksum.cpp\<close>, the byte order helpers of \<open>ipv4.hpp\<close>).

  A buffer is its bytes with the offset of the data and its length, as the source keeps a start
  pointer, a data pointer and a length.  Multi-byte fields are read and written little-endian, as the
  supported machines do, and swapped where the source swaps them.
\<close>

section \<open>Byte order\<close>

primrec le_nat :: "byte list \<Rightarrow> nat" where
  "le_nat [] = 0"
| "le_nat (b # bs) = unat b + 256 * le_nat bs"

primrec le_bytes :: "nat \<Rightarrow> nat \<Rightarrow> byte list" where
  "le_bytes 0 n = []"
| "le_bytes (Suc k) n = of_nat n # le_bytes k (n div 256)"

definition get16 :: "byte list \<Rightarrow> nat \<Rightarrow> nat" where
  "get16 bs i = le_nat (take 2 (drop i bs))"

definition get32 :: "byte list \<Rightarrow> nat \<Rightarrow> 32 word" where
  "get32 bs i = of_nat (le_nat (take 4 (drop i bs)))"

definition htons :: "nat \<Rightarrow> nat" where
  "htons v = v mod 256 * 256 + v div 256 mod 256"

lemma length_le_bytes [simp]: "length (le_bytes k n) = k"
  by (induction k arbitrary: n) simp_all

lemma le_nat_bytes [simp]: "le_nat (le_bytes k n) = n mod 256 ^ k"
proof (induction k arbitrary: n)
  case (Suc k)
  have "n mod (256 * 256 ^ k) = 256 * (n div 256 mod 256 ^ k) + n mod 256"
    by (rule mod_mult2_eq)
  then show ?case
    using Suc by (simp add: unat_of_nat)
qed simp

lemma le_nat_bound: "le_nat bs < 256 ^ length bs"
proof (induction bs)
  case (Cons b bs)
  have "unat b < 256"
    using unsigned_less [where ?'a = nat, of b] by simp
  then show ?case
    using Cons by simp
qed simp

lemma le_nat_append: "le_nat (xs @ ys) = le_nat xs + 256 ^ length xs * le_nat ys"
  by (induction xs) (simp_all add: algebra_simps)

lemma htons_bound: "htons v < 65536"
proof -
  have "v mod 256 \<le> 255" "v div 256 mod 256 \<le> 255"
    by (simp_all flip: less_Suc_eq_le)
  then show ?thesis
    by (simp add: htons_def)
qed

lemma htons_htons [simp]: "v < 65536 \<Longrightarrow> htons (htons v) = v"
proof -
  assume "v < 65536"
  then have "v div 256 mod 256 = v div 256"
    by simp
  then show ?thesis
    by (simp add: htons_def)
qed

section \<open>Checksum\<close>

text \<open>The running sum is a 32-bit word; an odd last byte counts as the low half of a word.\<close>

fun sum_words :: "byte list \<Rightarrow> nat \<Rightarrow> nat" where
  "sum_words (a # b # bs) sm = sum_words bs (wadd 32 sm (unat a + 256 * unat b))"
| "sum_words [a] sm = wadd 32 sm (unat a)"
| "sum_words [] sm = sm"

function fold_carries :: "nat \<Rightarrow> nat" where
  "fold_carries sm = (if sm div 65536 \<noteq> 0 then fold_carries (sm mod 65536 + sm div 65536) else sm)"
  by pat_completeness auto
termination
proof (relation "measure id")
  fix sm :: nat
  assume "sm div 65536 \<noteq> 0"
  moreover have "sm = sm div 65536 * 65536 + sm mod 65536"
    by simp
  ultimately have "sm mod 65536 + sm div 65536 < sm"
    by linarith
  then show "(sm mod 65536 + sm div 65536, sm) \<in> measure id"
    by simp
qed simp

declare fold_carries.simps [simp del]

definition checksum :: "byte list \<Rightarrow> nat" where
  "checksum data = 65535 - fold_carries (sum_words data 0)"

definition checksum_pseudo :: "32 word \<Rightarrow> 32 word \<Rightarrow> nat \<Rightarrow> byte list \<Rightarrow> nat" where
  "checksum_pseudo src dst proto data =
    (let sm = unat src mod 65536;
         sm = wadd 32 sm (unat src div 65536 mod 65536);
         sm = wadd 32 sm (unat dst mod 65536);
         sm = wadd 32 sm (unat dst div 65536 mod 65536);
         sm = wadd 32 sm (htons proto);
         sm = wadd 32 sm (htons (length data mod 65536))
     in 65535 - fold_carries (sum_words data sm))"

section \<open>Buffers\<close>

definition DEFAULT_SIZE :: nat where
  "DEFAULT_SIZE = 2048"

definition HEADROOM :: nat where
  "HEADROOM = 128"

record netbuf =
  nb_buf :: "byte list"
  nb_off :: nat
  nb_len :: nat
  nb_src_ip :: "32 word"
  nb_dst_ip :: "32 word"
  nb_src_port :: nat
  nb_dst_port :: nat
  nb_protocol :: nat

definition sizeof_netbuf :: nat where
  "sizeof_netbuf = 56"

text \<open>\<open>kmalloc\<close> leaves the bytes of a new buffer undefined; \<open>raw\<close> is what it finds there, or
  \<open>None\<close> when there is no memory.\<close>

definition netbuf_alloc_sized :: "(nat \<Rightarrow> byte) option \<Rightarrow> nat \<Rightarrow> netbuf option" where
  "netbuf_alloc_sized raw total_size =
    (if total_size < HEADROOM \<or> total_size > 2 ^ 64 - 1 - sizeof_netbuf then None
     else
       case raw of None \<Rightarrow> None | Some f \<Rightarrow>
       Some \<lparr>nb_buf = map f [0..<total_size], nb_off = HEADROOM, nb_len = 0, nb_src_ip = 0, nb_dst_ip = 0,
             nb_src_port = 0, nb_dst_port = 0, nb_protocol = 0\<rparr>)"

definition netbuf_alloc :: "(nat \<Rightarrow> byte) option \<Rightarrow> netbuf option" where
  "netbuf_alloc raw = netbuf_alloc_sized raw DEFAULT_SIZE"

definition nb_data :: "netbuf \<Rightarrow> byte list" where
  "nb_data nb = take (nb_len nb) (drop (nb_off nb) (nb_buf nb))"

definition netbuf_push :: "nat \<Rightarrow> netbuf \<Rightarrow> netbuf option" where
  "netbuf_push sz nb =
    (if sz > nb_off nb then None else Some (nb\<lparr>nb_off := nb_off nb - sz, nb_len := nb_len nb + sz\<rparr>))"

definition netbuf_pull :: "nat \<Rightarrow> netbuf \<Rightarrow> netbuf option" where
  "netbuf_pull sz nb =
    (if sz > nb_len nb then None else Some (nb\<lparr>nb_off := nb_off nb + sz, nb_len := nb_len nb - sz\<rparr>))"

definition netbuf_put :: "nat \<Rightarrow> netbuf \<Rightarrow> netbuf option" where
  "netbuf_put sz nb =
    (if sz > length (nb_buf nb) - nb_off nb - nb_len nb then None else Some (nb\<lparr>nb_len := nb_len nb + sz\<rparr>))"

definition netbuf_set_len :: "nat \<Rightarrow> netbuf \<Rightarrow> bool \<times> netbuf" where
  "netbuf_set_len len nb =
    (if len > length (nb_buf nb) - nb_off nb then (False, nb) else (True, nb\<lparr>nb_len := len\<rparr>))"

text \<open>Stores through the data pointer.\<close>

definition netbuf_store :: "nat \<Rightarrow> byte list \<Rightarrow> netbuf \<Rightarrow> netbuf" where
  "netbuf_store pos bytes nb = nb\<lparr>nb_buf := memcpy_at (nb_buf nb) (nb_off nb + pos) bytes\<rparr>"

section \<open>Arithmetic of the checksum\<close>

text \<open>Folding the carries back computes the residue modulo 65535, with 65535 for a non-zero multiple.\<close>

definition ones_residue :: "nat \<Rightarrow> nat" where
  "ones_residue n = (if n = 0 then 0 else (n - 1) mod 65535 + 1)"

lemma ones_residue_mod: "ones_residue n mod 65535 = n mod 65535"
proof (cases n)
  case (Suc m)
  then have "ones_residue n mod 65535 = (m mod 65535 + 1) mod 65535"
    by (simp add: ones_residue_def)
  also have "\<dots> = n mod 65535"
    using Suc by (simp add: mod_Suc_eq)
  finally show ?thesis .
qed (simp add: ones_residue_def)

lemma ones_residue_bound: "ones_residue n \<le> 65535" "ones_residue n = 0 \<longleftrightarrow> n = 0"
proof -
  have lt: "(n - 1) mod 65535 < 65535"
    by (rule mod_less_divisor) simp
  have "n = 0 \<and> ones_residue n = 0 \<or> n \<noteq> 0 \<and> ones_residue n = (n - 1) mod 65535 + 1"
    by (simp add: ones_residue_def)
  with lt show "ones_residue n \<le> 65535" "ones_residue n = 0 \<longleftrightarrow> n = 0"
    by linarith+
qed

lemma ones_residue_unique:
  assumes "a \<le> 65535" and "a mod 65535 = n mod 65535" and "a = 0 \<longleftrightarrow> n = 0"
  shows "a = ones_residue n"
proof (cases "n = 0")
  case False
  let ?r = "ones_residue n"
  have "a mod 65535 = ?r mod 65535" "0 < a" "0 < ?r" "?r \<le> 65535"
    using assms ones_residue_mod [of n] ones_residue_bound [of n] False by auto
  moreover have "x mod 65535 = (if x = 65535 then 0 else x)" if "x \<le> 65535" for x :: nat
    using that by auto
  ultimately show ?thesis
    using assms(1) by (auto split: if_splits)
qed (use assms in \<open>simp add: ones_residue_def\<close>)

lemma fold_carries_eq: "fold_carries n = ones_residue n"
proof (rule ones_residue_unique)
  have spec: "fold_carries n \<le> 65535 \<and> fold_carries n mod 65535 = n mod 65535 \<and> (fold_carries n = 0 \<longleftrightarrow> n = 0)"
  proof (induction n rule: fold_carries.induct)
    case (1 n)
    show ?case
    proof (cases "n div 65536 = 0")
      case True
      then have "n < 65536"
        by (simp add: div_eq_0_iff)
      then show ?thesis
        using True by (simp add: fold_carries.simps [of n])
    next
      case False
      let ?m = "n mod 65536 + n div 65536"
      have split: "n = n div 65536 * 65536 + n mod 65536"
        by simp
      have "n mod 65535 = (?m + 65535 * (n div 65536)) mod 65535"
        by (rule arg_cong [where f = "\<lambda>x. x mod 65535"]) (use split in linarith)
      then have "n mod 65535 = ?m mod 65535"
        by (simp only: mod_mult_self2)
      moreover have "?m \<noteq> 0" "n \<noteq> 0"
        using False by auto
      ultimately show ?thesis
        using 1 False fold_carries.simps [of n] by simp
    qed
  qed
  show "fold_carries n \<le> 65535"
    by (rule conjunct1 [OF spec])
  show "fold_carries n mod 65535 = n mod 65535"
    by (rule conjunct1 [OF conjunct2 [OF spec]])
  show "fold_carries n = 0 \<longleftrightarrow> n = 0"
    by (rule conjunct2 [OF conjunct2 [OF spec]])
qed

text \<open>Below 128 KiB the 32-bit sum does not wrap and is the sum of the words.\<close>

fun word_sum :: "byte list \<Rightarrow> nat" where
  "word_sum (a # b # bs) = unat a + 256 * unat b + word_sum bs"
| "word_sum [a] = unat a"
| "word_sum [] = 0"

lemma byte_bound: "unat (b :: byte) \<le> 255"
  using unsigned_less [where ?'a = nat, of b] by simp

lemma word_sum_bound: "word_sum bs \<le> 65535 * ((length bs + 1) div 2)"
proof (induction bs rule: word_sum.induct)
  case (1 a b bs)
  then show ?case
    using byte_bound [of a] byte_bound [of b] by simp
next
  case (2 a)
  then show ?case
    using byte_bound [of a] by simp
qed simp

lemma sum_words_eq: "sm + word_sum bs < 2 ^ 32 \<Longrightarrow> sum_words bs sm = sm + word_sum bs"
  by (induction bs arbitrary: sm rule: word_sum.induct) (simp_all add: wadd_small)

lemma checksum_eq:
  assumes "length data \<le> 131072"
  shows "checksum data = 65535 - ones_residue (word_sum data)"
proof -
  have "word_sum data \<le> 65535 * 65536"
    using word_sum_bound [of data] assms by (simp add: order_trans)
  then show ?thesis
    by (simp add: checksum_def sum_words_eq fold_carries_eq)
qed

lemma word_sum_append: "even (length xs) \<Longrightarrow> word_sum (xs @ ys) = word_sum xs + word_sum ys"
  by (induction xs rule: word_sum.induct) simp_all

lemma word_sum_update:
  assumes "i < length bs"
  shows "word_sum (bs[i := b]) + (if even i then 1 else 256) * unat (bs ! i) =
    word_sum bs + (if even i then 1 else 256) * unat b"
  using assms
proof (induction bs arbitrary: i rule: word_sum.induct)
  case (1 x y bs)
  show ?case
  proof (cases "i < 2")
    case True
    then show ?thesis
      by (cases i) auto
  next
    case False
    then obtain j where j: "i = Suc (Suc j)"
      by (metis add_2_eq_Suc le_add_diff_inverse not_less)
    then show ?thesis
      using 1(1) [of j] 1(2) by simp
  qed
qed simp_all

section \<open>Data of a buffer\<close>

definition nb_ok :: "netbuf \<Rightarrow> bool" where
  "nb_ok nb \<longleftrightarrow> nb_off nb + nb_len nb \<le> length (nb_buf nb)"

lemma length_nb_data [simp]: "nb_ok nb \<Longrightarrow> length (nb_data nb) = nb_len nb"
  by (simp add: nb_ok_def nb_data_def)

lemma netbuf_alloc_ok:
  "netbuf_alloc (Some f) = Some nb \<Longrightarrow> nb_ok nb \<and> nb_off nb = HEADROOM \<and> nb_len nb = 0 \<and> length (nb_buf nb) = DEFAULT_SIZE"
  by (auto simp: netbuf_alloc_def netbuf_alloc_sized_def nb_ok_def HEADROOM_def DEFAULT_SIZE_def split: if_splits)

lemma netbuf_alloc_Some: "\<exists>nb. netbuf_alloc (Some f) = Some nb"
  by (simp add: netbuf_alloc_def netbuf_alloc_sized_def HEADROOM_def DEFAULT_SIZE_def sizeof_netbuf_def)

text \<open>Payload appended to an empty buffer.\<close>

lemma put_store:
  assumes "nb_ok nb" and "nb_len nb = 0" and "nb_off nb + length d \<le> length (nb_buf nb)"
  shows "\<exists>nb'. netbuf_put (length d) nb = Some nb' \<and> nb_ok (netbuf_store 0 d nb') \<and> nb_data (netbuf_store 0 d nb') = d \<and>
    nb_off nb' = nb_off nb \<and> nb_len nb' = length d \<and> length (nb_buf nb') = length (nb_buf nb)"
  using assms by (simp add: netbuf_put_def netbuf_store_def nb_ok_def nb_data_def memcpy_at_def)

text \<open>A header prepended: the data becomes the header followed by what was there.\<close>

lemma push_store:
  assumes "nb_ok nb" and "length h \<le> nb_off nb"
  shows "\<exists>nb'. netbuf_push (length h) nb = Some nb' \<and> nb_ok (netbuf_store 0 h nb') \<and>
    nb_data (netbuf_store 0 h nb') = h @ nb_data nb \<and> nb_off nb' = nb_off nb - length h \<and>
    nb_len nb' = nb_len nb + length h \<and> length (nb_buf nb') = length (nb_buf nb)"
  using assms by (simp add: netbuf_push_def netbuf_store_def nb_ok_def nb_data_def memcpy_at_def)

lemma pull_data:
  assumes "nb_ok nb" and "k \<le> nb_len nb"
  shows "\<exists>nb'. netbuf_pull k nb = Some nb' \<and> nb_ok nb' \<and> nb_data nb' = drop k (nb_data nb) \<and> nb_len nb' = nb_len nb - k"
  using assms by (simp add: netbuf_pull_def nb_ok_def nb_data_def drop_take add.commute)

section \<open>Properties\<close>

lemma checksum_verifies_at:
  assumes "length data \<le> 131072" and "even i" and "i + 1 < length data" and "data ! i = 0" and "data ! (i + 1) = 0"
  shows "checksum (memcpy_at data i (le_bytes 2 (checksum data))) = 0"
proof -
  let ?c = "checksum data" and ?S = "word_sum data"
  let ?new = "data[i := of_nat ?c, i + 1 := of_nat (?c div 256)]"
  have c: "?c = 65535 - ones_residue ?S" "?c < 65536"
    using checksum_eq [OF assms(1)] by simp_all
  have mem: "memcpy_at data i (le_bytes 2 ?c) = ?new"
    using assms(3) by (intro nth_equalityI) (auto simp: nth_memcpy_at numeral_2_eq_2 nth_list_update less_Suc_eq nth_Cons')
  have lo: "unat (of_nat ?c :: byte) + 256 * unat (of_nat (?c div 256) :: byte) = ?c"
    using c(2) by (simp add: unat_of_nat)
  have "word_sum (data[i := of_nat ?c]) = ?S + unat (of_nat ?c :: byte)"
    using word_sum_update [of i data "of_nat ?c"] assms by simp
  moreover have "word_sum ?new = word_sum (data[i := of_nat ?c]) + 256 * unat (of_nat (?c div 256) :: byte)"
    using word_sum_update [of "i + 1" "data[i := of_nat ?c]" "of_nat (?c div 256)"] assms by simp
  ultimately have sum: "word_sum ?new = ?S + ?c"
    using lo by simp
  have "ones_residue (word_sum ?new) = 65535"
  proof (rule ones_residue_unique [symmetric])
    have "(?S + ?c) mod 65535 = (ones_residue ?S + ?c) mod 65535"
      using ones_residue_mod [of ?S] mod_add_left_eq by metis
    also have "ones_residue ?S + ?c = 65535"
      using c(1) ones_residue_bound(1) [of ?S] by simp
    finally show "65535 mod 65535 = word_sum ?new mod 65535"
      unfolding sum by simp
    show "(65535 :: nat) = 0 \<longleftrightarrow> word_sum ?new = 0"
      using sum c(1) ones_residue_bound [of ?S] by auto
  qed simp
  then show ?thesis
    unfolding mem using checksum_eq [of ?new] assms(1) by simp
qed

text \<open>C19. A checksum written into its zeroed field makes the whole verify: for data of at most
  128 KiB with two zero bytes at an even offset, storing the checksum there gives data whose checksum
  is 0, which is what the receiving side tests.\<close>

theorem checksum_verifies:
  assumes "length data \<le> 131072" and "even i" and "i + 1 < length data" and "data ! i = 0" and "data ! (i + 1) = 0"
  shows "checksum (memcpy_at data i (le_bytes 2 (checksum data))) = 0"
  using checksum_verifies_at assms by blast

theorem checksum_verifies_witness:
  "checksum (memcpy_at [0x45, 0, 0, 0, 1, 2] 2 (le_bytes 2 (checksum [0x45, 0, 0, 0, 1, 2]))) = 0"
  by (rule checksum_verifies) simp_all

lemma mod_add_cancel:
  fixes a x y q :: nat
  assumes "(a + x) mod q = (a + y) mod q" and "x < q" and "y < q"
  shows "x = y"
proof (rule ccontr)
  assume "x \<noteq> y"
  have "int (a + x) mod int q = int (a + y) mod int q"
    using assms(1) by (metis of_nat_mod)
  then have "int q dvd int x - int y"
    by (simp add: mod_eq_dvd_iff)
  then have "\<bar>int q\<bar> \<le> \<bar>int x - int y\<bar>"
    using \<open>x \<noteq> y\<close> by (intro dvd_imp_le_int) simp_all
  then show False
    using assms(2,3) by linarith
qed

text \<open>C20. The checksum detects every change of a single byte.\<close>

theorem checksum_detects_byte:
  assumes "length data \<le> 131072" and "i < length data" and "b \<noteq> data ! i"
  shows "checksum (data[i := b]) \<noteq> checksum data"
proof
  let ?m = "if even i then 1 else 256 :: nat"
  assume "checksum (data[i := b]) = checksum data"
  then have "ones_residue (word_sum (data[i := b])) = ones_residue (word_sum data)"
    using checksum_eq [OF assms(1)] checksum_eq [of "data[i := b]"] assms(1)
      ones_residue_bound(1) [of "word_sum data"] ones_residue_bound(1) [of "word_sum (data[i := b])"] by simp
  then have "word_sum (data[i := b]) mod 65535 = word_sum data mod 65535"
    by (metis ones_residue_mod)
  then have "(word_sum data + ?m * unat b) mod 65535 = (word_sum data + ?m * unat (data ! i)) mod 65535"
    using word_sum_update [OF assms(2), of b] mod_add_left_eq by metis
  moreover have "?m * unat b < 65535" "?m * unat (data ! i) < 65535"
    using byte_bound [of b] byte_bound [of "data ! i"] by auto
  ultimately have "?m * unat b = ?m * unat (data ! i)"
    by (rule mod_add_cancel)
  then have "unat b = unat (data ! i)"
    by (simp split: if_splits)
  then show False
    using assms(3) by (simp add: word_unat_eq_iff)
qed

theorem checksum_detects_byte_witness:
  "checksum ([1, 2, 3, 4, 5][3 := 9]) \<noteq> checksum [1, 2, 3, 4, 5]"
  by (rule checksum_detects_byte) simp_all

end
