(* ===== verification/Net.thy ===== *)
theory Net
  imports Net_Buffer
begin

text \<open>
  Interfaces, address resolution, Ethernet, IPv4 and UDP (\<open>src/src/kernel/net/netif.cpp\<close>,
  \<open>arp.cpp\<close>, \<open>ethernet.cpp\<close>, \<open>ipv4.cpp\<close>, \<open>udp.cpp\<close>).

  An interface is known by its position number \<open>ifid\<close>; the list \<open>iface_list\<close> is \<open>g_iface_list\<close>.  The
  transmit callback of a network card is outside the stack: what it is handed is the trace \<open>wire\<close>.  The
  callback of the loopback interface is \<open>loopback_tx\<close>.  Resolution is only used on cards, since the
  loopback path adds no Ethernet header.  A packet that is freed is one that is not kept anywhere.
  Threads that a call makes runnable are the trace \<open>woken\<close>.  The locks of the source make each
  operation one step, so they do not appear.  TCP is a parameter of the input path.
\<close>

section \<open>State\<close>

type_synonym ifid = nat

type_synonym ip = "32 word"

record netif =
  nf_name :: string
  nf_mac :: "byte list"
  nf_addr :: ip
  nf_netmask :: ip
  nf_gateway :: ip
  nf_mtu :: nat
  nf_tx :: "netbuf list"

record arp_entry =
  ae_iface :: "ifid option"
  ae_ip :: ip
  ae_mac :: "byte list"
  ae_expires :: nat

record arp_pending =
  ap_iface :: "ifid option"
  ap_ip :: ip
  ap_packets :: "netbuf list"
  ap_attempts :: nat
  ap_retry_at :: nat
  ap_expires :: nat

record udp_pcb =
  up_id :: nat
  up_local_ip :: ip
  up_local_port :: nat
  up_remote_ip :: ip
  up_remote_port :: nat
  up_bound :: bool
  up_connected :: bool
  up_recv :: "netbuf list"
  up_wait_recv :: "nat option"

record net =
  ifaces :: "netif list"
  iface_list :: "ifid list"
  loopback :: "ifid option"
  wire :: "(ifid \<times> netbuf) list"
  cache :: "arp_entry list"
  pending :: "arp_pending list"
  ticks :: nat
  ip_id :: nat
  udp_list :: "udp_pcb list"
  udp_ephemeral :: nat
  woken :: "nat list"

definition iface :: "net \<Rightarrow> ifid \<Rightarrow> netif" where
  "iface s i = ifaces s ! i"

definition upd_iface :: "ifid \<Rightarrow> (netif \<Rightarrow> netif) \<Rightarrow> net \<Rightarrow> net" where
  "upd_iface i f s = s\<lparr>ifaces := (ifaces s)[i := f (ifaces s ! i)]\<rparr>"

definition CACHE_SIZE :: nat where
  "CACHE_SIZE = 64"

definition PENDING_NEIGHBORS :: nat where
  "PENDING_NEIGHBORS = 8"

definition PACKETS_PER_NEIGHBOR :: nat where
  "PACKETS_PER_NEIGHBOR = 4"

definition no_entry :: arp_entry where
  "no_entry = \<lparr>ae_iface = None, ae_ip = 0, ae_mac = replicate 6 0, ae_expires = 0\<rparr>"

definition no_pending :: arp_pending where
  "no_pending = \<lparr>ap_iface = None, ap_ip = 0, ap_packets = [], ap_attempts = 0, ap_retry_at = 0, ap_expires = 0\<rparr>"

section \<open>Interfaces\<close>

definition enqueue_tx :: "ifid \<Rightarrow> netbuf \<Rightarrow> net \<Rightarrow> net" where
  "enqueue_tx i buf s = upd_iface i (\<lambda>f. f\<lparr>nf_tx := nf_tx f @ [buf]\<rparr>) s"

definition dequeue_tx :: "ifid \<Rightarrow> net \<Rightarrow> netbuf option \<times> net" where
  "dequeue_tx i s =
    (case nf_tx (iface s i) of
       [] \<Rightarrow> (None, s)
     | buf # rest \<Rightarrow> (Some buf, upd_iface i (\<lambda>f. f\<lparr>nf_tx := rest\<rparr>) s))"

definition netif_register :: "ifid \<Rightarrow> net \<Rightarrow> net" where
  "netif_register i s =
    (upd_iface i (\<lambda>f. f\<lparr>nf_tx := []\<rparr>) s)\<lparr>iface_list := i # iface_list s\<rparr>"

definition netif_default :: "net \<Rightarrow> ifid option" where
  "netif_default s =
    (case find (\<lambda>i. nf_gateway (iface s i) \<noteq> 0) (iface_list s) of
       Some i \<Rightarrow> Some i
     | None \<Rightarrow>
         case find (\<lambda>i. Some i \<noteq> loopback s) (iface_list s) of
           Some i \<Rightarrow> Some i
         | None \<Rightarrow> loopback s)"

definition netif_find :: "string \<Rightarrow> net \<Rightarrow> ifid option" where
  "netif_find name s = find (\<lambda>i. nf_name (iface s i) = name) (iface_list s)"

definition netif_loopback :: "net \<Rightarrow> ifid option" where
  "netif_loopback s = loopback s"

record netif_info =
  ni_name :: string
  ni_address :: ip
  ni_netmask :: ip
  ni_gateway :: ip
  ni_mtu :: nat
  ni_mac :: "byte list"

text \<open>\<open>RUCUX_NETIF_MAX\<close> records with names of 16 bytes.\<close>

definition net_get_info :: "bool \<Rightarrow> net \<Rightarrow> int \<times> netif_info list" where
  "net_get_info info s =
    (if \<not> info then (-22, [])
     else
       (0, map (\<lambda>i. let f = iface s i in
                  \<lparr>ni_name = take 15 (nf_name f), ni_address = nf_addr f, ni_netmask = nf_netmask f,
                   ni_gateway = nf_gateway f, ni_mtu = nf_mtu f, ni_mac = nf_mac f\<rparr>)
            (take 8 (iface_list s))))"

text \<open>The transmit callback of a card.\<close>

definition nic_transmit :: "ifid \<Rightarrow> netbuf \<Rightarrow> net \<Rightarrow> net" where
  "nic_transmit i buf s = s\<lparr>wire := wire s @ [(i, buf)]\<rparr>"

definition net_init :: "ifid \<Rightarrow> net \<Rightarrow> net" where
  "net_init i s =
    netif_register i
      ((upd_iface i (\<lambda>f. f\<lparr>nf_name := ''lo'', nf_mac := replicate 6 0, nf_addr := 0x0100007F, nf_netmask := 0x000000FF,
                           nf_gateway := 0, nf_mtu := 65535\<rparr>) s)\<lparr>loopback := Some i\<rparr>)"

section \<open>Address resolution\<close>

definition ETH_TYPE_IPV4 :: nat where
  "ETH_TYPE_IPV4 = 0x0800"

definition ETH_TYPE_ARP :: nat where
  "ETH_TYPE_ARP = 0x0806"

definition ETH_HEADER_LEN :: nat where
  "ETH_HEADER_LEN = 14"

definition ARP_OP_REQUEST :: nat where
  "ARP_OP_REQUEST = 1"

definition ARP_OP_REPLY :: nat where
  "ARP_OP_REPLY = 2"

definition arp_live :: "nat \<Rightarrow> ifid \<Rightarrow> ip \<Rightarrow> arp_entry \<Rightarrow> bool" where
  "arp_live now i a e \<longleftrightarrow> ae_iface e = Some i \<and> ae_ip e = a \<and> (ae_expires e = 0 \<or> now < ae_expires e)"

definition index_of :: "('a \<Rightarrow> bool) \<Rightarrow> 'a list \<Rightarrow> nat option" where
  "index_of P xs = find (\<lambda>k. P (xs ! k)) [0..<length xs]"

definition arp_find :: "ifid \<Rightarrow> ip \<Rightarrow> net \<Rightarrow> nat option" where
  "arp_find i a s = index_of (arp_live (ticks s) i a) (cache s)"

definition arp_transmit :: "ifid \<Rightarrow> netbuf \<Rightarrow> byte list \<Rightarrow> net \<Rightarrow> net" where
  "arp_transmit i buf mac s = nic_transmit i (netbuf_store 0 mac buf) s"

definition arp_header :: "nat \<Rightarrow> byte list \<Rightarrow> ip \<Rightarrow> byte list \<Rightarrow> ip \<Rightarrow> byte list" where
  "arp_header opc smac sip tmac tip =
    le_bytes 2 (htons 1) @ le_bytes 2 (htons ETH_TYPE_IPV4) @ [6, 4] @ le_bytes 2 (htons opc) @ smac @
    le_bytes 4 (unat sip) @ tmac @ le_bytes 4 (unat tip)"

definition sizeof_arp_header :: nat where
  "sizeof_arp_header = 28"

text \<open>The appended header and the pushed Ethernet header always fit a fresh buffer, so the source does
  not test the pointers; \<open>raw\<close> is the outcome of the allocation.\<close>

definition arp_request :: "(nat \<Rightarrow> byte) option \<Rightarrow> ifid \<Rightarrow> nat \<Rightarrow> ip \<Rightarrow> byte list \<Rightarrow> net \<Rightarrow> net" where
  "arp_request raw i opc target mac s =
    (case netbuf_alloc raw of None \<Rightarrow> s | Some buf \<Rightarrow>
     let f = iface s i;
         buf = netbuf_store 0 (arp_header opc (nf_mac f) (nf_addr f) mac target) (the (netbuf_put sizeof_arp_header buf));
         buf = netbuf_store 0 ((if opc = ARP_OP_REQUEST then replicate 6 0xFF else mac) @ nf_mac f @ le_bytes 2 (htons ETH_TYPE_ARP))
                 (the (netbuf_push ETH_HEADER_LEN buf))
     in nic_transmit i buf s)"

definition arp_slot :: "ifid \<Rightarrow> ip \<Rightarrow> net \<Rightarrow> nat" where
  "arp_slot i a s =
    (case arp_find i a s of
       Some k \<Rightarrow> k
     | None \<Rightarrow>
         case index_of (\<lambda>e. ae_iface e = None \<or> ae_expires e \<noteq> 0 \<and> ticks s \<ge> ae_expires e) (cache s) of
           Some k \<Rightarrow> k
         | None \<Rightarrow> 0)"

definition waits_for :: "ifid \<Rightarrow> ip \<Rightarrow> arp_pending \<Rightarrow> bool" where
  "waits_for i a p \<longleftrightarrow> ap_iface p = Some i \<and> ap_ip p = a"

definition arp_learn :: "ifid \<Rightarrow> ip \<Rightarrow> byte list \<Rightarrow> bool \<Rightarrow> net \<Rightarrow> net" where
  "arp_learn i a mac permanent s =
    (let s = s\<lparr>cache := (cache s)[arp_slot i a s :=
                 \<lparr>ae_iface = Some i, ae_ip = a, ae_mac = mac,
                  ae_expires = (if permanent then 0 else wadd 64 (ticks s) 60000)\<rparr>]\<rparr>
     in case index_of (waits_for i a) (pending s) of
          None \<Rightarrow> s
        | Some k \<Rightarrow>
            let ready = ap_packets (pending s ! k)
            in fold (\<lambda>buf. arp_transmit i buf mac) ready (s\<lparr>pending := (pending s)[k := no_pending]\<rparr>))"

definition arp_add_static :: "ifid \<Rightarrow> ip \<Rightarrow> byte list \<Rightarrow> net \<Rightarrow> net" where
  "arp_add_static i a mac s = arp_learn i a mac True s"

text \<open>Queueing behind slot \<open>k\<close>, which the list of the source keeps with a count.\<close>

definition arp_enqueue :: "nat \<Rightarrow> netbuf \<Rightarrow> net \<Rightarrow> bool \<times> net" where
  "arp_enqueue k buf s =
    (if length (ap_packets (pending s ! k)) = PACKETS_PER_NEIGHBOR then (False, s)
     else (True, s\<lparr>pending := (pending s)[k := (pending s ! k)\<lparr>ap_packets := ap_packets (pending s ! k) @ [buf]\<rparr>]\<rparr>))"

definition arp_output :: "(nat \<Rightarrow> byte) option \<Rightarrow> ifid \<Rightarrow> netbuf \<Rightarrow> ip \<Rightarrow> net \<Rightarrow> net" where
  "arp_output raw i buf next_hop s =
    (if next_hop = 0xFFFFFFFF \<or> next_hop = nf_addr (iface s i) OR NOT (nf_netmask (iface s i)) then
       arp_transmit i buf (replicate 6 0xFF) s
     else
       case arp_find i next_hop s of
         Some k \<Rightarrow> arp_transmit i buf (ae_mac (cache s ! k)) s
       | None \<Rightarrow>
           case index_of (waits_for i next_hop) (pending s) of
             Some k \<Rightarrow> snd (arp_enqueue k buf s)
           | None \<Rightarrow>
               case index_of (\<lambda>p. ap_iface p = None) (pending s) of
                 None \<Rightarrow> s
               | Some k \<Rightarrow>
                   let s = s\<lparr>pending := (pending s)[k := (pending s ! k)\<lparr>ap_iface := Some i, ap_ip := next_hop,
                               ap_attempts := 1, ap_retry_at := wadd 64 (ticks s) 1000,
                               ap_expires := wadd 64 (wadd 64 (ticks s) 1000) 2000\<rparr>]\<rparr>;
                       (ok, s) = arp_enqueue k buf s
                   in if ok then arp_request raw i ARP_OP_REQUEST next_hop (replicate 6 0) s else s)"

definition arp_valid :: "net \<Rightarrow> ifid \<Rightarrow> byte list \<Rightarrow> bool" where
  "arp_valid s i d \<longleftrightarrow>
     (let opc = htons (get16 d 6) in
      htons (get16 d 0) = 1 \<and> htons (get16 d 2) = ETH_TYPE_IPV4 \<and> d ! 4 = 6 \<and> d ! 5 = 4 \<and>
      (opc = ARP_OP_REQUEST \<or> opc = ARP_OP_REPLY) \<and> get32 d 24 = nf_addr (iface s i) \<and> get32 d 14 \<noteq> 0 \<and>
      d ! 8 AND 1 = 0 \<and> \<not> (opc = ARP_OP_REPLY \<and> take 6 (drop 18 d) \<noteq> nf_mac (iface s i)))"

definition arp_input :: "(nat \<Rightarrow> byte) option \<Rightarrow> ifid \<Rightarrow> netbuf \<Rightarrow> net \<Rightarrow> net" where
  "arp_input raw i buf s =
    (let d = nb_data buf in
     if nb_len buf < sizeof_arp_header then s
     else if \<not> arp_valid s i d then s
     else
       let s = arp_learn i (get32 d 14) (take 6 (drop 8 d)) False s in
       if htons (get16 d 6) = ARP_OP_REQUEST
       then arp_request raw i ARP_OP_REPLY (get32 d 14) (take 6 (drop 8 d)) s else s)"

definition arp_tick_one :: "nat \<Rightarrow> (nat \<Rightarrow> byte) option \<Rightarrow> nat \<Rightarrow> net \<Rightarrow> net" where
  "arp_tick_one now raw k s =
    (let p = pending s ! k in
     case ap_iface p of None \<Rightarrow> s | Some i \<Rightarrow>
     if now < ap_retry_at p then s
     else if now \<ge> ap_expires p \<or> ap_attempts p = 3 then s\<lparr>pending := (pending s)[k := no_pending]\<rparr>
     else
       arp_request raw i ARP_OP_REQUEST (ap_ip p) (replicate 6 0)
         (s\<lparr>pending := (pending s)[k := p\<lparr>ap_attempts := ap_attempts p + 1, ap_retry_at := wadd 64 now 1000\<rparr>]\<rparr>))"

definition arp_tick :: "nat \<Rightarrow> (nat \<Rightarrow> byte) option \<Rightarrow> net \<Rightarrow> net" where
  "arp_tick now raw s = fold (arp_tick_one now raw) [0..<PENDING_NEIGHBORS] s"

section \<open>UDP\<close>

definition UDP_HEADER_LEN :: nat where
  "UDP_HEADER_LEN = 8"

definition IPPROTO_TCP :: nat where
  "IPPROTO_TCP = 6"

definition IPPROTO_UDP :: nat where
  "IPPROTO_UDP = 17"

definition udp_init :: "net \<Rightarrow> net" where
  "udp_init s = s\<lparr>udp_list := []\<rparr>"

definition udp_matches :: "ip \<Rightarrow> nat \<Rightarrow> ip \<Rightarrow> nat \<Rightarrow> udp_pcb \<Rightarrow> bool" where
  "udp_matches addr port remote remote_port p \<longleftrightarrow>
     up_bound p \<and> up_local_port p = port \<and> (up_local_ip p = 0 \<or> up_local_ip p = addr) \<and>
     (\<not> up_connected p \<or> up_remote_ip p = remote \<and> up_remote_port p = remote_port)"

definition find_udp_pcb :: "ip \<Rightarrow> nat \<Rightarrow> ip \<Rightarrow> nat \<Rightarrow> net \<Rightarrow> udp_pcb option" where
  "find_udp_pcb addr port remote remote_port s = find (udp_matches addr port remote remote_port) (udp_list s)"

definition upd_pcb :: "nat \<Rightarrow> (udp_pcb \<Rightarrow> udp_pcb) \<Rightarrow> net \<Rightarrow> net" where
  "upd_pcb k f s = s\<lparr>udp_list := map (\<lambda>p. if up_id p = k then f p else p) (udp_list s)\<rparr>"

definition pcb :: "net \<Rightarrow> nat \<Rightarrow> udp_pcb" where
  "pcb s k = the (find (\<lambda>p. up_id p = k) (udp_list s))"

definition udp_deliver :: "nat \<Rightarrow> netbuf \<Rightarrow> net \<Rightarrow> net" where
  "udp_deliver k buf s =
    (let s = upd_pcb k (\<lambda>p. p\<lparr>up_recv := up_recv p @ [buf]\<rparr>) s in
     case up_wait_recv (pcb s k) of
       None \<Rightarrow> s
     | Some t \<Rightarrow> (upd_pcb k (\<lambda>p. p\<lparr>up_wait_recv := None\<rparr>) s)\<lparr>woken := woken s @ [t]\<rparr>)"

definition udp_input :: "netbuf \<Rightarrow> net \<Rightarrow> net" where
  "udp_input buf s =
    (if nb_len buf < UDP_HEADER_LEN then s
     else
       let d = nb_data buf; len = htons (get16 d 4) in
       if len < UDP_HEADER_LEN \<or> len > nb_len buf \<or>
          get16 d 6 \<noteq> 0 \<and> checksum_pseudo (nb_src_ip buf) (nb_dst_ip buf) IPPROTO_UDP (take len d) \<noteq> 0 then s
       else
         let buf = snd (netbuf_set_len len buf) in
         case find_udp_pcb (nb_dst_ip buf) (get16 d 2) (nb_src_ip buf) (get16 d 0) s of
           None \<Rightarrow> s
         | Some p \<Rightarrow>
             if length (up_recv p) \<ge> 32 then s
             else
               let buf = the (netbuf_pull UDP_HEADER_LEN (buf\<lparr>nb_src_port := get16 d 0, nb_dst_port := get16 d 2\<rparr>))
               in udp_deliver (up_id p) buf s)"

text \<open>\<open>k\<close> is the address of the new block.\<close>

definition udp_new :: "bool \<Rightarrow> nat \<Rightarrow> net \<Rightarrow> nat option \<times> net" where
  "udp_new mem k s =
    (if \<not> mem then (None, s)
     else (Some k, s\<lparr>udp_list := \<lparr>up_id = k, up_local_ip = 0, up_local_port = 0, up_remote_ip = 0, up_remote_port = 0,
             up_bound = False, up_connected = False, up_recv = [], up_wait_recv = None\<rparr> # udp_list s\<rparr>))"

definition udp_free :: "nat option \<Rightarrow> net \<Rightarrow> net" where
  "udp_free k s =
    (case k of None \<Rightarrow> s | Some k \<Rightarrow> s\<lparr>udp_list := filter (\<lambda>p. up_id p \<noteq> k) (udp_list s)\<rparr>)"

definition port_used :: "nat \<Rightarrow> ip \<Rightarrow> nat \<Rightarrow> net \<Rightarrow> bool" where
  "port_used k addr port s \<longleftrightarrow>
     list_ex (\<lambda>p. up_id p \<noteq> k \<and> up_bound p \<and> up_local_port p = port \<and>
                  (addr = 0 \<or> up_local_ip p = 0 \<or> addr = up_local_ip p)) (udp_list s)"

text \<open>The search for a free ephemeral port: \<open>n\<close> tries are left; port 0 is none.\<close>

primrec ephemeral_port :: "nat \<Rightarrow> nat \<Rightarrow> ip \<Rightarrow> net \<Rightarrow> nat \<times> net" where
  "ephemeral_port 0 k addr s = (0, s)"
| "ephemeral_port (Suc n) k addr s =
    (let port = htons (udp_ephemeral s);
         e = (udp_ephemeral s + 1) mod 65536;
         s = s\<lparr>udp_ephemeral := (if e < 49152 then 49152 else e)\<rparr>
     in if \<not> port_used k addr port s then (port, s) else ephemeral_port n k addr s)"

definition udp_bind :: "nat \<Rightarrow> ip \<Rightarrow> nat \<Rightarrow> net \<Rightarrow> int \<times> net" where
  "udp_bind k addr port s =
    (if up_bound (pcb s k) then (-22, s)
     else
       let (port, s) = (if port = 0 then ephemeral_port 16384 k addr s else (port, s)) in
       if port = 0 \<or> port_used k addr port s then (-98, s)
       else (0, upd_pcb k (\<lambda>p. p\<lparr>up_local_ip := addr, up_local_port := port, up_bound := True\<rparr>) s))"

definition udp_connect :: "nat \<Rightarrow> ip \<Rightarrow> nat \<Rightarrow> net \<Rightarrow> int \<times> net" where
  "udp_connect k addr port s =
    (if addr = 0 \<or> port = 0 then (-22, s)
     else
       let (r, s) = (if up_bound (pcb s k) then (0, s) else udp_bind k (up_local_ip (pcb s k)) 0 s) in
       if r \<noteq> 0 then (r, s)
       else (0, upd_pcb k (\<lambda>p. p\<lparr>up_remote_ip := addr, up_remote_port := port, up_connected := True\<rparr>) s))"

section \<open>IPv4 and Ethernet\<close>

definition IPV4_HEADER_LEN :: nat where
  "IPV4_HEADER_LEN = 20"

definition ipv4_valid :: "net \<Rightarrow> ifid \<Rightarrow> netbuf \<Rightarrow> bool" where
  "ipv4_valid s i buf \<longleftrightarrow>
     (let d = nb_data buf; hdr_len = unat (d ! 0 AND 0x0F) * 4; tot = htons (get16 d 2) in
      drop_bit 4 (d ! 0) = 4 \<and>
      \<not> (hdr_len < IPV4_HEADER_LEN \<or> hdr_len > nb_len buf \<or> tot < hdr_len \<or> tot > nb_len buf \<or>
         htons (get16 d 6) AND 0xBFFF \<noteq> 0 \<or> d ! 8 = 0 \<or> checksum (take hdr_len d) \<noteq> 0) \<and>
      (get32 d 16 = nf_addr (iface s i) \<or> get32 d 16 = 0xFFFFFFFF \<or>
       get32 d 16 = nf_addr (iface s i) OR NOT (nf_netmask (iface s i)) \<or> Some i = netif_loopback s))"

definition ipv4_input :: "(ifid \<Rightarrow> netbuf \<Rightarrow> net \<Rightarrow> net) \<Rightarrow> ifid \<Rightarrow> netbuf \<Rightarrow> net \<Rightarrow> net" where
  "ipv4_input tcp_input i buf s =
    (if nb_len buf < IPV4_HEADER_LEN then s
     else if \<not> ipv4_valid s i buf then s
     else
       let d = nb_data buf;
           buf = snd (netbuf_set_len (htons (get16 d 2)) buf);
           buf = buf\<lparr>nb_src_ip := get32 d 12, nb_dst_ip := get32 d 16, nb_protocol := unat (d ! 9)\<rparr>;
           buf = the (netbuf_pull (unat (d ! 0 AND 0x0F) * 4) buf)
       in if unat (d ! 9) = IPPROTO_TCP then tcp_input i buf s
          else if unat (d ! 9) = IPPROTO_UDP then udp_input buf s
          else s)"

definition ethernet_input ::
  "(ifid \<Rightarrow> netbuf \<Rightarrow> net \<Rightarrow> net) \<Rightarrow> (nat \<Rightarrow> byte) option \<Rightarrow> ifid \<Rightarrow> netbuf \<Rightarrow> net \<Rightarrow> net" where
  "ethernet_input tcp_input raw i buf s =
    (if nb_len buf < ETH_HEADER_LEN then s
     else
       let ty = htons (get16 (nb_data buf) 12); buf = the (netbuf_pull ETH_HEADER_LEN buf) in
       if ty = ETH_TYPE_IPV4 then ipv4_input tcp_input i buf s
       else if ty = ETH_TYPE_ARP then arp_input raw i buf s
       else s)"

definition ethernet_output :: "(nat \<Rightarrow> byte) option \<Rightarrow> ifid \<Rightarrow> netbuf \<Rightarrow> ip \<Rightarrow> nat \<Rightarrow> net \<Rightarrow> net" where
  "ethernet_output raw i buf dst_ip ethertype s =
    (let f = iface s i;
         off_link = dst_ip \<noteq> 0xFFFFFFFF \<and> dst_ip AND nf_netmask f \<noteq> nf_addr f AND nf_netmask f;
         next_hop = (if off_link then nf_gateway f else dst_ip)
     in if off_link \<and> next_hop = 0 then s
        else
          case netbuf_push ETH_HEADER_LEN buf of None \<Rightarrow> s | Some buf \<Rightarrow>
          arp_output raw i (netbuf_store 0 (replicate 6 0 @ nf_mac f @ le_bytes 2 (htons ethertype)) buf) next_hop s)"

definition netif_input ::
  "(ifid \<Rightarrow> netbuf \<Rightarrow> net \<Rightarrow> net) \<Rightarrow> (nat \<Rightarrow> byte) option \<Rightarrow> ifid \<Rightarrow> netbuf \<Rightarrow> net \<Rightarrow> net" where
  "netif_input tcp_input raw i buf s =
    (if Some i = loopback s then ipv4_input tcp_input i buf s else ethernet_input tcp_input raw i buf s)"

definition loopback_tx ::
  "(ifid \<Rightarrow> netbuf \<Rightarrow> net \<Rightarrow> net) \<Rightarrow> (nat \<Rightarrow> byte) option \<Rightarrow> ifid \<Rightarrow> netbuf \<Rightarrow> net \<Rightarrow> net" where
  "loopback_tx tcp_input raw i buf s = netif_input tcp_input raw i buf s"

definition ipv4_header :: "nat \<Rightarrow> nat \<Rightarrow> nat \<Rightarrow> nat \<Rightarrow> ip \<Rightarrow> ip \<Rightarrow> byte list" where
  "ipv4_header tot ident proto csum src dst =
    [0x45, 0] @ le_bytes 2 (htons (tot mod 65536)) @ le_bytes 2 (htons ident) @ le_bytes 2 (htons 0x4000) @
    [64, of_nat proto] @ le_bytes 2 csum @ le_bytes 4 (unat src) @ le_bytes 4 (unat dst)"

definition ipv4_output ::
  "(ifid \<Rightarrow> netbuf \<Rightarrow> net \<Rightarrow> net) \<Rightarrow> (nat \<Rightarrow> byte) option \<Rightarrow> netbuf \<Rightarrow> ip \<Rightarrow> ip \<Rightarrow> nat \<Rightarrow> net \<Rightarrow> net" where
  "ipv4_output tcp_input raw buf src dst protocol s =
    (case netbuf_push IPV4_HEADER_LEN buf of None \<Rightarrow> s | Some buf \<Rightarrow>
     let h = ipv4_header (nb_len buf) (ip_id s) protocol 0 src dst;
         h = memcpy_at h 10 (le_bytes 2 (checksum h));
         buf = netbuf_store 0 h buf;
         s = s\<lparr>ip_id := (ip_id s + 1) mod 65536\<rparr>
     in case (if dst = 0x0100007F then netif_loopback s else netif_default s) of None \<Rightarrow> s | Some i \<Rightarrow>
        if nb_len buf > nf_mtu (iface s i) then s
        else if Some i = netif_loopback s then loopback_tx tcp_input raw i buf s
        else ethernet_output raw i buf dst ETH_TYPE_IPV4 s)"

subsection \<open>UDP send and receive\<close>

definition udp_sendto ::
  "(ifid \<Rightarrow> netbuf \<Rightarrow> net \<Rightarrow> net) \<Rightarrow> (nat \<Rightarrow> byte) option \<Rightarrow> (nat \<Rightarrow> byte) option \<Rightarrow> nat \<Rightarrow> byte list \<Rightarrow> ip \<Rightarrow> nat
    \<Rightarrow> net \<Rightarrow> int \<times> net" where
  "udp_sendto tcp_input raw raw2 k data dst_ip dst_port s =
    (if dst_ip = 0 \<or> dst_port = 0 then (-89, s)
     else
       case (if dst_ip = 0x0100007F then netif_loopback s else netif_default s) of None \<Rightarrow> (-101, s) | Some i \<Rightarrow>
       if length data > 1472 \<or> length data + UDP_HEADER_LEN + IPV4_HEADER_LEN > nf_mtu (iface s i) then (-90, s)
       else
         let (r, s) = (if up_bound (pcb s k) then (0, s) else udp_bind k (up_local_ip (pcb s k)) 0 s) in
         if r \<noteq> 0 then (r, s)
         else
           case netbuf_alloc raw of None \<Rightarrow> (-12, s) | Some buf \<Rightarrow>
           let buf = netbuf_store 0 data (the (netbuf_put (length data) buf));
               buf = netbuf_store 0
                       (le_bytes 2 (up_local_port (pcb s k)) @ le_bytes 2 dst_port @
                        le_bytes 2 (htons (UDP_HEADER_LEN + length data)) @ le_bytes 2 0)
                       (the (netbuf_push UDP_HEADER_LEN buf));
               src = (if up_local_ip (pcb s k) = 0 then nf_addr (iface s i) else up_local_ip (pcb s k))
           in (int (length data), ipv4_output tcp_input raw2 buf src dst_ip IPPROTO_UDP s))"

text \<open>One pass of the loop of \<open>udp_recvfrom\<close> by thread \<open>current\<close>: a result, or asleep as the waiter of
  the block.  \<open>fatal\<close> says whether a fatal signal is pending and \<open>may_wait\<close> whether the thread could
  enter an interruptible wait.  \<open>udp_recv_wake\<close> is what the thread does when it runs again, before the
  next pass.\<close>

datatype udp_result = Failed int | Received int "byte list" ip nat

definition udp_recv_pass ::
  "nat option \<Rightarrow> bool \<Rightarrow> bool \<Rightarrow> nat \<Rightarrow> nat \<Rightarrow> net \<Rightarrow> udp_result option \<times> net" where
  "udp_recv_pass current fatal may_wait k len s =
    (let s = (if up_wait_recv (pcb s k) = current then upd_pcb k (\<lambda>p. p\<lparr>up_wait_recv := None\<rparr>) s else s) in
     if current \<noteq> None \<and> fatal then (Some (Failed (-4)), s)
     else
       case up_recv (pcb s k) of
         nb # rest \<Rightarrow>
           let to_copy = (if len < nb_len nb then len else nb_len nb)
           in (Some (Received (int to_copy) (take to_copy (nb_data nb)) (nb_src_ip nb) (nb_src_port nb)),
               upd_pcb k (\<lambda>p. p\<lparr>up_recv := rest\<rparr>) s)
       | [] \<Rightarrow>
           if up_wait_recv (pcb s k) \<noteq> None \<and> up_wait_recv (pcb s k) \<noteq> current then (Some (Failed (-16)), s)
           else if current = None then (Some (Failed (-3)), s)
           else if \<not> may_wait then (Some (Failed (-4)), s)
           else (None, upd_pcb k (\<lambda>p. p\<lparr>up_wait_recv := current\<rparr>) s))"

definition udp_recv_wake :: "nat option \<Rightarrow> nat \<Rightarrow> net \<Rightarrow> net" where
  "udp_recv_wake current k s =
    (if up_wait_recv (pcb s k) = current then upd_pcb k (\<lambda>p. p\<lparr>up_wait_recv := None\<rparr>) s else s)"

definition udp_poll_events :: "nat \<Rightarrow> net \<Rightarrow> nat" where
  "udp_poll_events k s = 4 OR (if up_recv (pcb s k) \<noteq> [] then 1 else 0)"

section \<open>Headers\<close>

lemma length_ipv4_header [simp]: "length (ipv4_header tot ident proto csum src dst) = 20"
  by (simp add: ipv4_header_def)

lemma ipv4_header_fields:
  fixes rest tot ident proto csum src dst
  defines "d \<equiv> ipv4_header tot ident proto csum src dst @ rest"
  shows "d ! 0 = 0x45" "get16 d 2 = htons (tot mod 65536)" "htons (get16 d 6) = 0x4000" "d ! 8 = 64" "d ! 9 = of_nat proto"
    "get32 d 12 = src" "get32 d 16 = dst" "take 20 d = ipv4_header tot ident proto csum src dst" "drop 20 d = rest"
proof -
  have "htons v mod 65536 = htons v" for v
    using htons_bound [of v] by simp
  moreover have "unat a mod 4294967296 = unat a" for a :: ip
    using unsigned_less [where ?'a = nat, of a] by simp
  ultimately show "d ! 0 = 0x45" "get16 d 2 = htons (tot mod 65536)" "htons (get16 d 6) = 0x4000" "d ! 8 = 64" "d ! 9 = of_nat proto"
    "get32 d 12 = src" "get32 d 16 = dst" "take 20 d = ipv4_header tot ident proto csum src dst" "drop 20 d = rest"
    by (simp_all add: d_def ipv4_header_def get16_def get32_def nth_append)
qed

lemma ipv4_header_checksum:
  "memcpy_at (ipv4_header tot ident proto 0 src dst) 10 (le_bytes 2 c) = ipv4_header tot ident proto c src dst"
  by (simp add: memcpy_at_def ipv4_header_def)

lemma ipv4_header_verifies:
  "checksum (ipv4_header tot ident proto (checksum (ipv4_header tot ident proto 0 src dst)) src dst) = 0"
proof -
  let ?h = "ipv4_header tot ident proto 0 src dst"
  have "?h ! 10 = 0" "?h ! (10 + 1) = 0"
    by (simp_all add: ipv4_header_def nth_append numeral_2_eq_2)
  then show ?thesis
    using checksum_verifies_at [of ?h 10] by (simp add: ipv4_header_checksum)
qed

text \<open>What is sent over the loopback interface arrives at the transport layer unchanged.\<close>

lemma ipv4_output_loopback:
  assumes "nb_ok buf" and "20 \<le> nb_off buf" and "loopback s = Some i"
    and "nb_len buf + 20 \<le> nf_mtu (iface s i)" and "nb_len buf + 20 < 65536" and "proto < 256"
  shows "\<exists>nb. nb_ok nb \<and> nb_data nb = nb_data buf \<and> nb_len nb = nb_len buf \<and> nb_src_ip nb = src \<and> nb_dst_ip nb = 0x0100007F \<and>
    ipv4_output tcp raw buf src 0x0100007F proto s =
      (let s = s\<lparr>ip_id := (ip_id s + 1) mod 65536\<rparr>
       in if proto = IPPROTO_TCP then tcp i nb s else if proto = IPPROTO_UDP then udp_input nb s else s)"
proof -
  define s1 where "s1 = s\<lparr>ip_id := (ip_id s + 1) mod 65536\<rparr>"
  define tot where "tot = nb_len buf + 20"
  define h where "h = ipv4_header tot (ip_id s) proto (checksum (ipv4_header tot (ip_id s) proto 0 src 0x0100007F)) src 0x0100007F"
  obtain b0 where push: "netbuf_push 20 buf = Some b0" and b1: "nb_ok (netbuf_store 0 h b0)"
      "nb_data (netbuf_store 0 h b0) = h @ nb_data buf" "nb_len b0 = tot"
    using push_store [OF assms(1), of h] assms(2) by (auto simp: h_def tot_def)
  define b1 where "b1 = netbuf_store 0 h b0"
  define d where "d = nb_data b1"
  have len1: "nb_len b1 = tot"
    using b1 by (simp add: b1_def netbuf_store_def)
  have d: "d ! 0 = 0x45" "htons (get16 d 2) = tot" "htons (get16 d 6) = 0x4000" "d ! 8 = 64" "unat (d ! 9) = proto"
      "get32 d 12 = src" "get32 d 16 = 0x0100007F" "take 20 d = h" "drop 20 d = nb_data buf"
    using ipv4_header_fields [of tot "ip_id s" proto _ src "0x0100007F" "nb_data buf"] b1 assms(5,6)
    by (simp_all add: d_def b1_def h_def tot_def unat_of_nat)
  have hdr: "unat (d ! 0 AND 0x0F) * 4 = 20" "drop_bit 4 (d ! 0) = 4"
    by (simp_all add: d(1))
  have valid: "ipv4_valid s1 i b1"
    using d hdr ipv4_header_verifies [of tot "ip_id s" proto src "0x0100007F"] assms(3) len1
    by (simp add: ipv4_valid_def Let_def flip: d_def)
      (simp add: h_def IPV4_HEADER_LEN_def tot_def netif_loopback_def s1_def)
  have "netbuf_set_len tot b1 = (True, b1)"
    using b1(1) len1 by (simp add: netbuf_set_len_def nb_ok_def b1_def netbuf_store_def)
  moreover define b2 where "b2 = b1\<lparr>nb_src_ip := src, nb_dst_ip := 0x0100007F, nb_protocol := proto\<rparr>"
  have "nb_ok b2" "nb_len b2 = tot" "nb_data b2 = d"
    using b1 len1 by (simp_all add: b2_def nb_ok_def d_def nb_data_def b1_def)
  then obtain nb where nb: "netbuf_pull 20 b2 = Some nb" "nb_ok nb" "nb_data nb = nb_data buf" "nb_len nb = nb_len buf"
    using pull_data [of b2 20] d(9) by (auto simp: tot_def)
  have ips: "nb_src_ip nb = src" "nb_dst_ip nb = 0x0100007F"
    using nb(1) by (auto simp: netbuf_pull_def b2_def split: if_splits)
  have "ipv4_input tcp i b1 s1 = (if proto = IPPROTO_TCP then tcp i nb s1 else if proto = IPPROTO_UDP then udp_input nb s1 else s1)"
    using valid d hdr len1 nb(1) calculation
    by (simp add: ipv4_input_def Let_def flip: d_def) (auto simp: IPV4_HEADER_LEN_def tot_def b2_def)
  moreover have "ipv4_output tcp raw buf src 0x0100007F proto s = ipv4_input tcp i b1 s1"
    using push assms(3,4) b1(3) len1
    by (simp add: ipv4_output_def Let_def IPV4_HEADER_LEN_def netif_loopback_def loopback_tx_def netif_input_def
        ipv4_header_checksum iface_def flip: h_def b1_def s1_def) (simp add: tot_def s1_def)
  ultimately show ?thesis
    using nb ips by (intro exI [of _ nb]) (simp add: Let_def s1_def)
qed

lemma udp_header_fields:
  fixes sport dport len rest
  defines "d \<equiv> (le_bytes 2 sport @ le_bytes 2 dport @ le_bytes 2 (htons len) @ le_bytes 2 0) @ rest"
  assumes "sport < 65536" "dport < 65536" "len < 65536"
  shows "get16 d 0 = sport" "get16 d 2 = dport" "htons (get16 d 4) = len" "get16 d 6 = 0" "drop 8 d = rest"
  using assms htons_bound [of len] by (simp_all add: d_def get16_def)

lemma udp_input_delivers:
  assumes "nb_ok nb" and "nb_data nb = (le_bytes 2 sport @ le_bytes 2 dport @ le_bytes 2 (htons (8 + length data)) @ le_bytes 2 0) @ data"
    and "sport < 65536" and "dport < 65536" and "length data \<le> 1472"
    and "find_udp_pcb (nb_dst_ip nb) dport (nb_src_ip nb) sport s = Some q" and "length (up_recv q) < 32"
  shows "\<exists>nb'. nb_ok nb' \<and> nb_data nb' = data \<and> nb_len nb' = length data \<and> nb_src_ip nb' = nb_src_ip nb \<and> nb_src_port nb' = sport \<and>
    udp_input nb s = udp_deliver (up_id q) nb' s"
proof -
  let ?d = "nb_data nb"
  have len: "nb_len nb = 8 + length data"
    using assms(1,2) length_nb_data [of nb] by simp
  have d: "get16 ?d 0 = sport" "get16 ?d 2 = dport" "htons (get16 ?d 4) = 8 + length data" "get16 ?d 6 = 0" "drop 8 ?d = data"
    unfolding assms(2) using udp_header_fields [OF assms(3,4), of "8 + length data" data] assms(5) by simp_all
  have set: "netbuf_set_len (8 + length data) nb = (True, nb)"
    using assms(1) len by (simp add: netbuf_set_len_def nb_ok_def)
  define nb1 where "nb1 = nb\<lparr>nb_src_port := sport, nb_dst_port := dport\<rparr>"
  have nb1: "nb_ok nb1" "nb_data nb1 = ?d" "nb_len nb1 = 8 + length data" "nb_src_ip nb1 = nb_src_ip nb" "nb_src_port nb1 = sport"
    using assms(1) len by (simp_all add: nb1_def nb_ok_def nb_data_def)
  then obtain nb' where nb': "netbuf_pull 8 nb1 = Some nb'" "nb_ok nb'" "nb_data nb' = data" "nb_len nb' = length data"
    using pull_data [of nb1 8] d(5) by auto
  have "nb_src_ip nb' = nb_src_ip nb" "nb_src_port nb' = sport"
    using nb'(1) nb1 by (auto simp: netbuf_pull_def split: if_splits)
  moreover have "udp_input nb s = udp_deliver (up_id q) nb' s"
    using d set assms(6,7) nb'(1) len by (simp add: udp_input_def Let_def UDP_HEADER_LEN_def flip: nb1_def)
  ultimately show ?thesis
    using nb' by blast
qed

lemma find_map_id:
  assumes "distinct (map up_id ps)" and "p \<in> set ps" and "\<And>x. up_id (f x) = up_id x"
  shows "find (\<lambda>x. up_id x = up_id p) (map (\<lambda>x. if up_id x = up_id p then f x else x) ps) = Some (f p)"
  using assms
proof (induction ps)
  case (Cons x ps)
  then show ?case
    by (cases "x = p") (auto simp: rev_image_eqI)
qed simp

lemma pcb_upd:
  assumes "distinct (map up_id (udp_list s))" and "p \<in> set (udp_list s)" and "\<And>x. up_id (f x) = up_id x"
  shows "pcb (upd_pcb (up_id p) f s) (up_id p) = f p"
  using find_map_id [OF assms] by (simp add: pcb_def upd_pcb_def)

lemma distinct_upd_pcb:
  assumes "\<And>x. up_id (f x) = up_id x"
  shows "map up_id (udp_list (upd_pcb k f s)) = map up_id (udp_list s)"
  using assms by (simp add: upd_pcb_def)

lemma udp_deliver_recv:
  assumes "distinct (map up_id (udp_list s))" and "q \<in> set (udp_list s)"
  shows "up_recv (pcb (udp_deliver (up_id q) nb s) (up_id q)) = up_recv q @ [nb]"
    "up_wait_recv (pcb (udp_deliver (up_id q) nb s) (up_id q)) = None"
proof -
  let ?f = "\<lambda>p. p\<lparr>up_recv := up_recv p @ [nb]\<rparr>" and ?g = "\<lambda>p. p\<lparr>up_wait_recv := None\<rparr>"
  let ?s = "upd_pcb (up_id q) ?f s"
  have one: "pcb ?s (up_id q) = ?f q"
    by (rule pcb_upd [OF assms]) simp
  have "distinct (map up_id (udp_list ?s))"
    using assms(1) by (subst distinct_upd_pcb) simp_all
  moreover have "?f q \<in> set (udp_list ?s)"
    using assms(2) by (auto simp: upd_pcb_def)
  ultimately have "pcb (upd_pcb (up_id (?f q)) ?g ?s) (up_id (?f q)) = ?g (?f q)"
    by (rule pcb_upd) simp
  moreover have "pcb (t\<lparr>woken := w\<rparr>) k = pcb t k" for t w k
    by (simp add: pcb_def)
  ultimately show "up_recv (pcb (udp_deliver (up_id q) nb s) (up_id q)) = up_recv q @ [nb]"
    "up_wait_recv (pcb (udp_deliver (up_id q) nb s) (up_id q)) = None"
    using one by (simp_all add: udp_deliver_def Let_def split: option.splits)
qed

section \<open>Ports\<close>

text \<open>No two blocks share a local end: bound to the same port they have different specific addresses.\<close>

definition ports_distinct :: "net \<Rightarrow> bool" where
  "ports_distinct s \<longleftrightarrow>
     distinct (map up_id (udp_list s)) \<and>
     (\<forall>p\<in>set (udp_list s). \<forall>q\<in>set (udp_list s).
        up_id p \<noteq> up_id q \<and> up_bound p \<and> up_bound q \<and> up_local_port p = up_local_port q \<longrightarrow>
        up_local_ip p \<noteq> 0 \<and> up_local_ip q \<noteq> 0 \<and> up_local_ip p \<noteq> up_local_ip q)"

lemma ephemeral_port_list: "udp_list (snd (ephemeral_port n k addr s)) = udp_list s"
  by (induction n arbitrary: s) (simp_all add: Let_def)

lemma port_used_cong: "udp_list s = udp_list t \<Longrightarrow> port_used k addr port s = port_used k addr port t"
  by (simp add: port_used_def)

lemma ports_distinct_keep:
  assumes "ports_distinct s" and "\<And>p. up_id (f p) = up_id p" "\<And>p. up_bound (f p) = up_bound p"
    "\<And>p. up_local_port (f p) = up_local_port p" "\<And>p. up_local_ip (f p) = up_local_ip p"
  shows "ports_distinct (upd_pcb k f s)"
proof -
  have ids: "map up_id (udp_list (upd_pcb k f s)) = map up_id (udp_list s)"
    by (rule distinct_upd_pcb) (rule assms(2))
  have "\<exists>p'\<in>set (udp_list s). up_id p = up_id p' \<and> up_bound p = up_bound p' \<and> up_local_port p = up_local_port p' \<and>
      up_local_ip p = up_local_ip p'" if "p \<in> set (udp_list (upd_pcb k f s))" for p
    using that assms(2-5) by (auto simp: upd_pcb_def)
  then show ?thesis
    using assms(1) unfolding ports_distinct_def ids by metis
qed

lemma ports_distinct_bind:
  assumes "ports_distinct s" and "\<not> port_used k addr port s"
  shows "ports_distinct (upd_pcb k (\<lambda>p. p\<lparr>up_local_ip := addr, up_local_port := port, up_bound := True\<rparr>) s)"
    (is "ports_distinct ?t")
proof -
  let ?f = "\<lambda>p. p\<lparr>up_local_ip := addr, up_local_port := port, up_bound := True\<rparr>"
  have ids: "map up_id (udp_list ?t) = map up_id (udp_list s)"
    by (rule distinct_upd_pcb) simp
  have members: "\<exists>p'\<in>set (udp_list s). up_id p' = up_id p \<and> p = (if up_id p' = k then ?f p' else p')"
    if "p \<in> set (udp_list ?t)" for p
    using that by (auto simp: upd_pcb_def)
  have free: "up_local_port q \<noteq> port \<or> addr \<noteq> 0 \<and> up_local_ip q \<noteq> 0 \<and> addr \<noteq> up_local_ip q"
    if "q \<in> set (udp_list s)" "up_id q \<noteq> k" "up_bound q" for q
    using assms(2) that by (auto simp: port_used_def list_ex_iff)
  have "up_local_ip p \<noteq> 0 \<and> up_local_ip q \<noteq> 0 \<and> up_local_ip p \<noteq> up_local_ip q"
    if pq: "p \<in> set (udp_list ?t)" "q \<in> set (udp_list ?t)" "up_id p \<noteq> up_id q" "up_bound p" "up_bound q" "up_local_port p = up_local_port q"
    for p q
  proof -
    obtain p' where p': "p' \<in> set (udp_list s)" "up_id p' = up_id p" "p = (if up_id p' = k then ?f p' else p')"
      using members pq(1) by blast
    obtain q' where q': "q' \<in> set (udp_list s)" "up_id q' = up_id q" "q = (if up_id q' = k then ?f q' else q')"
      using members pq(2) by blast
    consider "up_id p' = k" "up_id q' \<noteq> k" | "up_id p' \<noteq> k" "up_id q' = k" | "up_id p' \<noteq> k" "up_id q' \<noteq> k"
      using pq(3) p'(2) q'(2) by auto
    then show ?thesis
    proof cases
      case 1
      then have "up_local_ip p = addr" "up_local_port p = port" "q = q'"
        using p'(3) q'(3) by simp_all
      then show ?thesis
        using free [of q'] 1(2) q'(1) pq(5,6) by auto
    next
      case 2
      then have "up_local_ip q = addr" "up_local_port q = port" "p = p'"
        using p'(3) q'(3) by simp_all
      then show ?thesis
        using free [of p'] 2(1) p'(1) pq(4,6) by auto
    next
      case 3
      then have "p = p'" "q = q'"
        using p'(3) q'(3) by simp_all
      then show ?thesis
        using assms(1) p'(1) q'(1) pq(3-6) unfolding ports_distinct_def by blast
    qed
  qed
  then show ?thesis
    using assms(1) unfolding ports_distinct_def ids by blast
qed

lemma udp_bind_ports:
  assumes "ports_distinct s"
  shows "ports_distinct (snd (udp_bind k addr port s))"
proof -
  define ps where "ps = (if port = 0 then ephemeral_port 16384 k addr s else (port, s))"
  have list: "udp_list (snd ps) = udp_list s"
    by (simp add: ps_def ephemeral_port_list)
  then have "ports_distinct (snd ps)"
    using assms by (simp add: ports_distinct_def)
  then show ?thesis
    using ports_distinct_bind [of "snd ps" k addr "fst ps"] assms
    by (simp add: udp_bind_def case_prod_beta Let_def flip: ps_def)
qed

lemma udp_list_arp [simp]:
  "udp_list (nic_transmit i buf s) = udp_list s"
  "udp_list (arp_transmit i buf mac s) = udp_list s"
  "udp_list (arp_request raw i opc a mac s) = udp_list s"
  by (simp_all add: arp_transmit_def nic_transmit_def arp_request_def Let_def split: option.splits)

lemma udp_list_enqueue [simp]: "udp_list (snd (arp_enqueue k buf s)) = udp_list s"
  by (simp add: arp_enqueue_def)

lemma udp_list_arp_output [simp]: "udp_list (arp_output raw i buf a s) = udp_list s"
  by (simp add: arp_output_def Let_def case_prod_beta split: option.splits)

lemma udp_list_ethernet_output [simp]: "udp_list (ethernet_output raw i buf a ty s) = udp_list s"
  by (simp add: ethernet_output_def Let_def split: option.splits)

lemma udp_list_arp_learn [simp]: "udp_list (arp_learn i a mac perm s) = udp_list s"
proof -
  have "udp_list (fold (\<lambda>buf. arp_transmit i buf mac) bufs t) = udp_list t" for bufs t
    by (induction bufs arbitrary: t) simp_all
  then show ?thesis
    by (simp add: arp_learn_def Let_def split: option.splits)
qed

lemma ports_distinct_cong: "udp_list s = udp_list t \<Longrightarrow> ports_distinct s = ports_distinct t"
  by (simp add: ports_distinct_def)

lemma ports_distinct_simps [simp]:
  "ports_distinct (s\<lparr>woken := w\<rparr>) = ports_distinct s" "ports_distinct (s\<lparr>ip_id := n\<rparr>) = ports_distinct s"
  by (rule ports_distinct_cong; simp)+

lemma udp_input_ports: "ports_distinct s \<Longrightarrow> ports_distinct (udp_input buf s)"
  by (simp add: udp_input_def udp_deliver_def Let_def ports_distinct_keep split: option.splits)

text \<open>The transport protocol beside UDP does not touch the blocks of UDP.\<close>

definition keeps_ports :: "(ifid \<Rightarrow> netbuf \<Rightarrow> net \<Rightarrow> net) \<Rightarrow> bool" where
  "keeps_ports tcp \<longleftrightarrow> (\<forall>i buf s. udp_list (tcp i buf s) = udp_list s)"

lemma ipv4_input_ports: "keeps_ports tcp \<Longrightarrow> ports_distinct s \<Longrightarrow> ports_distinct (ipv4_input tcp i buf s)"
  using ports_distinct_cong [of "tcp i b s" s for b]
  by (simp add: ipv4_input_def Let_def udp_input_ports keeps_ports_def)

lemma netif_input_ports:
  assumes "keeps_ports tcp" and "ports_distinct s"
  shows "ports_distinct (netif_input tcp raw i buf s)"
proof -
  have "ports_distinct (arp_input raw i b s)" for b
    using assms(2) by (simp add: arp_input_def Let_def ports_distinct_cong [of "arp_learn _ _ _ _ s" s]
        ports_distinct_cong [of "arp_request _ _ _ _ _ _" s])
  then show ?thesis
    using assms by (simp add: netif_input_def ethernet_input_def Let_def ipv4_input_ports)
qed

lemma ipv4_output_ports:
  assumes "keeps_ports tcp" and "ports_distinct s"
  shows "ports_distinct (ipv4_output tcp raw buf src dst proto s)"
proof -
  have "ports_distinct (ethernet_output raw i b dst ty (s\<lparr>ip_id := n\<rparr>))" for i b ty n
    using assms(2) ports_distinct_cong [of "ethernet_output raw i b dst ty (s\<lparr>ip_id := n\<rparr>)" s] by simp
  then show ?thesis
    using assms by (simp add: ipv4_output_def Let_def loopback_tx_def netif_input_ports split: option.splits)
qed

lemma udp_connect_ports: "ports_distinct s \<Longrightarrow> ports_distinct (snd (udp_connect k addr port s))"
  using udp_bind_ports [of s k "up_local_ip (pcb s k)" 0]
  by (simp add: udp_connect_def Let_def case_prod_beta ports_distinct_keep)

lemma udp_sendto_ports:
  assumes "keeps_ports tcp" and "ports_distinct s"
  shows "ports_distinct (snd (udp_sendto tcp raw raw2 k data dst port s))"
  using assms by (simp add: udp_sendto_def Let_def case_prod_beta ipv4_output_ports udp_bind_ports split: option.splits)

lemma udp_recv_ports: "ports_distinct s \<Longrightarrow> ports_distinct (snd (udp_recv_pass cur fatal w k len s))"
  by (simp add: udp_recv_pass_def Let_def ports_distinct_keep split: list.splits)

inductive udp_reachable :: "(ifid \<Rightarrow> netbuf \<Rightarrow> net \<Rightarrow> net) \<Rightarrow> net \<Rightarrow> bool" for tcp where
  start: "udp_list s = [] \<Longrightarrow> udp_reachable tcp s"
| new: "udp_reachable tcp s \<Longrightarrow> k \<notin> up_id ` set (udp_list s) \<Longrightarrow> udp_reachable tcp (snd (udp_new mem k s))"
| free: "udp_reachable tcp s \<Longrightarrow> udp_reachable tcp (udp_free k s)"
| bind: "udp_reachable tcp s \<Longrightarrow> udp_reachable tcp (snd (udp_bind k addr port s))"
| connect: "udp_reachable tcp s \<Longrightarrow> udp_reachable tcp (snd (udp_connect k addr port s))"
| send: "udp_reachable tcp s \<Longrightarrow> udp_reachable tcp (snd (udp_sendto tcp raw raw2 k data dst port s))"
| recv: "udp_reachable tcp s \<Longrightarrow> udp_reachable tcp (snd (udp_recv_pass cur fatal w k len s))"
| wake: "udp_reachable tcp s \<Longrightarrow> udp_reachable tcp (udp_recv_wake cur k s)"
| packet: "udp_reachable tcp s \<Longrightarrow> udp_reachable tcp (netif_input tcp raw i buf s)"

lemma udp_reachable_ports:
  assumes "udp_reachable tcp s" and "keeps_ports tcp"
  shows "ports_distinct s"
  using assms(1)
proof (induction rule: udp_reachable.induct)
  case (new s k mem)
  then show ?case
    by (cases mem) (auto simp: udp_new_def ports_distinct_def)
next
  case (free s k)
  then show ?case
    by (cases k) (auto simp: udp_free_def ports_distinct_def distinct_map_filter)
qed (use assms(2) in \<open>simp_all add: udp_bind_ports udp_connect_ports udp_sendto_ports udp_recv_ports udp_recv_wake_def
    ports_distinct_keep netif_input_ports, simp add: ports_distinct_def\<close>)

text \<open>The ephemeral ports a search of \<open>n\<close> tries visits, from the current one on and around.\<close>

definition ephemeral_at :: "nat \<Rightarrow> nat \<Rightarrow> nat" where
  "ephemeral_at e j = 49152 + (e - 49152 + j) mod 16384"

lemma ephemeral_next:
  assumes "49152 \<le> e" and "e < 65536"
  shows "(if (e + 1) mod 65536 < 49152 then 49152 else (e + 1) mod 65536) = ephemeral_at e 1"
proof (cases "e = 65535")
  case False
  then have "e - 49152 + 1 < 16384" "e + 1 < 65536"
    using assms by simp_all
  then show ?thesis
    using assms by (simp add: ephemeral_at_def)
qed (simp add: ephemeral_at_def)

lemma ephemeral_at_range: "49152 \<le> ephemeral_at e j" "ephemeral_at e j < 65536"
proof -
  have "(e - 49152 + j) mod 16384 < 16384"
    by (rule mod_less_divisor) simp
  then show "49152 \<le> ephemeral_at e j" "ephemeral_at e j < 65536"
    by (simp_all add: ephemeral_at_def)
qed

lemma ephemeral_at_step: "ephemeral_at (ephemeral_at e 1) j = ephemeral_at e (Suc j)"
  by (simp add: ephemeral_at_def mod_add_left_eq)

lemma ephemeral_port_result:
  assumes "49152 \<le> udp_ephemeral s" and "udp_ephemeral s < 65536"
  shows "if \<exists>j<n. \<not> port_used k addr (htons (ephemeral_at (udp_ephemeral s) j)) s
    then \<exists>j<n. fst (ephemeral_port n k addr s) = htons (ephemeral_at (udp_ephemeral s) j) \<and>
      \<not> port_used k addr (fst (ephemeral_port n k addr s)) s
    else fst (ephemeral_port n k addr s) = 0"
  using assms
proof (induction n arbitrary: s)
  case (Suc n)
  let ?e = "udp_ephemeral s"
  define t where "t = s\<lparr>udp_ephemeral := ephemeral_at ?e 1\<rparr>"
  have e0: "ephemeral_at ?e 0 = ?e"
    using Suc.prems by (simp add: ephemeral_at_def)
  have used: "port_used k addr p t = port_used k addr p s" for p
    by (simp add: t_def port_used_def)
  have run: "ephemeral_port (Suc n) k addr s = (if \<not> port_used k addr (htons ?e) s then (htons ?e, t) else ephemeral_port n k addr t)"
    unfolding ephemeral_port.simps ephemeral_next [OF Suc.prems] Let_def t_def [symmetric] used ..
  show ?case
  proof (cases "port_used k addr (htons ?e) s")
    case True
    have shift: "(\<exists>j<Suc n. Q (ephemeral_at ?e j)) = (\<exists>j<n. Q (ephemeral_at (udp_ephemeral t) j))" if "\<not> Q ?e" for Q
    proof -
      have "(\<exists>j<Suc n. Q (ephemeral_at ?e j)) = (Q (ephemeral_at ?e 0) \<or> (\<exists>j<n. Q (ephemeral_at ?e (Suc j))))"
        by (metis less_Suc_eq_0_disj)
      then show ?thesis
        using that e0 unfolding t_def by (simp add: ephemeral_at_step [unfolded One_nat_def])
    qed
    have ih: "if \<exists>j<n. \<not> port_used k addr (htons (ephemeral_at (udp_ephemeral t) j)) t
      then \<exists>j<n. fst (ephemeral_port n k addr t) = htons (ephemeral_at (udp_ephemeral t) j) \<and>
        \<not> port_used k addr (fst (ephemeral_port n k addr t)) t
      else fst (ephemeral_port n k addr t) = 0"
      by (rule Suc.IH) (simp_all add: t_def ephemeral_at_range)
    let ?Q = "\<lambda>x. fst (ephemeral_port n k addr t) = htons x \<and> \<not> port_used k addr (fst (ephemeral_port n k addr t)) s"
    have "\<not> ?Q ?e"
      using True by auto
    note found = shift [of ?Q, OF this] shift [of "\<lambda>x. \<not> port_used k addr (htons x) s"]
    show ?thesis
      using ih True found unfolding run used by (simp del: ephemeral_port.simps)
  next
    case False
    then show ?thesis
      using e0 unfolding run by (auto simp del: ephemeral_port.simps intro!: exI [of _ 0])
  qed
qed simp

lemma ephemeral_at_surj:
  assumes "49152 \<le> p" "p < 65536" "49152 \<le> e" "e < 65536"
  shows "\<exists>j<16384. ephemeral_at e j = p"
proof -
  let ?j = "(p + 16384 - e) mod 16384"
  have "(e - 49152 + ?j) mod 16384 = (e - 49152 + (p + 16384 - e)) mod 16384"
    by (rule mod_add_right_eq)
  also have "e - 49152 + (p + 16384 - e) = (p - 49152) + 16384"
    using assms by simp
  also have "((p - 49152) + 16384) mod 16384 = (p - 49152) mod 16384"
    by (rule mod_add_self2)
  also have "\<dots> = p - 49152"
    using assms by simp
  finally have "ephemeral_at e ?j = p"
    using assms(1) by (simp add: ephemeral_at_def)
  then show ?thesis
    by (intro exI [of _ ?j]) simp
qed

lemma htons_nonzero: "49152 \<le> p \<Longrightarrow> p < 65536 \<Longrightarrow> htons p \<noteq> 0"
  using div_greater_zero_iff [of p 256] by (simp add: htons_def)

section \<open>Neighbours\<close>

lemma index_of_SomeD: "index_of P xs = Some k \<Longrightarrow> k < length xs \<and> P (xs ! k)"
  by (auto simp: index_of_def find_Some_iff)

lemma index_of_None: "index_of P xs = None \<longleftrightarrow> (\<forall>k<length xs. \<not> P (xs ! k))"
  by (auto simp: index_of_def find_None_iff)

lemma index_of_exists: "k < length xs \<Longrightarrow> P (xs ! k) \<Longrightarrow> \<exists>j. index_of P xs = Some j"
  using index_of_None by fastforce

text \<open>The tables keep their sizes, a free waiting slot holds no packet, a slot holds at most
  \<^const>\<open>PACKETS_PER_NEIGHBOR\<close> packets and was asked for at most three times, and no two slots wait for the same
  neighbour.\<close>

definition slot_ok :: "arp_pending \<Rightarrow> bool" where
  "slot_ok p \<longleftrightarrow> length (ap_packets p) \<le> PACKETS_PER_NEIGHBOR \<and> ap_attempts p \<le> 3 \<and> (ap_iface p = None \<longrightarrow> ap_packets p = [])"

definition same_wait :: "arp_pending \<Rightarrow> arp_pending \<Rightarrow> bool" where
  "same_wait p q \<longleftrightarrow> ap_iface p \<noteq> None \<and> ap_iface p = ap_iface q \<and> ap_ip p = ap_ip q"

definition waits_apart :: "arp_pending list \<Rightarrow> bool" where
  "waits_apart ps \<longleftrightarrow> (\<forall>j<length ps. \<forall>k<length ps. same_wait (ps ! j) (ps ! k) \<longrightarrow> j = k)"

definition arp_ok :: "net \<Rightarrow> bool" where
  "arp_ok s \<longleftrightarrow> length (cache s) = CACHE_SIZE \<and> length (pending s) = PENDING_NEIGHBORS \<and>
     list_all slot_ok (pending s) \<and> waits_apart (pending s)"

lemma same_wait_sym: "same_wait p q = same_wait q p"
  by (auto simp: same_wait_def)

lemma waits_apart_update:
  assumes "waits_apart ps" and "\<And>j. j < length ps \<Longrightarrow> j \<noteq> k \<Longrightarrow> \<not> same_wait p (ps ! j)"
  shows "waits_apart (ps[k := p])"
  unfolding waits_apart_def
proof (intro allI impI)
  fix i j
  assume "i < length (ps[k := p])" "j < length (ps[k := p])" "same_wait (ps[k := p] ! i) (ps[k := p] ! j)"
  then show "i = j"
    using assms same_wait_sym by (cases "i = k"; cases "j = k") (auto simp: waits_apart_def)
qed

lemma arp_ok_update:
  assumes "arp_ok s" and "k < length (pending s)" and "slot_ok p"
    and "\<And>j. j < length (pending s) \<Longrightarrow> j \<noteq> k \<Longrightarrow> \<not> same_wait p (pending s ! j)"
    and "length (cache t) = length (cache s)" and "pending t = (pending s)[k := p]"
  shows "arp_ok t"
proof -
  have "list_all slot_ok ((pending s)[k := p])"
    using assms(1,3) set_update_subset_insert [of "pending s" k p] by (auto simp: arp_ok_def list_all_iff)
  then show ?thesis
    using assms waits_apart_update [of "pending s" k p] by (simp add: arp_ok_def)
qed

lemma slot_ok_no_pending [simp]: "slot_ok no_pending" "ap_iface no_pending = None"
  by (simp_all add: slot_ok_def no_pending_def)

lemma arp_ok_keep: "arp_ok s \<Longrightarrow> length (cache t) = length (cache s) \<Longrightarrow> pending t = pending s \<Longrightarrow> arp_ok t"
  by (simp add: arp_ok_def)

lemma transmit_tables [simp]:
  "cache (nic_transmit i b s) = cache s" "pending (nic_transmit i b s) = pending s" "ticks (nic_transmit i b s) = ticks s"
  "ifaces (nic_transmit i b s) = ifaces s"
  "cache (arp_transmit i b m s) = cache s" "pending (arp_transmit i b m s) = pending s" "ticks (arp_transmit i b m s) = ticks s"
  "cache (arp_request raw i opc a m s) = cache s" "pending (arp_request raw i opc a m s) = pending s"
  "ticks (arp_request raw i opc a m s) = ticks s"
  by (simp_all add: nic_transmit_def arp_transmit_def arp_request_def Let_def split: option.splits)

lemma flush_tables [simp]:
  "cache (fold (\<lambda>b. arp_transmit i b m) bs s) = cache s" "pending (fold (\<lambda>b. arp_transmit i b m) bs s) = pending s"
  "ticks (fold (\<lambda>b. arp_transmit i b m) bs s) = ticks s"
  by (induction bs arbitrary: s) simp_all

lemma flush_ifaces [simp]: "ifaces (fold (\<lambda>b. arp_transmit i b m) bs s) = ifaces s"
  by (induction bs arbitrary: s) (simp_all add: arp_transmit_def)

lemma flush_wire: "wire (fold (\<lambda>b. arp_transmit i b m) bs s) = wire s @ map (\<lambda>b. (i, netbuf_store 0 m b)) bs"
  by (induction bs arbitrary: s) (simp_all add: arp_transmit_def nic_transmit_def)

lemma arp_learn_pending:
  "pending (arp_learn i a m perm s) =
    (case index_of (waits_for i a) (pending s) of None \<Rightarrow> pending s | Some k \<Rightarrow> (pending s)[k := no_pending])"
  by (simp add: arp_learn_def Let_def split: option.splits)

lemma arp_learn_cache:
  "cache (arp_learn i a m perm s) = (cache s)[arp_slot i a s :=
     \<lparr>ae_iface = Some i, ae_ip = a, ae_mac = m, ae_expires = (if perm then 0 else wadd 64 (ticks s) 60000)\<rparr>]"
  by (simp add: arp_learn_def Let_def split: option.splits)

lemma arp_learn_ok: "arp_ok s \<Longrightarrow> arp_ok (arp_learn i a m perm s)"
proof (cases "index_of (waits_for i a) (pending s)")
  case (Some k)
  assume "arp_ok s"
  then show ?thesis
    by (rule arp_ok_update [of _ k no_pending])
      (use Some in \<open>auto simp: arp_learn_pending arp_learn_cache same_wait_def dest: index_of_SomeD\<close>)
qed (auto intro!: arp_ok_keep [of s] simp: arp_learn_pending arp_learn_cache)

lemma arp_enqueue_pending:
  assumes "arp_enqueue k b s = (ok, t)"
  shows "cache t = cache s" "pending t = (if ok then (pending s)[k := (pending s ! k)\<lparr>ap_packets := ap_packets (pending s ! k) @ [b]\<rparr>] else pending s)"
    "ok \<longleftrightarrow> length (ap_packets (pending s ! k)) \<noteq> PACKETS_PER_NEIGHBOR"
  using assms by (auto simp: arp_enqueue_def split: if_splits)

lemma arp_enqueue_ok:
  assumes "arp_ok s" and "k < length (pending s)" and "ap_iface (pending s ! k) \<noteq> None"
  shows "arp_ok (snd (arp_enqueue k b s))"
proof -
  obtain ok t where e: "arp_enqueue k b s = (ok, t)"
    by fastforce
  have "slot_ok (pending s ! k)"
    using assms(1,2) by (simp add: arp_ok_def list_all_length)
  then show ?thesis
  proof (cases ok)
    case True
    have "slot_ok ((pending s ! k)\<lparr>ap_packets := ap_packets (pending s ! k) @ [b]\<rparr>)"
      using \<open>slot_ok (pending s ! k)\<close> arp_enqueue_pending(3) [OF e] True assms(3) by (simp add: slot_ok_def)
    then have "arp_ok t"
    proof (rule arp_ok_update [OF assms(1,2)])
      show "\<not> same_wait ((pending s ! k)\<lparr>ap_packets := ap_packets (pending s ! k) @ [b]\<rparr>) (pending s ! j)"
        if "j < length (pending s)" "j \<noteq> k" for j
        using that assms(1,2) by (auto simp: arp_ok_def waits_apart_def same_wait_def)
    qed (use arp_enqueue_pending [OF e] True in auto)
    then show ?thesis
      by (simp add: e)
  next
    case False
    then show ?thesis
      using assms(1) arp_enqueue_pending [OF e] e by (simp add: arp_ok_keep)
  qed
qed

lemma arp_output_ok: "arp_ok s \<Longrightarrow> arp_ok (arp_output raw i b a s)"
proof -
  assume ok: "arp_ok s"
  have keep: "arp_ok (arp_transmit i b m s)" for m
    using ok by (rule arp_ok_keep) simp_all
  show ?thesis
  proof (cases "arp_find i a s = None \<and> \<not> (a = 0xFFFFFFFF \<or> a = nf_addr (iface s i) OR NOT (nf_netmask (iface s i)))")
    case False
    then show ?thesis
      using keep by (auto simp: arp_output_def split: option.splits)
  next
    case True
    show ?thesis
    proof (cases "index_of (waits_for i a) (pending s)")
      case (Some k)
      then have "arp_ok (snd (arp_enqueue k b s))"
        using index_of_SomeD [OF Some] ok by (intro arp_enqueue_ok) (auto simp: waits_for_def)
      then show ?thesis
        using True Some by (simp add: arp_output_def)
    next
      case new: None
      show ?thesis
      proof (cases "index_of (\<lambda>p. ap_iface p = None) (pending s)")
        case None
        then show ?thesis
          using True new ok by (simp add: arp_output_def)
      next
        case (Some k)
        define p where "p = (pending s ! k)\<lparr>ap_iface := Some i, ap_ip := a, ap_attempts := Suc 0,
          ap_retry_at := wadd 64 (ticks s) 1000, ap_expires := wadd 64 (wadd 64 (ticks s) 1000) 2000\<rparr>"
        define t where "t = s\<lparr>pending := (pending s)[k := p]\<rparr>"
        have k: "k < length (pending s)" "ap_iface (pending s ! k) = None"
          using index_of_SomeD [OF Some] by simp_all
        then have "slot_ok (pending s ! k)"
          using ok by (simp add: arp_ok_def list_all_length)
        then have "slot_ok p"
          by (simp add: slot_ok_def p_def)
        then have "arp_ok t"
          by (rule arp_ok_update [OF ok k(1)])
            (use new in \<open>auto simp: t_def p_def same_wait_def index_of_None waits_for_def\<close>)
        then have en: "arp_ok (snd (arp_enqueue k b t))"
          using k(1) by (intro arp_enqueue_ok) (simp_all add: t_def p_def)
        have "arp_ok (arp_request raw i ARP_OP_REQUEST a (replicate 6 0) (snd (arp_enqueue k b t)))"
          using en by (rule arp_ok_keep) simp_all
        then show ?thesis
          using True new Some en by (simp add: arp_output_def Let_def case_prod_unfold flip: p_def t_def)
      qed
    qed
  qed
qed

lemma arp_input_ok: "arp_ok s \<Longrightarrow> arp_ok (arp_input raw i b s)"
proof -
  assume "arp_ok s"
  then have l: "arp_ok (arp_learn i a m False s)" for a m
    by (rule arp_learn_ok)
  then have "arp_ok (arp_request raw i opc x m' (arp_learn i a m False s))" for opc x m' a m
    by (rule arp_ok_keep) simp_all
  then show ?thesis
    using l \<open>arp_ok s\<close> by (simp add: arp_input_def Let_def)
qed

lemma arp_tick_one_ok:
  assumes "arp_ok s" and "k < PENDING_NEIGHBORS"
  shows "arp_ok (arp_tick_one now raw k s)"
proof -
  define p where "p = pending s ! k"
  have k: "k < length (pending s)"
    using assms by (simp add: arp_ok_def)
  then have p: "slot_ok p"
    using assms by (simp add: arp_ok_def list_all_length p_def)
  have drop: "arp_ok (s\<lparr>pending := (pending s)[k := no_pending]\<rparr>)"
    by (rule arp_ok_update [OF assms(1) k slot_ok_no_pending(1)]) (simp_all add: same_wait_def)
  let ?p = "p\<lparr>ap_attempts := Suc (ap_attempts p), ap_retry_at := wadd 64 now 1000\<rparr>"
  have retry: "arp_ok (arp_request raw i ARP_OP_REQUEST (ap_ip p) (replicate 6 0) (s\<lparr>pending := (pending s)[k := ?p]\<rparr>))"
    if "ap_attempts p \<noteq> 3" for i
  proof (rule arp_ok_update [OF assms(1) k])
    show "slot_ok ?p"
      using p that by (simp add: slot_ok_def)
    show "\<not> same_wait ?p (pending s ! j)" if "j < length (pending s)" "j \<noteq> k" for j
      using that assms(1) k by (auto simp: arp_ok_def waits_apart_def same_wait_def p_def)
  qed simp_all
  show ?thesis
    using assms(1) drop retry by (simp add: arp_tick_one_def Let_def split: option.splits flip: p_def)
qed

lemma arp_tick_ok: "arp_ok s \<Longrightarrow> arp_ok (arp_tick now raw s)"
proof -
  assume ok: "arp_ok s"
  have "arp_ok (fold (arp_tick_one now raw) ks s)" if "set ks \<subseteq> {0..<PENDING_NEIGHBORS}" for ks
    using that ok by (induction ks arbitrary: s) (auto intro: arp_tick_one_ok)
  from this [of "[0..<PENDING_NEIGHBORS]"] show ?thesis
    by (simp add: arp_tick_def)
qed

text \<open>The neighbour tables under any order of packets, replies, timer ticks, static entries and the
  passing of time.\<close>

inductive arp_reachable :: "net \<Rightarrow> bool" where
  arp_boot: "arp_reachable s" if "cache s = replicate CACHE_SIZE no_entry" "pending s = replicate PENDING_NEIGHBORS no_pending"
| arp_out: "arp_reachable (arp_output raw i b a s)" if "arp_reachable s"
| arp_in: "arp_reachable (arp_input raw i b s)" if "arp_reachable s"
| arp_time: "arp_reachable (arp_tick (ticks s) raw s)" if "arp_reachable s"
| arp_static: "arp_reachable (arp_add_static i a m s)" if "arp_reachable s"
| arp_clock: "arp_reachable (s\<lparr>ticks := n\<rparr>)" if "arp_reachable s"

lemma arp_boot_ok:
  assumes "cache s = replicate CACHE_SIZE no_entry" and "pending s = replicate PENDING_NEIGHBORS no_pending"
  shows "arp_ok s"
  using assms by (simp add: arp_ok_def list_all_length waits_apart_def same_wait_def)

lemma arp_reachable_ok: "arp_reachable s \<Longrightarrow> arp_ok s"
  by (induction rule: arp_reachable.induct)
    (auto intro: arp_boot_ok arp_output_ok arp_input_ok arp_tick_ok arp_learn_ok arp_ok_keep simp: arp_add_static_def)

lemma arp_slot_less: "length (cache s) = CACHE_SIZE \<Longrightarrow> arp_slot i a s < CACHE_SIZE"
  using index_of_SomeD [of _ "cache s"]
  by (fastforce simp: arp_slot_def arp_find_def CACHE_SIZE_def split: option.splits)

lemma index_of_first: "k < length xs \<Longrightarrow> P (xs ! k) \<Longrightarrow> (\<And>j. j < k \<Longrightarrow> \<not> P (xs ! j)) \<Longrightarrow> index_of P xs = Some k"
  by (auto simp: index_of_def find_Some_iff)

lemma index_of_before: "index_of P xs = Some k \<Longrightarrow> j < k \<Longrightarrow> \<not> P (xs ! j)"
  by (auto simp: index_of_def find_Some_iff)

lemma arp_learn_finds:
  assumes "length (cache s) = CACHE_SIZE" and "perm \<or> ticks s + 60000 < 2 ^ 64"
  shows "arp_find i a (arp_learn i a m perm s) = Some (arp_slot i a s)"
    "ae_mac (cache (arp_learn i a m perm s) ! arp_slot i a s) = m"
proof -
  let ?k = "arp_slot i a s" and ?t = "arp_learn i a m perm s"
  have k: "?k < length (cache s)"
    using arp_slot_less [OF assms(1)] assms(1) by simp
  have ticks: "ticks ?t = ticks s"
    by (simp add: arp_learn_def Let_def split: option.splits)
  have live: "arp_live (ticks s) i a (cache ?t ! ?k)"
    using k assms(2) by (auto simp: arp_learn_cache arp_live_def wadd_def)
  have "\<not> arp_live (ticks s) i a (cache s ! j)" if "j < ?k" for j
    using that k index_of_before [of _ "cache s" ?k] index_of_None [of "arp_live (ticks s) i a" "cache s"]
    by (cases "arp_find i a s") (auto simp: arp_slot_def arp_find_def)
  then show "arp_find i a ?t = Some ?k"
    unfolding arp_find_def ticks using live k by (intro index_of_first) (simp_all add: arp_learn_cache)
  show "ae_mac (cache ?t ! ?k) = m"
    using k by (simp add: arp_learn_cache)
qed

section \<open>Properties\<close>

text \<open>C21. A datagram sent to 127.0.0.1 arrives: through the UDP and IP headers, the header checksum, the
  loopback interface and the input path with all its checks, the payload is appended unchanged to the
  queue of the block that owns the destination port, with the sender's address and port, and a receive
  with a large enough buffer on an empty queue then returns exactly the payload.\<close>

theorem udp_loopback_delivers:
  assumes "loopback s = Some i" and "length data \<le> 1472" and "length data + 28 \<le> nf_mtu (iface s i)"
    and "up_bound (pcb s k)" and "up_local_port (pcb s k) < 65536" and "0 < dport" and "dport < 65536"
    and "src = (if up_local_ip (pcb s k) = 0 then nf_addr (iface s i) else up_local_ip (pcb s k))"
    and "find_udp_pcb 0x0100007F dport src (up_local_port (pcb s k)) s = Some q" and "length (up_recv q) < 32"
    and "distinct (map up_id (udp_list s))"
  shows "\<exists>s' nb. udp_sendto tcp (Some f) raw k data 0x0100007F dport s = (int (length data), s') \<and>
    up_recv (pcb s' (up_id q)) = up_recv q @ [nb] \<and> nb_data nb = data \<and> nb_src_ip nb = src \<and>
    nb_src_port nb = up_local_port (pcb s k) \<and>
    (up_recv q = [] \<and> length data \<le> len \<longrightarrow>
      fst (udp_recv_pass (Some t) False w (up_id q) len s') = Some (Received (int (length data)) data src (up_local_port (pcb s k))))"
proof -
  let ?sport = "up_local_port (pcb s k)"
  let ?h = "le_bytes 2 ?sport @ le_bytes 2 dport @ le_bytes 2 (htons (UDP_HEADER_LEN + length data)) @ le_bytes 2 0"
  obtain b0 where b0: "netbuf_alloc (Some f) = Some b0" "nb_ok b0" "nb_off b0 = 128" "nb_len b0 = 0" "length (nb_buf b0) = 2048"
    using netbuf_alloc_Some netbuf_alloc_ok by (metis HEADROOM_def DEFAULT_SIZE_def)
  then obtain b1 where b1: "netbuf_put (length data) b0 = Some b1" "nb_ok (netbuf_store 0 data b1)"
      "nb_data (netbuf_store 0 data b1) = data" "nb_off b1 = 128" "nb_len b1 = length data"
    using put_store [of b0 data] assms(2) by auto
  define b1' where "b1' = netbuf_store 0 data b1"
  have off: "nb_off b1' = 128" "nb_len b1' = length data"
    using b1 by (simp_all add: b1'_def netbuf_store_def)
  obtain b2 where b2: "netbuf_push 8 b1' = Some b2" "nb_ok (netbuf_store 0 ?h b2)" "nb_data (netbuf_store 0 ?h b2) = ?h @ data"
      "nb_off b2 = 120" "nb_len b2 = 8 + length data"
    using push_store [of b1' ?h] b1 off by (auto simp: b1'_def)
  define b2' where "b2' = netbuf_store 0 ?h b2"
  have b2': "nb_ok b2'" "nb_data b2' = ?h @ data" "nb_off b2' = 120" "nb_len b2' = 8 + length data"
    using b2 by (simp_all add: b2'_def netbuf_store_def)
  define s1 where "s1 = s\<lparr>ip_id := (ip_id s + 1) mod 65536\<rparr>"
  obtain nb where nb: "nb_ok nb" "nb_data nb = ?h @ data" "nb_src_ip nb = src" "nb_dst_ip nb = 0x0100007F"
      "ipv4_output tcp raw b2' src 0x0100007F IPPROTO_UDP s = udp_input nb s1"
    using ipv4_output_loopback [OF b2'(1) _ assms(1), of IPPROTO_UDP src tcp raw] b2' assms(2,3)
    by (auto simp: IPPROTO_UDP_def IPPROTO_TCP_def Let_def s1_def)
  have q: "find_udp_pcb (nb_dst_ip nb) dport (nb_src_ip nb) ?sport s1 = Some q"
    using assms(9) by (simp add: nb find_udp_pcb_def s1_def)
  obtain nb' where nb': "nb_data nb' = data" "nb_len nb' = length data" "nb_src_ip nb' = src" "nb_src_port nb' = ?sport"
      "udp_input nb s1 = udp_deliver (up_id q) nb' s1"
    using udp_input_delivers [OF nb(1) _ assms(5,7,2) q assms(10)] nb by (auto simp: UDP_HEADER_LEN_def)
  have send: "udp_sendto tcp (Some f) raw k data 0x0100007F dport s = (int (length data), udp_deliver (up_id q) nb' s1)"
    using assms(1,2,3,4,6,8) b0(1) b1(1) b2(1) nb(5) nb'(5)
    by (simp add: udp_sendto_def netif_loopback_def Let_def UDP_HEADER_LEN_def IPV4_HEADER_LEN_def flip: b1'_def)
      (auto simp: b2'_def UDP_HEADER_LEN_def split: if_splits)
  have "q \<in> set (udp_list s1)" "distinct (map up_id (udp_list s1))"
    using q assms(11) by (auto simp: find_udp_pcb_def find_Some_iff s1_def)
  note recv = udp_deliver_recv [OF this(2,1), of nb']
  have "fst (udp_recv_pass (Some t) False w (up_id q) len (udp_deliver (up_id q) nb' s1)) =
      Some (Received (int (length data)) data src ?sport)" if "up_recv q = []" "length data \<le> len"
    using that recv nb' by (auto simp: udp_recv_pass_def Let_def)
  then show ?thesis
    using send recv(1) nb' by blast
qed

text \<open>A small network: the loopback interface, an Ethernet card and two bound blocks.\<close>

definition demo_net :: net where
  "demo_net =
    \<lparr>ifaces = [\<lparr>nf_name = ''lo'', nf_mac = replicate 6 0, nf_addr = 0x0100007F, nf_netmask = 0xFF, nf_gateway = 0, nf_mtu = 65535, nf_tx = []\<rparr>,
               \<lparr>nf_name = ''eth0'', nf_mac = [2, 0, 0, 0, 0, 1], nf_addr = 0x0F02000A, nf_netmask = 0x00FFFFFF, nf_gateway = 0x0202000A,
                nf_mtu = 1500, nf_tx = []\<rparr>],
     iface_list = [0, 1], loopback = Some 0, wire = [], cache = replicate CACHE_SIZE no_entry,
     pending = replicate PENDING_NEIGHBORS no_pending, ticks = 5, ip_id = 7,
     udp_list = [\<lparr>up_id = 1, up_local_ip = 0, up_local_port = 0x3500, up_remote_ip = 0, up_remote_port = 0, up_bound = True, up_connected = False,
                  up_recv = [], up_wait_recv = None\<rparr>,
                 \<lparr>up_id = 2, up_local_ip = 0, up_local_port = 0x3600, up_remote_ip = 0, up_remote_port = 0, up_bound = True, up_connected = False,
                  up_recv = [], up_wait_recv = None\<rparr>],
     udp_ephemeral = 49152, woken = []\<rparr>"

theorem udp_loopback_delivers_witness:
  "\<exists>s' nb. udp_sendto (\<lambda>_ _ s. s) (Some (\<lambda>_. 0)) None 1 [1, 2, 3] 0x0100007F 0x3600 demo_net = (3, s') \<and>
    up_recv (pcb s' 2) = [nb] \<and> nb_data nb = [1, 2, 3]"
proof -
  let ?q = "\<lparr>up_id = 2, up_local_ip = 0, up_local_port = 0x3600, up_remote_ip = 0, up_remote_port = 0, up_bound = True, up_connected = False,
                  up_recv = [], up_wait_recv = None\<rparr>"
  have "\<exists>s' nb. udp_sendto (\<lambda>_ _ s. s) (Some (\<lambda>_. 0)) None 1 [1, 2, 3] 0x0100007F 0x3600 demo_net = (int (length [1, 2, 3 :: byte]), s') \<and>
    up_recv (pcb s' (up_id ?q)) = up_recv ?q @ [nb] \<and> nb_data nb = [1, 2, 3] \<and> nb_src_ip nb = 0x0100007F \<and>
    nb_src_port nb = up_local_port (pcb demo_net 1) \<and>
    (up_recv ?q = [] \<and> length [1, 2, 3 :: byte] \<le> 3 \<longrightarrow>
      fst (udp_recv_pass (Some 9) False True (up_id ?q) 3 s') =
        Some (Received (int (length [1, 2, 3 :: byte])) [1, 2, 3] 0x0100007F (up_local_port (pcb demo_net 1))))"
    by (rule udp_loopback_delivers [where i = 0])
      (simp_all add: demo_net_def pcb_def iface_def find_udp_pcb_def udp_matches_def)
  then show ?thesis
    by auto
qed

text \<open>C22. Binding an unbound block to port 0 gives it a free ephemeral port whenever one of the 16384
  ports from 49152 on is free, wherever the rotating counter stands, and fails only when all are taken.\<close>

theorem udp_bind_ephemeral:
  assumes "49152 \<le> udp_ephemeral s" and "udp_ephemeral s < 65536" and "\<not> up_bound (pcb s k)"
  shows "fst (udp_bind k addr 0 s) = (if \<exists>p. 49152 \<le> p \<and> p < 65536 \<and> \<not> port_used k addr (htons p) s then 0 else -98)"
proof -
  let ?r = "ephemeral_port 16384 k addr s" and ?free = "\<lambda>p. \<not> port_used k addr (htons p) s"
  have same: "(\<exists>j<16384. ?free (ephemeral_at (udp_ephemeral s) j)) = (\<exists>p. 49152 \<le> p \<and> p < 65536 \<and> ?free p)"
    using ephemeral_at_surj [OF _ _ assms(1,2)] ephemeral_at_range by metis
  have used: "port_used k addr p (snd ?r) = port_used k addr p s" for p
    by (rule port_used_cong) (rule ephemeral_port_list)
  have run: "fst (udp_bind k addr 0 s) = (if fst ?r = 0 \<or> port_used k addr (fst ?r) s then -98 else 0)"
    using assms(3) used by (simp add: udp_bind_def case_prod_unfold Let_def del: ephemeral_port.simps)
  note res = ephemeral_port_result [OF assms(1,2), of 16384 k addr, unfolded same]
  show ?thesis
  proof (cases "\<exists>p. 49152 \<le> p \<and> p < 65536 \<and> ?free p")
    case True
    then obtain j where "fst ?r = htons (ephemeral_at (udp_ephemeral s) j)" "\<not> port_used k addr (fst ?r) s"
      using res by auto
    moreover from this(1) have "fst ?r \<noteq> 0"
      using htons_nonzero ephemeral_at_range by simp
    ultimately show ?thesis
      using run True by simp
  next
    case False
    then have "fst ?r = 0"
      using res by simp
    then show ?thesis
      using run False by simp
  qed
qed

theorem udp_bind_ephemeral_witness:
  "fst (udp_bind 3 0 0 (snd (udp_new True 3 demo_net))) = 0"
proof -
  have "\<not> port_used 3 0 (htons 49152) (snd (udp_new True 3 demo_net))"
    by (simp add: demo_net_def udp_new_def port_used_def htons_def)
  then have "\<exists>p. 49152 \<le> p \<and> p < 65536 \<and> \<not> port_used 3 0 (htons p) (snd (udp_new True 3 demo_net))"
    by (intro exI [of _ 49152]) simp
  then show ?thesis
    using udp_bind_ephemeral [of "snd (udp_new True 3 demo_net)" 3 0] by (simp add: demo_net_def udp_new_def pcb_def)
qed

text \<open>C23. No two UDP blocks ever own one endpoint: over any sequence of creations, binds, connects,
  releases, sends, receives and input, two bound blocks with the same port are bound to
  different, specific addresses.\<close>

theorem udp_endpoints_exclusive:
  assumes "udp_reachable tcp s" and "keeps_ports tcp"
    and "p \<in> set (udp_list s)" and "q \<in> set (udp_list s)" and "up_id p \<noteq> up_id q"
    and "up_bound p" and "up_bound q" and "up_local_port p = up_local_port q"
  shows "up_local_ip p \<noteq> 0 \<and> up_local_ip q \<noteq> 0 \<and> up_local_ip p \<noteq> up_local_ip q"
  using udp_reachable_ports [OF assms(1,2)] assms(3-) unfolding ports_distinct_def by blast

text \<open>Two blocks that share a port on different addresses.\<close>

definition demo_bound :: net where
  "demo_bound =
    snd (udp_bind 2 0x0F02000A 0x3500 (snd (udp_new True 2
      (snd (udp_bind 1 0x0100007F 0x3500 (snd (udp_new True 1 (udp_init demo_net))))))))"

theorem udp_endpoints_exclusive_witness:
  "\<exists>p q. udp_list demo_bound = [p, q] \<and> up_local_port p = up_local_port q \<and>
    up_local_ip p \<noteq> 0 \<and> up_local_ip q \<noteq> 0 \<and> up_local_ip p \<noteq> up_local_ip q"
proof -
  let ?tcp = "\<lambda>_ _ s. s"
  let ?p = "\<lparr>up_id = 2, up_local_ip = 0x0F02000A, up_local_port = 0x3500, up_remote_ip = 0, up_remote_port = 0, up_bound = True,
    up_connected = False, up_recv = [], up_wait_recv = None\<rparr>"
  let ?q = "\<lparr>up_id = 1, up_local_ip = 0x0100007F, up_local_port = 0x3500, up_remote_ip = 0, up_remote_port = 0, up_bound = True,
    up_connected = False, up_recv = [], up_wait_recv = None\<rparr>"
  have list: "udp_list demo_bound = [?p, ?q]"
    by (simp add: demo_bound_def udp_bind_def udp_new_def udp_init_def pcb_def port_used_def upd_pcb_def)
  have one: "udp_list (snd (udp_bind 1 0x0100007F 0x3500 (snd (udp_new True 1 (udp_init demo_net))))) = [?q]"
    by (simp add: udp_bind_def udp_new_def udp_init_def pcb_def port_used_def upd_pcb_def)
  have "udp_reachable ?tcp (udp_init demo_net)"
    by (rule udp_reachable.start) (simp add: udp_init_def)
  then have "udp_reachable ?tcp (snd (udp_bind 1 0x0100007F 0x3500 (snd (udp_new True 1 (udp_init demo_net)))))"
    by (intro udp_reachable.bind udp_reachable.new) (simp_all add: udp_init_def)
  then have "udp_reachable ?tcp demo_bound"
    unfolding demo_bound_def
    by (rule udp_reachable.bind [OF udp_reachable.new]) (simp add: one [unfolded One_nat_def])
  then have "up_local_ip ?p \<noteq> 0 \<and> up_local_ip ?q \<noteq> 0 \<and> up_local_ip ?p \<noteq> up_local_ip ?q"
    by (rule udp_endpoints_exclusive) (simp_all add: list keeps_ports_def)
  then show ?thesis
    using list by auto
qed

text \<open>C24. A learned address releases what waited for it: all packets queued behind the neighbour go
  out in order with its hardware address in the Ethernet header, no slot waits for it any more, and a
  later packet to it is sent at once instead of being queued.\<close>

theorem arp_learn_flushes:
  assumes "arp_reachable s" and "ticks s + 60000 < 2 ^ 64"
    and "index_of (waits_for i a) (pending s) = Some k"
    and "a \<noteq> 0xFFFFFFFF" and "a \<noteq> nf_addr (iface s i) OR NOT (nf_netmask (iface s i))"
  shows "let t = arp_learn i a m False s in
    wire t = wire s @ map (\<lambda>b. (i, netbuf_store 0 m b)) (ap_packets (pending s ! k)) \<and>
    index_of (waits_for i a) (pending t) = None \<and>
    wire (arp_output raw i b a t) = wire t @ [(i, netbuf_store 0 m b)]"
proof -
  let ?t = "arp_learn i a m False s"
  have ok: "arp_ok s"
    using assms(1) by (rule arp_reachable_ok)
  have k: "k < length (pending s)" "waits_for i a (pending s ! k)"
    using index_of_SomeD [OF assms(3)] by simp_all
  have wire: "wire ?t = wire s @ map (\<lambda>b. (i, netbuf_store 0 m b)) (ap_packets (pending s ! k))"
    using assms(3) by (simp add: arp_learn_def Let_def flush_wire)
  have "\<not> waits_for i a (pending s ! j)" if "j < length (pending s)" "j \<noteq> k" for j
    using that k ok by (auto simp: arp_ok_def waits_apart_def same_wait_def waits_for_def)
  then have "\<not> waits_for i a ((pending s)[k := no_pending] ! j)" if "j < length (pending s)" for j
    using that k by (cases "j = k") (auto simp: waits_for_def)
  then have free: "index_of (waits_for i a) (pending ?t) = None"
    using assms(3) by (simp add: index_of_None arp_learn_pending)
  have "ifaces ?t = ifaces s"
    by (simp add: arp_learn_def Let_def flush_ifaces split: option.splits)
  then have "wire (arp_output raw i b a ?t) = wire ?t @ [(i, netbuf_store 0 m b)]"
    using assms(2,4,5) arp_learn_finds [of s False i a m] ok
    by (simp add: arp_output_def arp_ok_def iface_def arp_transmit_def nic_transmit_def)
  then show ?thesis
    using wire free by (simp add: Let_def)
qed

text \<open>A first packet to a neighbour that is not known yet.\<close>

definition demo_packet :: netbuf where
  "demo_packet = \<lparr>nb_buf = replicate 32 0, nb_off = 0, nb_len = 20, nb_src_ip = 0, nb_dst_ip = 0, nb_src_port = 0,
     nb_dst_port = 0, nb_protocol = 0\<rparr>"

definition demo_waiting :: net where
  "demo_waiting = arp_output None 1 demo_packet 0x0202000A demo_net"

lemma demo_waiting_state:
  "pending demo_waiting = (pending demo_net)[0 := \<lparr>ap_iface = Some 1, ap_ip = 0x0202000A, ap_packets = [demo_packet],
     ap_attempts = 1, ap_retry_at = 1005, ap_expires = 3005\<rparr>]"
  "wire demo_waiting = []" "ticks demo_waiting = 5" "ifaces demo_waiting = ifaces demo_net"
proof -
  have find: "arp_find 1 0x0202000A demo_net = None" "index_of (waits_for 1 0x0202000A) (pending demo_net) = None"
    by (simp_all add: arp_find_def index_of_None demo_net_def arp_live_def no_entry_def waits_for_def)
  have free: "index_of (\<lambda>p. ap_iface p = None) (pending demo_net) = Some 0"
    by (rule index_of_first) (simp_all add: demo_net_def PENDING_NEIGHBORS_def)
  have base: "pending demo_net ! 0 = no_pending" "0 < length (pending demo_net)" "ticks demo_net = 5" "wire demo_net = []"
      "iface demo_net 1 = ifaces demo_net ! 1"
      "nf_addr (iface demo_net 1) OR NOT (nf_netmask (iface demo_net 1)) = 0xFF02000A"
    by (simp_all add: demo_net_def PENDING_NEIGHBORS_def iface_def)
  show "pending demo_waiting = (pending demo_net)[0 := \<lparr>ap_iface = Some 1, ap_ip = 0x0202000A, ap_packets = [demo_packet],
     ap_attempts = 1, ap_retry_at = 1005, ap_expires = 3005\<rparr>]"
    "wire demo_waiting = []" "ticks demo_waiting = 5" "ifaces demo_waiting = ifaces demo_net"
    using find free base
    by (simp_all add: demo_waiting_def arp_output_def arp_enqueue_def PACKETS_PER_NEIGHBOR_def arp_request_def netbuf_alloc_def
        netbuf_alloc_sized_def wadd_def Let_def no_pending_def)
qed

theorem arp_learn_flushes_witness:
  "wire (arp_learn 1 0x0202000A [2, 0, 0, 0, 0, 9] False demo_waiting) = [(1, netbuf_store 0 [2, 0, 0, 0, 0, 9] demo_packet)]"
proof -
  have "arp_reachable demo_net"
    by (rule arp_boot) (simp_all add: demo_net_def)
  then have r: "arp_reachable demo_waiting"
    unfolding demo_waiting_def by (rule arp_out)
  have len: "length (pending demo_net) = 8"
    by (simp add: demo_net_def PENDING_NEIGHBORS_def)
  have "index_of (waits_for 1 0x0202000A) (pending demo_waiting) = Some 0"
    by (rule index_of_first) (simp_all add: demo_waiting_state len waits_for_def)
  from arp_learn_flushes [OF r _ this, of "[2, 0, 0, 0, 0, 9]" None demo_packet] show ?thesis
    by (simp add: demo_waiting_state len iface_def Let_def) (simp add: demo_net_def)
qed

text \<open>The neighbour tables stay within their static bounds: over any order of outgoing packets,
  replies, requests, static entries and timer ticks there are 64 entries and 8 waiting slots, a slot
  holds at most 4 packets and is asked for at most 3 times, a free slot holds none, and no neighbour is
  waited for in two slots.\<close>

theorem arp_tables_bounded:
  assumes "arp_reachable s" and "p \<in> set (pending s)"
  shows "length (cache s) = 64 \<and> length (pending s) = 8 \<and> length (ap_packets p) \<le> 4 \<and> ap_attempts p \<le> 3 \<and>
    (ap_iface p = None \<longrightarrow> ap_packets p = []) \<and> waits_apart (pending s)"
  using arp_reachable_ok [OF assms(1)] assms(2)
  by (auto simp: arp_ok_def list_all_iff slot_ok_def CACHE_SIZE_def PENDING_NEIGHBORS_def PACKETS_PER_NEIGHBOR_def)

theorem arp_tables_bounded_witness:
  "length (cache (arp_add_static 1 0x0202000A [2, 0, 0, 0, 0, 9] demo_net)) = 64"
proof -
  have "arp_reachable demo_net"
    by (rule arp_boot) (simp_all add: demo_net_def)
  then have "arp_reachable (arp_add_static 1 0x0202000A [2, 0, 0, 0, 0, 9] demo_net)"
    by (rule arp_reachable.arp_static)
  moreover have "index_of (waits_for 1 0x0202000A) (pending demo_net) = None"
    by (simp add: index_of_None demo_net_def waits_for_def)
  then have "pending (arp_add_static 1 0x0202000A [2, 0, 0, 0, 0, 9] demo_net) = replicate 8 no_pending"
    by (simp add: arp_add_static_def arp_learn_pending) (simp add: demo_net_def PENDING_NEIGHBORS_def)
  then have "no_pending \<in> set (pending (arp_add_static 1 0x0202000A [2, 0, 0, 0, 0, 9] demo_net))"
    by simp
  ultimately show ?thesis
    by (rule arp_tables_bounded [THEN conjunct1])
qed

end
