(* ===== verification/Dispatch.thy ===== *)
theory Dispatch
  imports Prelude
begin

text \<open>The dispatcher of the scheduler (src/src/kernel/scheduler/dispatch.cpp with per_cpu and run_queue of
  percpu.hpp) and the protocol by which \<open>scheduler::schedule\<close> uses it (scheduler.cpp).  Every function
  below runs under the dispatch lock and is one atomic step; the steps of all processors interleave
  freely with wake-ups, exits, reaping and the creation of threads.  A thread is named by its
  address; arrays of fixed size are functions of the index, and \<open>NO_CPU\<close> is \<^term>\<open>None\<close>.  Run queues are
  linked through the field \<open>next\<close> of the threads, which is the map \<open>links\<close>.  The counters do not wrap: they
  count threads in queues, and a thread is in one queue at most.\<close>

section \<open>State\<close>

type_synonym tid = nat

datatype thread_state = READY | RUNNING | BLOCKED | TERMINATED

record thread =
  th_state :: thread_state
  th_priority :: nat
  th_last_cpu :: nat
  th_dispatch_cpu :: "nat option"
  th_run_queued :: bool
  th_pins :: nat

record run_queue =
  rq_head :: "tid option"
  rq_tail :: "tid option"
  rq_count :: nat

record per_cpu =
  pc_current :: "tid option"
  pc_idle :: tid
  pc_online :: bool
  pc_queues :: "nat \<Rightarrow> run_queue"
  pc_total :: nat
  pc_switching_from :: "tid option"

record dispatcher =
  threads :: "tid \<Rightarrow> thread"
  links :: "tid \<Rightarrow> tid option"
  cpus :: "nat \<Rightarrow> per_cpu"
  cpu_count :: nat

definition NUM_PRIOS :: nat where
  "NUM_PRIOS = 3"

definition upd_thread :: "tid \<Rightarrow> (thread \<Rightarrow> thread) \<Rightarrow> dispatcher \<Rightarrow> dispatcher" where
  "upd_thread t f s = s\<lparr>threads := (threads s)(t := f (threads s t))\<rparr>"

definition upd_cpu :: "nat \<Rightarrow> (per_cpu \<Rightarrow> per_cpu) \<Rightarrow> dispatcher \<Rightarrow> dispatcher" where
  "upd_cpu c f s = s\<lparr>cpus := (cpus s)(c := f (cpus s c))\<rparr>"

section \<open>Run queues\<close>

definition rq_init :: run_queue where
  "rq_init = \<lparr>rq_head = None, rq_tail = None, rq_count = 0\<rparr>"

definition rq_enqueue :: "tid \<Rightarrow> run_queue \<Rightarrow> (tid \<Rightarrow> tid option) \<Rightarrow> run_queue \<times> (tid \<Rightarrow> tid option)" where
  "rq_enqueue t q n =
    (let n = n(t := None);
         (h, n) = (case rq_tail q of Some l \<Rightarrow> (rq_head q, n(l := Some t)) | None \<Rightarrow> (Some t, n))
     in (\<lparr>rq_head = h, rq_tail = Some t, rq_count = rq_count q + 1\<rparr>, n))"

definition rq_dequeue :: "run_queue \<Rightarrow> (tid \<Rightarrow> tid option) \<Rightarrow> tid option \<times> run_queue \<times> (tid \<Rightarrow> tid option)" where
  "rq_dequeue q n =
    (case rq_head q of
       None \<Rightarrow> (None, q, n)
     | Some t \<Rightarrow>
         let h = n t in
         (Some t, \<lparr>rq_head = h, rq_tail = (if h = None then None else rq_tail q), rq_count = rq_count q - 1\<rparr>, n(t := None)))"

section \<open>Dispatch\<close>

definition queue_locked :: "tid \<Rightarrow> nat \<Rightarrow> dispatcher \<Rightarrow> dispatcher" where
  "queue_locked t c s =
    (if th_run_queued (threads s t) \<or> th_dispatch_cpu (threads s t) \<noteq> None \<or> t = pc_idle (cpus s c) then s
     else
       let s = upd_thread t (\<lambda>r. r\<lparr>th_last_cpu := c, th_run_queued := True\<rparr>) s;
           p = th_priority (threads s t);
           (q, n) = rq_enqueue t (pc_queues (cpus s c) p) (links s)
       in upd_cpu c (\<lambda>r. r\<lparr>pc_queues := (pc_queues r)(p := q), pc_total := pc_total r + 1\<rparr>) (s\<lparr>links := n\<rparr>))"

text \<open>The first non-empty queue, in the order of the priorities.\<close>

definition first_queue :: "nat \<Rightarrow> dispatcher \<Rightarrow> nat option" where
  "first_queue c s = find (\<lambda>p. rq_head (pc_queues (cpus s c) p) \<noteq> None) [0..<NUM_PRIOS]"

definition peek :: "nat \<Rightarrow> dispatcher \<Rightarrow> tid option" where
  "peek c s = (case first_queue c s of None \<Rightarrow> None | Some p \<Rightarrow> rq_head (pc_queues (cpus s c) p))"

definition take_thread :: "nat \<Rightarrow> nat \<Rightarrow> dispatcher \<Rightarrow> tid option \<times> dispatcher" where
  "take_thread source destination s =
    (case first_queue source s of None \<Rightarrow> (None, s) | Some p \<Rightarrow>
     let (next, q, n) = rq_dequeue (pc_queues (cpus s source) p) (links s);
         s = upd_cpu source (\<lambda>r. r\<lparr>pc_queues := (pc_queues r)(p := q), pc_total := pc_total r - 1\<rparr>) (s\<lparr>links := n\<rparr>)
     in (next, upd_thread (the next)
           (\<lambda>r. r\<lparr>th_run_queued := False, th_dispatch_cpu := Some destination, th_last_cpu := destination\<rparr>) s))"

definition enqueue :: "tid \<Rightarrow> dispatcher \<Rightarrow> dispatcher" where
  "enqueue t s =
    (if th_state (threads s t) = TERMINATED \<or> th_state (threads s t) = RUNNING then s
     else
       let s = (if th_state (threads s t) = BLOCKED then upd_thread t (\<lambda>r. r\<lparr>th_state := READY\<rparr>) s else s);
           c = th_last_cpu (threads s t)
       in queue_locked t (if c \<ge> cpu_count s then 0 else c) s)"

text \<open>The scan for the processor with most runnable threads, from which an idle processor steals.\<close>

definition busiest :: "nat \<Rightarrow> dispatcher \<Rightarrow> nat" where
  "busiest c s =
    fst (fold (\<lambda>i (source, load). if i \<noteq> c \<and> pc_online (cpus s i) \<and> pc_total (cpus s i) > load then (i, pc_total (cpus s i))
                                   else (source, load)) [0..<cpu_count s] (c, 0))"

definition choose_thread :: "nat \<Rightarrow> dispatcher \<Rightarrow> tid \<times> dispatcher" where
  "choose_thread c s =
    (let source = (if peek c s = None then busiest c s else c);
         next = peek source s;
         stay = (case pc_current (cpus s c) of
                   None \<Rightarrow> None
                 | Some t \<Rightarrow>
                     if (th_state (threads s t) = RUNNING \<or> th_state (threads s t) = READY) \<and>
                        (next = None \<or> th_priority (threads s t) < th_priority (threads s (the next)))
                     then Some t else None)
     in case stay of
          Some t \<Rightarrow> (t, s)
        | None \<Rightarrow>
            if next \<noteq> None then (let (t, s) = take_thread source c s in (the t, s))
            else (pc_idle (cpus s c), upd_thread (pc_idle (cpus s c)) (\<lambda>r. r\<lparr>th_dispatch_cpu := Some c\<rparr>) s))"

definition release_candidate :: "tid \<Rightarrow> dispatcher \<Rightarrow> dispatcher" where
  "release_candidate t s = upd_thread t (\<lambda>r. r\<lparr>th_dispatch_cpu := None\<rparr>) s"

definition prepare_switch :: "nat \<Rightarrow> tid \<Rightarrow> dispatcher \<Rightarrow> dispatcher" where
  "prepare_switch c next s =
    (let old = pc_current (cpus s c);
         s = (if old \<noteq> Some next then
                let s = (case old of
                           Some t \<Rightarrow> if th_state (threads s t) = RUNNING then upd_thread t (\<lambda>r. r\<lparr>th_state := READY\<rparr>) s else s
                         | None \<Rightarrow> s)
                in upd_cpu c (\<lambda>r. r\<lparr>pc_switching_from := old\<rparr>) s
              else s);
         s = upd_thread next (\<lambda>r. r\<lparr>th_state := RUNNING, th_last_cpu := c\<rparr>) s
     in upd_cpu c (\<lambda>r. r\<lparr>pc_current := Some next\<rparr>) s)"

definition finish_switch :: "nat \<Rightarrow> dispatcher \<Rightarrow> dispatcher" where
  "finish_switch c s =
    (let old = pc_switching_from (cpus s c);
         s = upd_cpu c (\<lambda>r. r\<lparr>pc_switching_from := None\<rparr>) s
     in case old of
          None \<Rightarrow> s
        | Some t \<Rightarrow>
            let s = upd_thread t (\<lambda>r. r\<lparr>th_dispatch_cpu := None\<rparr>) s
            in if th_state (threads s t) = READY then queue_locked t c s else s)"

definition reclaimable :: "tid \<Rightarrow> dispatcher \<Rightarrow> bool" where
  "reclaimable t s \<longleftrightarrow>
     th_state (threads s t) = TERMINATED \<and> th_dispatch_cpu (threads s t) = None \<and> \<not> th_run_queued (threads s t) \<and>
     th_pins (threads s t) = 0"

definition cpu_of :: "tid \<Rightarrow> dispatcher \<Rightarrow> nat" where
  "cpu_of t s = th_last_cpu (threads s t)"

text \<open>The traversal of one queue: \<open>i\<close> steps from \<open>node\<close>, checking every thread; the node it stops at and the
  last one it visited.\<close>

fun walk_queue :: "nat \<Rightarrow> nat \<Rightarrow> dispatcher \<Rightarrow> nat \<Rightarrow> tid option \<Rightarrow> tid option \<Rightarrow> (tid option \<times> tid option) option" where
  "walk_queue c p s 0 node seen = Some (node, seen)"
| "walk_queue c p s (Suc i) node seen =
    (case node of
       None \<Rightarrow> None
     | Some t \<Rightarrow>
         let r = threads s t in
         if \<not> th_run_queued r \<or> th_dispatch_cpu r \<noteq> None \<or> th_last_cpu r \<noteq> c \<or> th_priority r \<noteq> p \<or> th_state r \<noteq> READY then None
         else walk_queue c p s i (links s t) node)"

definition queue_valid :: "nat \<Rightarrow> nat \<Rightarrow> dispatcher \<Rightarrow> bool" where
  "queue_valid c p s \<longleftrightarrow>
     (let q = pc_queues (cpus s c) p in
      if rq_count q > 65536 then False
      else case walk_queue c p s (rq_count q) (rq_head q) None of
             None \<Rightarrow> False
           | Some (node, seen) \<Rightarrow> \<not> (node \<noteq> None \<or> seen \<noteq> rq_tail q))"

definition queues_valid :: "dispatcher \<Rightarrow> bool" where
  "queues_valid s \<longleftrightarrow>
     list_all (\<lambda>c. list_all (\<lambda>p. queue_valid c p s) [0..<NUM_PRIOS] \<and>
                   sum_list (map (\<lambda>p. rq_count (pc_queues (cpus s c) p)) [0..<NUM_PRIOS]) = pc_total (cpus s c))
       [0..<cpu_count s]"

text \<open>The part of \<open>scheduler::init\<close> that sets up a processor, with idle thread \<open>i\<close>.\<close>

definition idle_thread :: "nat \<Rightarrow> thread" where
  "idle_thread c = \<lparr>th_state = READY, th_priority = 2, th_last_cpu = c, th_dispatch_cpu = None, th_run_queued = False, th_pins = 0\<rparr>"

definition init_cpu :: "nat \<Rightarrow> tid \<Rightarrow> dispatcher \<Rightarrow> dispatcher" where
  "init_cpu c i s =
    upd_thread i (\<lambda>_. idle_thread c)
      (upd_cpu c (\<lambda>r. r\<lparr>pc_queues := (\<lambda>_. rq_init), pc_total := 0, pc_idle := i, pc_current := None\<rparr>) s)"

text \<open>The thread that \<open>spawn\<close> builds on processor \<open>c\<close> and hands to \<open>add_thread\<close>.\<close>

definition new_thread :: "nat \<Rightarrow> nat \<Rightarrow> thread" where
  "new_thread p c = \<lparr>th_state = READY, th_priority = p, th_last_cpu = c, th_dispatch_cpu = None, th_run_queued = False, th_pins = 0\<rparr>"

section \<open>The protocol of schedule\<close>

text \<open>Where a processor is: in the code of its current thread, in the selection loop, holding a
  selected thread, holding a selected thread that it has just terminated for a fatal signal, or on the
  incoming stack before the outgoing thread is published.\<close>

datatype phase = Executing | Choosing | Selected tid | Dying tid | Switching

text \<open>\<open>unallocated\<close> are the addresses that hold no thread, \<open>newborn\<close> the threads that have been built and linked
  but not yet handed to \<open>add_thread\<close>: \<open>spawn_path\<close> still sets their capabilities.  They have not run, so no wait refers
  to them and nothing wakes them.\<close>

record system =
  disp :: dispatcher
  phases :: "nat \<Rightarrow> phase"
  unallocated :: "tid set"
  newborn :: "tid set"

definition set_phase :: "nat \<Rightarrow> phase \<Rightarrow> system \<Rightarrow> system" where
  "set_phase c ph s = s\<lparr>phases := (phases s)(c := ph)\<rparr>"

definition is_idle :: "dispatcher \<Rightarrow> tid \<Rightarrow> bool" where
  "is_idle s t \<longleftrightarrow> (\<exists>c<cpu_count s. pc_idle (cpus s c) = t)"

definition set_state :: "tid \<Rightarrow> thread_state \<Rightarrow> dispatcher \<Rightarrow> dispatcher" where
  "set_state t st s = upd_thread t (\<lambda>r. r\<lparr>th_state := st\<rparr>) s"

inductive sched_step :: "system \<Rightarrow> system \<Rightarrow> bool" where
  wake: "t \<notin> unallocated s \<Longrightarrow> t \<notin> newborn s \<Longrightarrow> \<not> is_idle (disp s) t \<Longrightarrow> sched_step s (s\<lparr>disp := enqueue t (disp s)\<rparr>)"
| block: "c < cpu_count (disp s) \<Longrightarrow> phases s c = Executing \<Longrightarrow> pc_current (cpus (disp s) c) = Some t \<Longrightarrow>
    \<not> is_idle (disp s) t \<Longrightarrow> th_state (threads (disp s) t) \<noteq> TERMINATED \<Longrightarrow>
    sched_step s (s\<lparr>disp := set_state t BLOCKED (disp s)\<rparr>)"
| exits: "c < cpu_count (disp s) \<Longrightarrow> phases s c = Executing \<Longrightarrow> pc_current (cpus (disp s) c) = Some t \<Longrightarrow>
    \<not> is_idle (disp s) t \<Longrightarrow> sched_step s (s\<lparr>disp := set_state t TERMINATED (disp s)\<rparr>)"
| enter: "c < cpu_count (disp s) \<Longrightarrow> phases s c = Executing \<Longrightarrow> sched_step s (set_phase c Choosing s)"
| select: "c < cpu_count (disp s) \<Longrightarrow> phases s c = Choosing \<Longrightarrow> choose_thread c (disp s) = (t, d) \<Longrightarrow>
    sched_step s (set_phase c (Selected t) (s\<lparr>disp := d\<rparr>))"
| kill: "c < cpu_count (disp s) \<Longrightarrow> phases s c = Selected t \<Longrightarrow> t \<noteq> pc_idle (cpus (disp s) c) \<Longrightarrow>
    sched_step s (set_phase c (Dying t) (s\<lparr>disp := set_state t TERMINATED (disp s)\<rparr>))"
| release: "c < cpu_count (disp s) \<Longrightarrow> phases s c = Dying t \<Longrightarrow>
    sched_step s (set_phase c Choosing
      (s\<lparr>disp := (if pc_current (cpus (disp s) c) \<noteq> Some t then release_candidate t (disp s) else disp s)\<rparr>))"
| commit: "c < cpu_count (disp s) \<Longrightarrow> phases s c = Selected t \<Longrightarrow>
    sched_step s (set_phase c (if pc_current (cpus (disp s) c) = Some t then Executing else Switching)
      (s\<lparr>disp := prepare_switch c t (disp s)\<rparr>))"
| finish: "c < cpu_count (disp s) \<Longrightarrow> phases s c = Switching \<Longrightarrow>
    sched_step s (set_phase c Executing (s\<lparr>disp := finish_switch c (disp s)\<rparr>))"
| spawn: "t \<in> unallocated s \<Longrightarrow> p < NUM_PRIOS \<Longrightarrow> c < cpu_count (disp s) \<Longrightarrow>
    sched_step s (s\<lparr>disp := upd_thread t (\<lambda>_. new_thread p c) (disp s), unallocated := unallocated s - {t},
      newborn := insert t (newborn s)\<rparr>)"
| publish: "t \<in> newborn s \<Longrightarrow> sched_step s (s\<lparr>disp := enqueue t (disp s), newborn := newborn s - {t}\<rparr>)"
| reap: "t \<notin> unallocated s \<Longrightarrow> \<not> is_idle (disp s) t \<Longrightarrow> reclaimable t (disp s) \<Longrightarrow>
    sched_step s (s\<lparr>unallocated := insert t (unallocated s)\<rparr>)"
| pin: "t \<notin> unallocated s \<Longrightarrow> sched_step s (s\<lparr>disp := upd_thread t (\<lambda>r. r\<lparr>th_pins := n\<rparr>) (disp s)\<rparr>)"

text \<open>After the boot code has initialised every processor: no thread runs and only the idle threads,
  each with its processor, are allocated.\<close>

definition sched_init :: "system \<Rightarrow> bool" where
  "sched_init s \<longleftrightarrow>
     0 < cpu_count (disp s) \<and>
     (\<forall>c<cpu_count (disp s).
        pc_current (cpus (disp s) c) = None \<and> pc_switching_from (cpus (disp s) c) = None \<and> pc_total (cpus (disp s) c) = 0 \<and>
        (\<forall>p. pc_queues (cpus (disp s) c) p = rq_init) \<and> threads (disp s) (pc_idle (cpus (disp s) c)) = idle_thread c \<and>
        phases s c = Choosing) \<and>
     unallocated s = {t. \<not> is_idle (disp s) t} \<and> newborn s = {} \<and>
     (\<forall>t\<in>unallocated s. th_dispatch_cpu (threads (disp s) t) = None \<and> \<not> th_run_queued (threads (disp s) t))"

inductive sched_reachable :: "system \<Rightarrow> bool" where
  boot: "sched_init s \<Longrightarrow> sched_reachable s"
| step: "sched_reachable s \<Longrightarrow> sched_step s s' \<Longrightarrow> sched_reachable s'"

section \<open>Invariant\<close>

text \<open>The threads a processor holds: the running one, the one it is leaving, and its candidate.\<close>

definition holds :: "system \<Rightarrow> nat \<Rightarrow> tid \<Rightarrow> bool" where
  "holds s c t \<longleftrightarrow> pc_current (cpus (disp s) c) = Some t \<or> pc_switching_from (cpus (disp s) c) = Some t \<or>
     phases s c = Selected t \<or> phases s c = Dying t"

text \<open>The threads of a queue, as many as it counts.\<close>

fun follow :: "(tid \<Rightarrow> tid option) \<Rightarrow> tid option \<Rightarrow> nat \<Rightarrow> tid list" where
  "follow n h 0 = []"
| "follow n h (Suc i) = (case h of None \<Rightarrow> [] | Some t \<Rightarrow> t # follow n (n t) i)"

definition rq_items :: "(tid \<Rightarrow> tid option) \<Rightarrow> run_queue \<Rightarrow> tid list" where
  "rq_items n q = follow n (rq_head q) (rq_count q)"

definition items :: "dispatcher \<Rightarrow> nat \<Rightarrow> nat \<Rightarrow> tid list" where
  "items d c p = rq_items (links d) (pc_queues (cpus d c) p)"

text \<open>The links from \<open>h\<close> run through exactly \<open>ts\<close> and end, and a queue is such a chain with its tail and its length.\<close>

fun chain :: "(tid \<Rightarrow> tid option) \<Rightarrow> tid option \<Rightarrow> tid list \<Rightarrow> bool" where
  "chain n h [] \<longleftrightarrow> h = None"
| "chain n h (t # ts) \<longleftrightarrow> h = Some t \<and> chain n (n t) ts"

definition rq_ok :: "(tid \<Rightarrow> tid option) \<Rightarrow> run_queue \<Rightarrow> bool" where
  "rq_ok n q \<longleftrightarrow>
     chain n (rq_head q) (rq_items n q) \<and> rq_count q = length (rq_items n q) \<and>
     rq_tail q = (if rq_items n q = [] then None else Some (last (rq_items n q)))"

text \<open>A claim is exactly a hold.\<close>

definition claims_ok :: "system \<Rightarrow> bool" where
  "claims_ok s \<longleftrightarrow> (\<forall>t c. th_dispatch_cpu (threads (disp s) t) = Some c \<longleftrightarrow> c < cpu_count (disp s) \<and> holds s c t)"

definition listed_ok :: "system \<Rightarrow> nat \<Rightarrow> nat \<Rightarrow> tid \<Rightarrow> bool" where
  "listed_ok s c p t \<longleftrightarrow>
     (let r = threads (disp s) t in
      th_run_queued r \<and> th_dispatch_cpu r = None \<and> th_last_cpu r = c \<and> th_priority r = p \<and> th_state r = READY) \<and>
     t \<notin> unallocated s \<and> \<not> is_idle (disp s) t"

definition queues_ok :: "system \<Rightarrow> bool" where
  "queues_ok s \<longleftrightarrow>
     (\<forall>c<cpu_count (disp s). \<forall>p<NUM_PRIOS.
        distinct (items (disp s) c p) \<and> rq_ok (links (disp s)) (pc_queues (cpus (disp s) c) p) \<and>
        (\<forall>t\<in>set (items (disp s) c p). listed_ok s c p t)) \<and>
     (\<forall>t. th_run_queued (threads (disp s) t) \<longrightarrow> (\<exists>c<cpu_count (disp s). \<exists>p<NUM_PRIOS. t \<in> set (items (disp s) c p)))"

definition totals_ok :: "system \<Rightarrow> bool" where
  "totals_ok s \<longleftrightarrow> (\<forall>c<cpu_count (disp s). pc_total (cpus (disp s) c) = (\<Sum>p<NUM_PRIOS. rq_count (pc_queues (cpus (disp s) c) p)))"

definition phase_ok :: "system \<Rightarrow> nat \<Rightarrow> bool" where
  "phase_ok s c \<longleftrightarrow>
     (pc_switching_from (cpus (disp s) c) \<noteq> None \<longrightarrow> phases s c = Switching \<and> pc_switching_from (cpus (disp s) c) \<noteq> pc_current (cpus (disp s) c)) \<and>
     (\<forall>t. pc_switching_from (cpus (disp s) c) = Some t \<longrightarrow> th_state (threads (disp s) t) \<noteq> RUNNING) \<and>
     (\<forall>t. phases s c = Dying t \<longrightarrow> th_state (threads (disp s) t) = TERMINATED) \<and>
     (\<forall>t. phases s c = Selected t \<longrightarrow> th_state (threads (disp s) t) = READY \<or> th_state (threads (disp s) t) = RUNNING)"

definition idles_ok :: "system \<Rightarrow> bool" where
  "idles_ok s \<longleftrightarrow>
     (\<forall>c<cpu_count (disp s). let i = pc_idle (cpus (disp s) c) in
        i \<notin> unallocated s \<and> (th_state (threads (disp s) i) = READY \<or> th_state (threads (disp s) i) = RUNNING) \<and>
        (\<forall>c'<cpu_count (disp s). pc_idle (cpus (disp s) c') = i \<or> holds s c' i \<longrightarrow> c' = c))"

definition threads_ok :: "system \<Rightarrow> bool" where
  "threads_ok s \<longleftrightarrow>
     (\<forall>t. if t \<in> unallocated s then th_dispatch_cpu (threads (disp s) t) = None \<and> \<not> th_run_queued (threads (disp s) t)
          else th_priority (threads (disp s) t) < NUM_PRIOS)"

text \<open>No wake-up is lost: a running thread is held by a processor, and a runnable one that no processor
  holds is in a run queue, unless it has not been published yet.\<close>

definition ready_ok :: "system \<Rightarrow> tid \<Rightarrow> bool" where
  "ready_ok s t \<longleftrightarrow>
     (t \<notin> unallocated s \<and> th_state (threads (disp s) t) = RUNNING \<longrightarrow> th_dispatch_cpu (threads (disp s) t) \<noteq> None) \<and>
     (t \<notin> unallocated s \<and> t \<notin> newborn s \<and> \<not> is_idle (disp s) t \<and> th_state (threads (disp s) t) = READY \<and>
      th_dispatch_cpu (threads (disp s) t) = None \<longrightarrow> th_run_queued (threads (disp s) t)) \<and>
     (t \<in> newborn s \<longrightarrow>
      t \<notin> unallocated s \<and> \<not> is_idle (disp s) t \<and> th_state (threads (disp s) t) = READY \<and>
      th_dispatch_cpu (threads (disp s) t) = None \<and> \<not> th_run_queued (threads (disp s) t))"

definition core_ok :: "system \<Rightarrow> bool" where
  "core_ok s \<longleftrightarrow> 0 < cpu_count (disp s) \<and> claims_ok s \<and> queues_ok s \<and> totals_ok s \<and> (\<forall>c<cpu_count (disp s). phase_ok s c) \<and>
     idles_ok s \<and> threads_ok s"

definition sched_ok :: "system \<Rightarrow> bool" where
  "sched_ok s \<longleftrightarrow> core_ok s \<and> (\<forall>t. ready_ok s t)"

lemmas core_parts = core_ok_def claims_ok_def queues_ok_def totals_ok_def phase_ok_def idles_ok_def threads_ok_def

lemma idles_okI:
  assumes "\<And>k. k < cpu_count (disp s) \<Longrightarrow> pc_idle (cpus (disp s) k) \<notin> unallocated s"
    and "\<And>k. k < cpu_count (disp s) \<Longrightarrow> th_state (threads (disp s) (pc_idle (cpus (disp s) k))) = READY \<or>
      th_state (threads (disp s) (pc_idle (cpus (disp s) k))) = RUNNING"
    and "\<And>k c. k < cpu_count (disp s) \<Longrightarrow> c < cpu_count (disp s) \<Longrightarrow>
      pc_idle (cpus (disp s) c) = pc_idle (cpus (disp s) k) \<or> holds s c (pc_idle (cpus (disp s) k)) \<Longrightarrow> c = k"
  shows "idles_ok s"
  using assms unfolding idles_ok_def Let_def by blast

lemma idle_facts:
  assumes "core_ok s" and "k < cpu_count (disp s)"
  shows "pc_idle (cpus (disp s) k) \<notin> unallocated s"
    "th_state (threads (disp s) (pc_idle (cpus (disp s) k))) = READY \<or> th_state (threads (disp s) (pc_idle (cpus (disp s) k))) = RUNNING"
    "\<And>c. c < cpu_count (disp s) \<Longrightarrow> pc_idle (cpus (disp s) c) = pc_idle (cpus (disp s) k) \<or> holds s c (pc_idle (cpus (disp s) k)) \<Longrightarrow> c = k"
  using assms unfolding core_ok_def idles_ok_def Let_def by blast+

lemma upd_sel [simp]:
  "threads (upd_thread t f d) = (threads d)(t := f (threads d t))" "cpus (upd_thread t f d) = cpus d"
  "cpu_count (upd_thread t f d) = cpu_count d" "threads (upd_cpu c g d) = threads d"
  "cpus (upd_cpu c g d) = (cpus d)(c := g (cpus d c))" "cpu_count (upd_cpu c g d) = cpu_count d"
  "is_idle (upd_thread t f d) = is_idle d" "links (upd_thread t f d) = links d" "links (upd_cpu c g d) = links d"
  "threads (d\<lparr>links := n\<rparr>) = threads d" "cpus (d\<lparr>links := n\<rparr>) = cpus d" "cpu_count (d\<lparr>links := n\<rparr>) = cpu_count d"
  by (simp_all add: upd_thread_def upd_cpu_def is_idle_def fun_eq_iff)

lemma set_phase_sel [simp]:
  "disp (set_phase c ph s) = disp s" "phases (set_phase c ph s) = (phases s)(c := ph)" "unallocated (set_phase c ph s) = unallocated s" "newborn (set_phase c ph s) = newborn s"
  by (simp_all add: set_phase_def)

lemma items_upd_thread [simp]: "items (upd_thread t f d) = items d"
  by (simp add: items_def fun_eq_iff)

text \<open>A change of one thread that keeps its queue entry and its claim.\<close>

lemma core_upd_thread:
  assumes "core_ok s" and "\<And>r. th_dispatch_cpu (f r) = th_dispatch_cpu r" "\<And>r. th_run_queued (f r) = th_run_queued r"
    "\<And>r. th_priority (f r) = th_priority r"
    and "th_run_queued (threads (disp s) t) \<Longrightarrow> f (threads (disp s) t) = threads (disp s) t \<or>
      (th_state (f (threads (disp s) t)) = READY \<and> th_last_cpu (f (threads (disp s) t)) = th_last_cpu (threads (disp s) t))"
    and "\<And>c. c < cpu_count (disp s) \<Longrightarrow> phases s c = Dying t \<Longrightarrow> th_state (f (threads (disp s) t)) = TERMINATED"
    and "\<And>c. c < cpu_count (disp s) \<Longrightarrow> phases s c = Selected t \<or> pc_idle (cpus (disp s) c) = t \<Longrightarrow>
      th_state (f (threads (disp s) t)) = READY \<or> th_state (f (threads (disp s) t)) = RUNNING"
    and "th_state (f (threads (disp s) t)) = RUNNING \<Longrightarrow> th_state (threads (disp s) t) = RUNNING"
  shows "core_ok (s\<lparr>disp := upd_thread t f (disp s)\<rparr>)"
proof -
  let ?s = "s\<lparr>disp := upd_thread t f (disp s)\<rparr>"
  have holds: "holds ?s = holds s"
    by (simp add: holds_def fun_eq_iff)
  have "claims_ok ?s"
    using assms(1,2) by (simp add: core_ok_def claims_ok_def holds)
  moreover have "listed_ok ?s c p u" if "listed_ok s c p u" for c p u
    using that assms(2-5) by (auto simp: listed_ok_def Let_def)
  then have "queues_ok ?s"
    using assms(1,3) by (auto simp: core_ok_def queues_ok_def)
  moreover have "totals_ok ?s" "threads_ok ?s"
    using assms(1-4) by (simp_all add: core_ok_def totals_ok_def threads_ok_def)
  moreover have "phase_ok ?s c" if "c < cpu_count (disp s)" for c
    using that assms(1,6,7,8) by (auto simp: core_ok_def phase_ok_def)
  moreover have "idles_ok ?s"
    using assms(1,7) by (auto simp: core_ok_def idles_ok_def Let_def holds)
  ultimately show ?thesis
    using assms(1) by (simp add: core_ok_def)
qed

section \<open>Queueing\<close>

lemma chain_follow: "chain n h ts \<Longrightarrow> follow n h (length ts) = ts"
  by (induction ts arbitrary: h) simp_all

lemma chain_cong: "(\<And>t. t \<in> set ts \<Longrightarrow> n' t = n t) \<Longrightarrow> chain n' h ts = chain n h ts"
  by (induction ts arbitrary: h) auto

lemma rq_okI:
  assumes "chain n (rq_head q) ts" and "rq_count q = length ts" and "rq_tail q = (if ts = [] then None else Some (last ts))"
  shows "rq_ok n q \<and> rq_items n q = ts"
  using assms chain_follow [OF assms(1)] by (simp add: rq_ok_def rq_items_def)

lemma rq_ok_cong:
  assumes "rq_ok n q" and "\<And>t. t \<in> set (rq_items n q) \<Longrightarrow> n' t = n t"
  shows "rq_ok n' q \<and> rq_items n' q = rq_items n q"
  by (rule rq_okI) (use assms chain_cong [of "rq_items n q" n' n] in \<open>auto simp: rq_ok_def\<close>)

lemma chain_snoc:
  assumes "chain n h ts" and "ts \<noteq> []" and "distinct ts" and "t \<notin> set ts"
  shows "chain (n(t := None, last ts := Some t)) h (ts @ [t])"
  using assms
proof (induction ts arbitrary: h)
  case (Cons u us)
  show ?case
  proof (cases "us = []")
    case True
    then show ?thesis
      using Cons.prems by auto
  next
    case False
    then have "chain (n(t := None, last us := Some t)) (n u) (us @ [t])"
      by (intro Cons.IH) (use Cons.prems in auto)
    moreover have "u \<noteq> t" "u \<noteq> last us"
      using False Cons.prems by auto
    ultimately show ?thesis
      using False Cons.prems by (simp add: fun_upd_def)
  qed
qed simp

lemma rq_enqueue_ok:
  assumes q: "rq_ok n q" "distinct (rq_items n q)" "t \<notin> set (rq_items n q)" and run: "rq_enqueue t q n = (q', n')"
  shows "rq_ok n' q' \<and> rq_items n' q' = rq_items n q @ [t]"
    and "rq_count q' = rq_count q + 1"
    and "u \<noteq> t \<Longrightarrow> u \<notin> set (rq_items n q) \<Longrightarrow> n' u = n u"
proof -
  show "rq_count q' = rq_count q + 1"
    using run by (auto simp: rq_enqueue_def Let_def split: prod.splits)
  show "n' u = n u" if "u \<noteq> t" "u \<notin> set (rq_items n q)"
    using run q(1) that by (auto simp: rq_enqueue_def rq_ok_def Let_def split: if_splits)
  show "rq_ok n' q' \<and> rq_items n' q' = rq_items n q @ [t]"
  proof (rule rq_okI)
    show "chain n' (rq_head q') (rq_items n q @ [t])"
      using run q chain_snoc [of n "rq_head q" "rq_items n q" t]
      by (cases "rq_items n q = []") (auto simp: rq_enqueue_def rq_ok_def Let_def)
  qed (use run q(1) in \<open>auto simp: rq_enqueue_def rq_ok_def Let_def split: prod.splits\<close>)
qed

lemma rq_dequeue_ok:
  assumes q: "rq_ok n q" "distinct (rq_items n q)" "rq_items n q = t # ts"
  shows "\<exists>q' n'. rq_dequeue q n = (Some t, q', n') \<and> rq_ok n' q' \<and> rq_items n' q' = ts \<and> rq_count q' = rq_count q - 1 \<and> n' = n(t := None)"
proof -
  have h: "rq_head q = Some t" "chain n (n t) ts" "rq_count q = Suc (length ts)" "rq_tail q = Some (last (t # ts))" "t \<notin> set ts"
    using q by (auto simp: rq_ok_def)
  have none: "n t = None \<longleftrightarrow> ts = []"
    using h(2) by (cases ts) auto
  let ?q = "\<lparr>rq_head = n t, rq_tail = (if n t = None then None else rq_tail q), rq_count = rq_count q - 1\<rparr>"
  have "chain (n(t := None)) (n t) ts"
    using h(2,5) by (subst chain_cong [of ts _ n]) auto
  then have "rq_ok (n(t := None)) ?q \<and> rq_items (n(t := None)) ?q = ts"
    by (intro rq_okI) (use h none in auto)
  then show ?thesis
    using h(1) by (simp add: rq_dequeue_def Let_def)
qed

lemma queue_locked_sel:
  "cpu_count (queue_locked t c d) = cpu_count d" "th_state (threads (queue_locked t c d) u) = th_state (threads d u)"
  "th_dispatch_cpu (threads (queue_locked t c d) u) = th_dispatch_cpu (threads d u)"
  "th_priority (threads (queue_locked t c d) u) = th_priority (threads d u)"
  "pc_current (cpus (queue_locked t c d) k) = pc_current (cpus d k)"
  "pc_switching_from (cpus (queue_locked t c d) k) = pc_switching_from (cpus d k)"
  "pc_idle (cpus (queue_locked t c d) k) = pc_idle (cpus d k)" "is_idle (queue_locked t c d) u = is_idle d u"
  "th_run_queued (threads (queue_locked t c d) u) \<longleftrightarrow>
     th_run_queued (threads d u) \<or> u = t \<and> th_dispatch_cpu (threads d t) = None \<and> t \<noteq> pc_idle (cpus d c)"
  by (auto simp: queue_locked_def Let_def is_idle_def split: prod.splits)

lemma queue_facts:
  assumes "core_ok s" and "k < cpu_count (disp s)" and "q < NUM_PRIOS"
  shows "distinct (items (disp s) k q)" "rq_ok (links (disp s)) (pc_queues (cpus (disp s) k) q)" "\<And>u. u \<in> set (items (disp s) k q) \<Longrightarrow> listed_ok s k q u"
  using assms by (simp_all add: core_ok_def queues_ok_def)

lemma listed_unique: "listed_ok s c p t \<Longrightarrow> listed_ok s k q t \<Longrightarrow> k = c \<and> q = p"
  by (auto simp: listed_ok_def Let_def)

text \<open>A change of links that no thread of a queue sees.\<close>

lemma other_queue:
  assumes "core_ok s" and "k < cpu_count (disp s)" and "q < NUM_PRIOS" and "\<And>u. u \<in> set (items (disp s) k q) \<Longrightarrow> n u = links (disp s) u"
  shows "rq_ok n (pc_queues (cpus (disp s) k) q) \<and> rq_items n (pc_queues (cpus (disp s) k) q) = items (disp s) k q"
  using rq_ok_cong [OF queue_facts(2) [OF assms(1-3)], of n] assms(4) by (simp add: items_def)

lemma queue_locked_effect:
  fixes s t
  defines "p \<equiv> th_priority (threads (disp s) t)"
  assumes core: "core_ok s" and c: "c < cpu_count (disp s)" and t: "t \<notin> unallocated s" "\<not> is_idle (disp s) t"
    and free: "\<not> th_run_queued (threads (disp s) t)" "th_dispatch_cpu (threads (disp s) t) = None"
  shows "p < NUM_PRIOS" "\<And>k q. k < cpu_count (disp s) \<Longrightarrow> q < NUM_PRIOS \<Longrightarrow> t \<notin> set (items (disp s) k q)"
    and "\<And>k q. k < cpu_count (disp s) \<Longrightarrow> q < NUM_PRIOS \<Longrightarrow>
      items (queue_locked t c (disp s)) k q = items (disp s) k q @ (if k = c \<and> q = p then [t] else []) \<and>
      rq_ok (links (queue_locked t c (disp s))) (pc_queues (cpus (queue_locked t c (disp s)) k) q)"
    and "\<And>k q. rq_count (pc_queues (cpus (queue_locked t c (disp s)) k) q) =
      rq_count (pc_queues (cpus (disp s) k) q) + (if k = c \<and> q = p then 1 else 0)"
    and "\<And>k. pc_total (cpus (queue_locked t c (disp s)) k) = pc_total (cpus (disp s) k) + (if k = c then 1 else 0)"
    and "threads (queue_locked t c (disp s)) = (threads (disp s))(t := (threads (disp s) t)\<lparr>th_last_cpu := c, th_run_queued := True\<rparr>)"
proof -
  let ?d = "disp s"
  have new: "t \<noteq> pc_idle (cpus ?d c)"
    using t(2) c by (auto simp: is_idle_def)
  show p: "p < NUM_PRIOS"
    using core t(1) by (auto simp: p_def core_ok_def threads_ok_def split: if_splits)
  show out: "t \<notin> set (items ?d k q)" if "k < cpu_count ?d" "q < NUM_PRIOS" for k q
    using free(1) queue_facts(3) [OF core that] by (auto simp: listed_ok_def Let_def)
  obtain q' n' where enq: "rq_enqueue t (pc_queues (cpus ?d c) p) (links ?d) = (q', n')"
    by fastforce
  note cp = queue_facts [OF core c p]
  note e = rq_enqueue_ok [OF cp(2) cp(1) [unfolded items_def] out [OF c p, unfolded items_def] enq]
  have lk: "links (queue_locked t c ?d) = n'" and
    qs: "pc_queues (cpus (queue_locked t c ?d) k) q = (if k = c \<and> q = p then q' else pc_queues (cpus ?d k) q)" for k q
    using free new enq by (auto simp: queue_locked_def p_def Let_def)
  show "items (queue_locked t c ?d) k q = items ?d k q @ (if k = c \<and> q = p then [t] else []) \<and>
      rq_ok (links (queue_locked t c ?d)) (pc_queues (cpus (queue_locked t c ?d) k) q)" if "k < cpu_count ?d" "q < NUM_PRIOS" for k q
  proof (cases "k = c \<and> q = p")
    case False
    have "n' u = links ?d u" if "u \<in> set (items ?d k q)" for u
    proof (rule e(3))
      show "u \<noteq> t"
        using that out [OF \<open>k < cpu_count ?d\<close> \<open>q < NUM_PRIOS\<close>] by auto
      show "u \<notin> set (rq_items (links ?d) (pc_queues (cpus ?d c) p))"
        using listed_unique queue_facts(3) [OF core \<open>k < cpu_count ?d\<close> \<open>q < NUM_PRIOS\<close> that] cp(3) [of u] False by (auto simp: items_def)
    qed
    then show ?thesis
      using other_queue [OF core that, of n'] False by (auto simp: items_def lk qs)
  qed (use e(1) in \<open>simp add: items_def lk qs\<close>)
  show "rq_count (pc_queues (cpus (queue_locked t c ?d) k) q) = rq_count (pc_queues (cpus ?d k) q) + (if k = c \<and> q = p then 1 else 0)" for k q
    using e(2) by (simp add: qs)
  show "pc_total (cpus (queue_locked t c ?d) k) = pc_total (cpus ?d k) + (if k = c then 1 else 0)" for k
    using free new enq by (auto simp: queue_locked_def p_def Let_def)
  show "threads (queue_locked t c ?d) = (threads ?d)(t := (threads ?d t)\<lparr>th_last_cpu := c, th_run_queued := True\<rparr>)"
    using free new enq by (auto simp: queue_locked_def p_def Let_def)
qed

lemma queue_locked_queues:
  assumes core: "core_ok s" and c: "c < cpu_count (disp s)" and t: "t \<notin> unallocated s" "\<not> is_idle (disp s) t" "th_state (threads (disp s) t) = READY"
    and free: "\<not> th_run_queued (threads (disp s) t)" "th_dispatch_cpu (threads (disp s) t) = None"
  shows "queues_ok (s\<lparr>disp := queue_locked t c (disp s)\<rparr>)"
proof -
  let ?d = "disp s" and ?s = "s\<lparr>disp := queue_locked t c (disp s)\<rparr>" and ?p = "th_priority (threads (disp s) t)"
  note e = queue_locked_effect [OF core c t(1,2) free]
  have listed: "listed_ok ?s k q u" if "listed_ok s k q u" "u \<noteq> t" for k q u
    using that by (simp add: listed_ok_def e(6) queue_locked_sel)
  have listed_t: "listed_ok ?s c ?p t"
    using t free by (simp add: listed_ok_def e(6) queue_locked_sel)
  have "distinct (items (disp ?s) k q) \<and> rq_ok (links (disp ?s)) (pc_queues (cpus (disp ?s) k) q) \<and> (\<forall>u\<in>set (items (disp ?s) k q). listed_ok ?s k q u)"
    if "k < cpu_count ?d" "q < NUM_PRIOS" for k q
  proof -
    have "\<forall>u\<in>set (items ?d k q). listed_ok ?s k q u"
      using queue_facts(3) [OF core that] e(2) [OF that] listed by metis
    then show ?thesis
      using queue_facts(1) [OF core that] e(2,3) [OF that] listed_t by auto
  qed
  moreover have "\<exists>k<cpu_count ?d. \<exists>q<NUM_PRIOS. u \<in> set (items (disp ?s) k q)" if "th_run_queued (threads (disp ?s) u)" for u
  proof (cases "u = t")
    case True
    then show ?thesis
      using c e(1) by (intro exI [of _ c] exI [of _ ?p] conjI) (simp_all add: e(3))
  next
    case False
    then have "th_run_queued (threads ?d u)"
      using that by (simp add: e(6))
    then obtain k q where "k < cpu_count ?d" "q < NUM_PRIOS" "u \<in> set (items ?d k q)"
      using core unfolding core_ok_def queues_ok_def by blast
    then show ?thesis
      by (intro exI [of _ k] exI [of _ q] conjI) (simp_all add: e(3))
  qed
  ultimately show ?thesis
    by (simp add: queues_ok_def queue_locked_sel)
qed

lemma sum_one_queue: "p < NUM_PRIOS \<Longrightarrow> (\<Sum>q<NUM_PRIOS. (if k = c \<and> q = p then 1 else 0)) = (if k = c then 1 else (0 :: nat))"
  by (cases "k = c") simp_all

lemma core_queue_locked:
  assumes "core_ok s" and c: "c < cpu_count (disp s)" and t: "t \<notin> unallocated s" "\<not> is_idle (disp s) t" "th_state (threads (disp s) t) = READY"
  shows "core_ok (s\<lparr>disp := queue_locked t c (disp s)\<rparr>)"
proof (cases "th_run_queued (threads (disp s) t) \<or> th_dispatch_cpu (threads (disp s) t) \<noteq> None")
  case True
  then have "queue_locked t c (disp s) = disp s"
    by (auto simp: queue_locked_def)
  then show ?thesis
    using assms(1) by simp
next
  case False
  let ?d = "disp s" and ?s = "s\<lparr>disp := queue_locked t c (disp s)\<rparr>"
  have free: "\<not> th_run_queued (threads ?d t)" "th_dispatch_cpu (threads ?d t) = None"
    using False by simp_all
  note e = queue_locked_effect [OF assms(1) c t(1,2) free]
  have holds: "holds ?s = holds s"
    by (simp add: holds_def fun_eq_iff queue_locked_sel)
  have "queues_ok ?s"
    using assms free by (rule queue_locked_queues)
  moreover have "claims_ok ?s" "threads_ok ?s"
    using assms(1) t(1) by (auto simp: core_ok_def claims_ok_def threads_ok_def holds queue_locked_sel)
  moreover have "totals_ok ?s"
    using assms(1) e(1) by (simp add: core_ok_def totals_ok_def e(4,5) sum.distrib queue_locked_sel sum_one_queue)
  moreover have "phase_ok ?s k" if "k < cpu_count ?d" for k
    using that assms(1) by (simp add: core_ok_def phase_ok_def queue_locked_sel)
  moreover have "idles_ok ?s"
    using assms(1) by (simp add: core_ok_def idles_ok_def Let_def holds queue_locked_sel)
  ultimately show ?thesis
    using assms(1) by (simp add: core_ok_def queue_locked_sel)
qed

lemma enqueue_sel:
  "cpu_count (enqueue t d) = cpu_count d" "is_idle (enqueue t d) = is_idle d"
  "th_dispatch_cpu (threads (enqueue t d) u) = th_dispatch_cpu (threads d u)"
  "u \<noteq> t \<Longrightarrow> th_state (threads (enqueue t d) u) = th_state (threads d u)"
  by (auto simp: enqueue_def queue_locked_sel Let_def fun_eq_iff)

lemma sched_enqueue:
  assumes "core_ok s" and "\<And>u. u \<noteq> t \<Longrightarrow> ready_ok s u" and t: "t \<notin> unallocated s" "\<not> is_idle (disp s) t" "t \<notin> newborn s"
    and run: "th_state (threads (disp s) t) = RUNNING \<Longrightarrow> ready_ok s t"
  shows "sched_ok (s\<lparr>disp := enqueue t (disp s)\<rparr>)"
proof (cases "th_state (threads (disp s) t) = TERMINATED \<or> th_state (threads (disp s) t) = RUNNING")
  case True
  then have "enqueue t (disp s) = disp s" "ready_ok s t"
    using run t(3) by (auto simp: enqueue_def ready_ok_def)
  moreover from this(2) have "ready_ok s u" for u
    using assms(2) by (cases "u = t") simp_all
  ultimately show ?thesis
    using assms(1) by (simp add: sched_ok_def)
next
  case False
  define f where "f = (\<lambda>r :: thread. r\<lparr>th_state := READY\<rparr>)"
  let ?d = "upd_thread t f (disp s)" and ?c = "if th_last_cpu (threads (disp s) t) \<ge> cpu_count (disp s) then 0 else th_last_cpu (threads (disp s) t)"
  have "disp s = ?d" if "th_state (threads (disp s) t) = READY"
    using that by (simp add: upd_thread_def f_def fun_upd_idem)
  then have eq: "enqueue t (disp s) = queue_locked t ?c ?d"
    using False by (cases "th_state (threads (disp s) t)") (auto simp: enqueue_def Let_def f_def)
  have not_held: "\<not> phases s c = Dying t" if "c < cpu_count (disp s)" for c
    using that False assms(1) by (auto simp: core_ok_def phase_ok_def)
  have core: "core_ok (s\<lparr>disp := ?d\<rparr>)"
    by (rule core_upd_thread [OF assms(1)]) (use not_held in \<open>auto simp: f_def\<close>)
  have "?c < cpu_count (disp s)"
    using assms(1) by (auto simp: core_ok_def)
  then have "core_ok (s\<lparr>disp := queue_locked t ?c ?d\<rparr>)"
    using core_queue_locked [OF core, of ?c t] t(1,2) by (simp add: f_def)
  moreover have "ready_ok (s\<lparr>disp := queue_locked t ?c ?d\<rparr>) u" for u
    using assms(2) [of u] t \<open>?c < cpu_count (disp s)\<close> by (auto simp: ready_ok_def queue_locked_sel f_def is_idle_def)
  ultimately show ?thesis
    by (simp add: sched_ok_def eq)
qed

section \<open>Claims\<close>

text \<open>A thread that no processor holds and no queue lists gets the claim of processor \<open>c\<close>, which holds
  it as its candidate.\<close>

lemma sched_claim:
  assumes core: "core_ok s" and ready: "\<And>u. u \<noteq> t \<Longrightarrow> ready_ok s u" and "c < cpu_count (disp s)" and "phases s c = Choosing"
    and "t \<notin> unallocated s" and "th_dispatch_cpu (threads (disp s) t) = None \<or> th_dispatch_cpu (threads (disp s) t) = Some c"
    and "\<not> th_run_queued (threads (disp s) t)" and "th_state (threads (disp s) t) = READY \<or> th_state (threads (disp s) t) = RUNNING"
    and "\<And>k. k < cpu_count (disp s) \<Longrightarrow> pc_idle (cpus (disp s) k) = t \<Longrightarrow> k = c"
    and "\<And>r. th_dispatch_cpu (f r) = Some c" "\<And>r. \<not> th_run_queued r \<Longrightarrow> \<not> th_run_queued (f r)" "\<And>r. th_priority (f r) = th_priority r"
    "\<And>r. th_state (f r) = th_state r" and "t \<notin> newborn s"
  shows "sched_ok (set_phase c (Selected t) (s\<lparr>disp := upd_thread t f (disp s)\<rparr>))"
proof -
  let ?s = "set_phase c (Selected t) (s\<lparr>disp := upd_thread t f (disp s)\<rparr>)"
  have holds: "holds ?s k u \<longleftrightarrow> holds s k u \<or> k = c \<and> u = t" for k u
    using assms(4) by (auto simp: holds_def)
  have claim: "th_dispatch_cpu (threads (disp s) u) = Some k \<longleftrightarrow> k < cpu_count (disp s) \<and> holds s k u" for u k
    using core by (simp add: core_ok_def claims_ok_def)
  have "k = c" if "k < cpu_count (disp s)" "holds s k t" for k
    using that claim [of t k] assms(6) by auto
  then have "claims_ok ?s"
    using claim assms(3,10) by (auto simp: claims_ok_def holds)
  moreover have "u \<noteq> t" if "listed_ok s k p u" for k p u
    using that assms(7) by (auto simp: listed_ok_def Let_def)
  then have "listed_ok ?s k p u" if "listed_ok s k p u" for k p u
    using that by (auto simp: listed_ok_def Let_def)
  then have "queues_ok ?s"
    using core assms(7,11) by (auto simp: core_ok_def queues_ok_def)
  moreover have "totals_ok ?s" "threads_ok ?s"
    using core assms(5,12) by (auto simp: core_ok_def totals_ok_def threads_ok_def)
  moreover have "phase_ok ?s k" if "k < cpu_count (disp s)" for k
    using that core assms(4,8,13) by (auto simp: core_ok_def phase_ok_def)
  moreover have "idles_ok ?s"
  proof (rule idles_okI)
    fix k
    assume k: "k < cpu_count (disp ?s)"
    note i = idle_facts [OF core, of k]
    show "pc_idle (cpus (disp ?s) k) \<notin> unallocated ?s"
      using i(1) k by simp
    show "th_state (threads (disp ?s) (pc_idle (cpus (disp ?s) k))) = READY \<or> th_state (threads (disp ?s) (pc_idle (cpus (disp ?s) k))) = RUNNING"
      using i(2) k assms(13) by auto
    show "c' = k" if "c' < cpu_count (disp ?s)" "pc_idle (cpus (disp ?s) c') = pc_idle (cpus (disp ?s) k) \<or> holds ?s c' (pc_idle (cpus (disp ?s) k))" for c'
      using that i(3) [of c'] k assms(9) [of k] by (auto simp: holds)
  qed
  moreover have "ready_ok ?s u" for u
    using ready [of u] assms(10,14) by (auto simp: ready_ok_def)
  ultimately show ?thesis
    using core by (simp add: sched_ok_def core_ok_def)
qed

text \<open>Taking the head of a queue.\<close>

lemma queue_head:
  assumes "core_ok s" and "c < cpu_count (disp s)" and "p < NUM_PRIOS"
  shows "rq_head (pc_queues (cpus (disp s) c) p) = (case items (disp s) c p of [] \<Rightarrow> None | t # _ \<Rightarrow> Some t)"
proof -
  have "chain (links (disp s)) (rq_head (pc_queues (cpus (disp s) c) p)) (items (disp s) c p)"
    using assms by (simp add: core_ok_def queues_ok_def rq_ok_def items_def)
  then show ?thesis
    by (cases "items (disp s) c p") simp_all
qed

lemma first_queueD:
  assumes "first_queue c (disp s) = Some p" and "core_ok s" and "c < cpu_count (disp s)"
  shows "p < NUM_PRIOS \<and> items (disp s) c p \<noteq> [] \<and> rq_head (pc_queues (cpus (disp s) c) p) = Some (hd (items (disp s) c p))"
proof -
  have "p < NUM_PRIOS" "rq_head (pc_queues (cpus (disp s) c) p) \<noteq> None"
    using assms(1) by (auto simp: first_queue_def find_Some_iff)
  then show ?thesis
    using queue_head [OF assms(2,3), of p] by (cases "items (disp s) c p") auto
qed

definition drop_head :: "nat \<Rightarrow> nat \<Rightarrow> dispatcher \<Rightarrow> dispatcher" where
  "drop_head k p d =
    (case rq_dequeue (pc_queues (cpus d k) p) (links d) of (_, q, n) \<Rightarrow>
     upd_cpu k (\<lambda>r. r\<lparr>pc_queues := (pc_queues r)(p := q), pc_total := pc_total r - 1\<rparr>)
       (upd_thread (hd (items d k p)) (\<lambda>r. r\<lparr>th_run_queued := False\<rparr>) (d\<lparr>links := n\<rparr>)))"

lemma drop_head_effect:
  fixes s k p
  defines "t \<equiv> hd (items (disp s) k p)"
  assumes core: "core_ok s" and k: "k < cpu_count (disp s)" and p: "p < NUM_PRIOS" and ne: "items (disp s) k p \<noteq> []"
  shows "\<And>c q. c < cpu_count (disp s) \<Longrightarrow> q < NUM_PRIOS \<Longrightarrow>
      items (drop_head k p (disp s)) c q = removeAll t (items (disp s) c q) \<and>
      rq_ok (links (drop_head k p (disp s))) (pc_queues (cpus (drop_head k p (disp s)) c) q)"
    and "\<And>c q. rq_count (pc_queues (cpus (disp s) c) q) =
      rq_count (pc_queues (cpus (drop_head k p (disp s)) c) q) + (if c = k \<and> q = p then 1 else 0)"
proof -
  let ?d = "disp s"
  have at: "items ?d k p = t # tl (items ?d k p)"
    using ne by (simp add: t_def)
  note f = queue_facts [OF core k p]
  have lt: "listed_ok s k p t" "t \<notin> set (tl (items ?d k p))"
    using f(1,3) ne by (simp_all add: t_def) (metis distinct.simps(2) list.collapse)
  obtain q' n' where deq: "rq_dequeue (pc_queues (cpus ?d k) p) (links ?d) = (Some t, q', n')" "rq_ok n' q'"
      "rq_items n' q' = tl (items ?d k p)" "rq_count q' = rq_count (pc_queues (cpus ?d k) p) - 1" "n' = (links ?d)(t := None)"
    using rq_dequeue_ok [OF f(2) f(1) [unfolded items_def] at [unfolded items_def]] by (auto simp: items_def)
  have lk: "links (drop_head k p ?d) = n'"
    and qs: "pc_queues (cpus (drop_head k p ?d) c) q = (if c = k \<and> q = p then q' else pc_queues (cpus ?d c) q)" for c q
    by (simp_all add: drop_head_def deq(1))
  show "items (drop_head k p ?d) c q = removeAll t (items ?d c q) \<and> rq_ok (links (drop_head k p ?d)) (pc_queues (cpus (drop_head k p ?d) c) q)"
    if "c < cpu_count ?d" "q < NUM_PRIOS" for c q
  proof (cases "c = k \<and> q = p")
    case True
    have "removeAll t (items ?d k p) = tl (items ?d k p)"
      using lt(2) by (subst at) simp
    then show ?thesis
      using True deq(2,3) by (simp add: items_def lk qs)
  next
    case False
    then have "t \<notin> set (items ?d c q)"
      using listed_unique [OF lt(1)] queue_facts(3) [OF core that] by blast
    moreover from this have "rq_ok n' (pc_queues (cpus ?d c) q) \<and> rq_items n' (pc_queues (cpus ?d c) q) = items ?d c q"
      by (intro other_queue [OF core that]) (auto simp: deq(5))
    ultimately show ?thesis
      using False by (auto simp: items_def lk qs)
  qed
  have "0 < rq_count (pc_queues (cpus ?d k) p)"
    using f(2) ne by (simp add: rq_ok_def items_def)
  then show "rq_count (pc_queues (cpus ?d c) q) = rq_count (pc_queues (cpus (drop_head k p ?d) c) q) + (if c = k \<and> q = p then 1 else 0)" for c q
    using deq(4) by (simp add: qs)
qed

lemma drop_head_sel:
  "cpu_count (drop_head k p d) = cpu_count d" "is_idle (drop_head k p d) = is_idle d"
  "threads (drop_head k p d) = (threads d)(hd (items d k p) := (threads d (hd (items d k p)))\<lparr>th_run_queued := False\<rparr>)"
  "pc_idle (cpus (drop_head k p d) c) = pc_idle (cpus d c)"
  "pc_switching_from (cpus (drop_head k p d) c) = pc_switching_from (cpus d c)"
  "pc_current (cpus (drop_head k p d) c) = pc_current (cpus d c)"
  "pc_total (cpus (drop_head k p d) c) = pc_total (cpus d c) - (if c = k then 1 else 0)"
  by (auto simp: drop_head_def is_idle_def fun_eq_iff split: prod.splits)

lemma drop_head_queues:
  assumes core: "core_ok s" and k: "k < cpu_count (disp s)" and p: "p < NUM_PRIOS" and ne: "items (disp s) k p \<noteq> []"
  shows "queues_ok (s\<lparr>disp := drop_head k p (disp s)\<rparr>)"
proof -
  let ?d = "disp s" and ?s = "s\<lparr>disp := drop_head k p (disp s)\<rparr>" and ?t = "hd (items (disp s) k p)"
  note e = drop_head_effect(1) [OF assms]
  have "listed_ok ?s c q u" if "listed_ok s c q u" "u \<noteq> ?t" for c q u
    using that by (simp add: listed_ok_def drop_head_sel)
  then have "distinct (items (disp ?s) c q) \<and> rq_ok (links (disp ?s)) (pc_queues (cpus (disp ?s) c) q) \<and> (\<forall>u\<in>set (items (disp ?s) c q). listed_ok ?s c q u)"
    if "c < cpu_count ?d" "q < NUM_PRIOS" for c q
    using queue_facts(1,3) [OF core that] e [OF that] by (simp add: distinct_removeAll)
  moreover have "\<exists>c<cpu_count ?d. \<exists>q<NUM_PRIOS. u \<in> set (items (disp ?s) c q)" if "th_run_queued (threads (disp ?s) u)" for u
  proof -
    have u: "u \<noteq> ?t" "th_run_queued (threads ?d u)"
      using that by (auto simp: drop_head_sel split: if_splits)
    then obtain c q where "c < cpu_count ?d" "q < NUM_PRIOS" "u \<in> set (items ?d c q)"
      using core unfolding core_ok_def queues_ok_def by blast
    then show ?thesis
      using u(1) by (intro exI [of _ c] exI [of _ q] conjI) (simp_all add: e)
  qed
  ultimately show ?thesis
    by (simp add: queues_ok_def drop_head_sel)
qed

lemma drop_head_ok:
  assumes core: "core_ok s" and k: "k < cpu_count (disp s)" and p: "p < NUM_PRIOS" and ne: "items (disp s) k p \<noteq> []"
  shows "core_ok (s\<lparr>disp := drop_head k p (disp s)\<rparr>)"
proof -
  let ?d = "disp s" and ?s = "s\<lparr>disp := drop_head k p (disp s)\<rparr>"
  have holds: "holds ?s = holds s"
    by (simp add: holds_def fun_eq_iff drop_head_sel)
  have st: "th_state (threads (drop_head k p ?d) u) = th_state (threads ?d u)" for u
    by (simp add: drop_head_sel)
  have "totals_ok ?s"
    using core p drop_head_effect(2) [OF assms] sum_one_queue [OF p] unfolding core_ok_def totals_ok_def by (simp add: drop_head_sel sum.distrib)
  moreover have "claims_ok ?s" "threads_ok ?s"
    using core by (simp_all add: core_ok_def claims_ok_def threads_ok_def holds drop_head_sel)
  moreover have "idles_ok ?s"
    by (rule idles_okI) (use idle_facts [OF core] in \<open>simp_all add: holds drop_head_sel(1,4) st\<close>)
  moreover have "\<forall>c<cpu_count ?d. phase_ok ?s c"
    using core by (simp add: core_ok_def phase_ok_def drop_head_sel(5,6) st)
  ultimately show ?thesis
    using core drop_head_queues [OF assms] by (simp add: core_ok_def drop_head_sel)
qed

lemma claimD: "core_ok s \<Longrightarrow> th_dispatch_cpu (threads (disp s) t) = Some c \<longleftrightarrow> c < cpu_count (disp s) \<and> holds s c t"
  by (simp add: core_ok_def claims_ok_def)

lemma queuedD:
  assumes "core_ok s" and "th_run_queued (threads (disp s) t)"
  obtains c p where "c < cpu_count (disp s)" "p < NUM_PRIOS" "t \<in> set (items (disp s) c p)" "listed_ok s c p t"
  using assms unfolding core_ok_def queues_ok_def by blast

lemma held_facts:
  assumes "core_ok s" and "c < cpu_count (disp s)" and "holds s c t"
  shows "th_dispatch_cpu (threads (disp s) t) = Some c" "\<not> th_run_queued (threads (disp s) t)" "t \<notin> unallocated s"
    "\<And>k. k < cpu_count (disp s) \<Longrightarrow> holds s k t \<Longrightarrow> k = c" "\<And>k. k < cpu_count (disp s) \<Longrightarrow> pc_idle (cpus (disp s) k) = t \<Longrightarrow> k = c"
proof -
  show claim: "th_dispatch_cpu (threads (disp s) t) = Some c"
    using assms claimD by blast
  show "\<not> th_run_queued (threads (disp s) t)"
  proof
    assume "th_run_queued (threads (disp s) t)"
    with assms(1) obtain k p where "listed_ok s k p t"
      by (rule queuedD)
    then show False
      using claim by (simp add: listed_ok_def Let_def)
  qed
  show "t \<notin> unallocated s"
    using assms(1) claim by (auto simp: core_ok_def threads_ok_def)
  show "k = c" if "k < cpu_count (disp s)" "holds s k t" for k
    using that claim claimD [OF assms(1), of t k] by simp
  show "k = c" if "k < cpu_count (disp s)" "pc_idle (cpus (disp s) k) = t" for k
    using that idle_facts(3) [OF assms(1) that(1), of c] assms(2,3) by auto
qed

lemma idle_not_queued: "core_ok s \<Longrightarrow> c < cpu_count (disp s) \<Longrightarrow> \<not> th_run_queued (threads (disp s) (pc_idle (cpus (disp s) c)))"
  by (auto elim!: queuedD simp: listed_ok_def is_idle_def)

lemma busiest_less: "c < cpu_count d \<Longrightarrow> busiest c d < cpu_count d"
proof -
  assume c: "c < cpu_count d"
  let ?f = "\<lambda>i (source, load). if i \<noteq> c \<and> pc_online (cpus d i) \<and> pc_total (cpus d i) > load then (i, pc_total (cpus d i))
    else (source, load)"
  have "fst (fold ?f is a) < cpu_count d" if "\<forall>i\<in>set is. i < cpu_count d" "fst a < cpu_count d" for "is" a
    using that by (induction "is" arbitrary: a) (auto split: prod.splits)
  from this [of "[0..<cpu_count d]" "(c, 0)"] show ?thesis
    using c by (simp add: busiest_def)
qed

lemma take_thread_eq:
  assumes "first_queue k d = Some p" and "rq_head (pc_queues (cpus d k) p) = Some (hd (items d k p))"
  shows "take_thread k c d = (Some (hd (items d k p)),
    upd_thread (hd (items d k p)) (\<lambda>r. r\<lparr>th_dispatch_cpu := Some c, th_last_cpu := c\<rparr>) (drop_head k p d))"
  using assms by (simp add: take_thread_def drop_head_def rq_dequeue_def upd_thread_def upd_cpu_def Let_def)

lemma sched_select:
  assumes ok: "sched_ok s" and c: "c < cpu_count (disp s)" and ph: "phases s c = Choosing" and ch: "choose_thread c (disp s) = (t, d)"
  shows "sched_ok (set_phase c (Selected t) (s\<lparr>disp := d\<rparr>))"
proof -
  let ?f = "\<lambda>r :: thread. r\<lparr>th_dispatch_cpu := Some c\<rparr>"
  have core: "core_ok s" and ready: "\<And>u. ready_ok s u"
    using ok by (auto simp: sched_ok_def)
  define k where "k = (if peek c (disp s) = None then busiest c (disp s) else c)"
  have k: "k < cpu_count (disp s)"
    using c busiest_less by (simp add: k_def)
  consider (stay) "pc_current (cpus (disp s) c) = Some t" "d = disp s" "th_state (threads (disp s) t) = RUNNING \<or> th_state (threads (disp s) t) = READY"
    | (steal) p where "first_queue k (disp s) = Some p" "(Some t, d) = take_thread k c (disp s)"
    | (idle) "t = pc_idle (cpus (disp s) c)" "d = upd_thread t ?f (disp s)"
  proof (cases "\<exists>u. pc_current (cpus (disp s) c) = Some u \<and> (th_state (threads (disp s) u) = RUNNING \<or> th_state (threads (disp s) u) = READY) \<and>
      (peek k (disp s) = None \<or> th_priority (threads (disp s) u) < th_priority (threads (disp s) (the (peek k (disp s)))))")
    case True
    then have "choose_thread c (disp s) = (the (pc_current (cpus (disp s) c)), disp s)"
      by (auto simp: choose_thread_def Let_def simp flip: k_def)
    then show ?thesis
      using True ch that(1) by auto
  next
    case False
    then have go: "choose_thread c (disp s) = (if peek k (disp s) \<noteq> None then (let (t, s) = take_thread k c (disp s) in (the t, s))
        else (pc_idle (cpus (disp s) c), upd_thread (pc_idle (cpus (disp s) c)) ?f (disp s)))"
      by (cases "pc_current (cpus (disp s) c)") (auto simp: choose_thread_def Let_def simp flip: k_def)
    show ?thesis
    proof (cases "first_queue k (disp s)")
      case None
      then show ?thesis
        using go ch that(3) by (simp add: peek_def)
    next
      case (Some p)
      then show ?thesis
        using go ch that(2) first_queueD [OF Some core k] take_thread_eq [OF Some] by (simp add: peek_def)
    qed
  qed
  then show ?thesis
  proof cases
    case stay
    then have "holds s c t"
      by (simp add: holds_def)
    note t = held_facts [OF core c this]
    have "upd_thread t ?f (disp s) = disp s"
      using t(1) by (simp add: upd_thread_def fun_upd_idem)
    moreover have "t \<notin> newborn s"
      using ready [of t] t(1) by (auto simp: ready_ok_def)
    ultimately show ?thesis
      using sched_claim [OF core ready c ph t(3), of ?f] t stay(2,3) by auto
  next
    case (steal p)
    let ?s = "s\<lparr>disp := drop_head k p (disp s)\<rparr>"
    note p = first_queueD [OF steal(1) core k]
    have t: "t = hd (items (disp s) k p)" "d = upd_thread t (\<lambda>r. r\<lparr>th_dispatch_cpu := Some c, th_last_cpu := c\<rparr>) (drop_head k p (disp s))"
      using steal(2) take_thread_eq [OF steal(1)] p by auto
    have "listed_ok s k p t"
      using core k p by (simp add: core_ok_def queues_ok_def t(1))
    then have l: "t \<notin> unallocated s" "\<not> is_idle (disp s) t" "th_dispatch_cpu (threads (disp s) t) = None" "th_state (threads (disp s) t) = READY"
        "t \<notin> newborn s"
      using ready [of t] by (auto simp: listed_ok_def ready_ok_def Let_def)
    have "core_ok ?s"
      by (rule drop_head_ok [OF core k]) (use p in auto)
    moreover have "ready_ok ?s u" if "u \<noteq> t" for u
      using ready [of u] that by (simp add: ready_ok_def drop_head_sel t(1))
    ultimately have "sched_ok (set_phase c (Selected t)
        (?s\<lparr>disp := upd_thread t (\<lambda>r. r\<lparr>th_dispatch_cpu := Some c, th_last_cpu := c\<rparr>) (disp ?s)\<rparr>))"
    proof (rule sched_claim)
      show "k' = c" if "k' < cpu_count (disp ?s)" "pc_idle (cpus (disp ?s) k') = t" for k'
        using that l(2) by (auto simp: is_idle_def drop_head_sel(1,4))
    qed (use c ph l in \<open>simp_all add: drop_head_sel(1,3) flip: t(1)\<close>)
    then show ?thesis
      by (simp add: t(2))
  next
    case idle
    note i = idle_facts [OF core c] idle_not_queued [OF core c]
    have "th_dispatch_cpu (threads (disp s) t) = None \<or> th_dispatch_cpu (threads (disp s) t) = Some c"
    proof (cases "th_dispatch_cpu (threads (disp s) t)")
      case (Some k)
      then show ?thesis
        using core i(3) [of k] idle(1) by (auto simp: core_ok_def claims_ok_def)
    qed simp
    moreover have "t \<notin> newborn s"
      using ready [of t] c idle(1) by (auto simp: ready_ok_def is_idle_def)
    ultimately show ?thesis
      using sched_claim [OF core ready c ph, of t ?f] i idle by auto
  qed
qed

section \<open>Steps\<close>

lemma sched_set_phase:
  assumes ok: "sched_ok s" and h: "\<And>u. holds (set_phase c ph s) c u \<longleftrightarrow> holds s c u" and ph: "c < cpu_count (disp s) \<Longrightarrow> phase_ok (set_phase c ph s) c"
  shows "sched_ok (set_phase c ph s)"
proof -
  let ?s = "set_phase c ph s"
  have core: "core_ok s"
    using ok by (simp add: sched_ok_def)
  have "holds ?s k u = holds s k u" for k u
    using h by (cases "k = c") (auto simp: holds_def)
  then have holds: "holds ?s = holds s"
    by (simp add: fun_eq_iff)
  have "listed_ok ?s = listed_ok s" "ready_ok ?s = ready_ok s"
    by (simp_all add: listed_ok_def ready_ok_def fun_eq_iff)
  then have "claims_ok ?s" "queues_ok ?s" "totals_ok ?s" "threads_ok ?s" "\<forall>t. ready_ok ?s t"
    using ok by (simp_all add: sched_ok_def core_ok_def claims_ok_def queues_ok_def totals_ok_def threads_ok_def holds)
  moreover have "phase_ok ?s k" if "k < cpu_count (disp s)" for k
    using that core ph by (cases "k = c") (simp_all add: core_ok_def phase_ok_def)
  moreover have "idles_ok ?s"
    using core by (simp add: core_ok_def idles_ok_def holds)
  ultimately show ?thesis
    using core by (simp add: sched_ok_def core_ok_def)
qed

text \<open>Giving up a claim: the thread leaves processor \<open>c\<close>, which goes to phase \<open>ph\<close>.\<close>

lemma core_unclaim:
  assumes core: "core_ok s" and c: "c < cpu_count (disp s)" and h: "holds s c t"
    and d: "cpu_count d = cpu_count (disp s)" "threads d = (threads (disp s))(t := (threads (disp s) t)\<lparr>th_dispatch_cpu := None\<rparr>)"
    "\<And>k. pc_queues (cpus d k) = pc_queues (cpus (disp s) k)" "\<And>k. pc_total (cpus d k) = pc_total (cpus (disp s) k)"
    "\<And>k. pc_idle (cpus d k) = pc_idle (cpus (disp s) k)" "\<And>k. pc_current (cpus d k) = pc_current (cpus (disp s) k)"
    "\<And>k. k \<noteq> c \<Longrightarrow> pc_switching_from (cpus d k) = pc_switching_from (cpus (disp s) k)" "pc_switching_from (cpus d c) = None" "links d = links (disp s)"
    and ph: "ph = Choosing \<or> ph = Executing" "pc_current (cpus (disp s) c) \<noteq> Some t"
    and only: "\<And>u. holds s c u \<Longrightarrow> u = t \<or> pc_current (cpus (disp s) c) = Some u"
  shows "core_ok (set_phase c ph (s\<lparr>disp := d\<rparr>))"
proof -
  let ?s = "set_phase c ph (s\<lparr>disp := d\<rparr>)"
  note t = held_facts [OF core c h]
  have holds: "holds ?s k u \<longleftrightarrow> holds s k u \<and> \<not> (k = c \<and> u = t)" if "k < cpu_count (disp s)" for k u
    using d(6-8) ph only by (cases "k = c") (auto simp: holds_def)
  have st: "th_state (threads d u) = th_state (threads (disp s) u)" "th_run_queued (threads d u) = th_run_queued (threads (disp s) u)"
      "th_priority (threads d u) = th_priority (threads (disp s) u)"
      "th_dispatch_cpu (threads d u) = (if u = t then None else th_dispatch_cpu (threads (disp s) u))" for u
    by (simp_all add: d(2))
  have its: "items d = items (disp s)"
    by (simp add: items_def fun_eq_iff d(3,9))
  have idle: "is_idle d = is_idle (disp s)"
    by (simp add: is_idle_def fun_eq_iff d(1,5))
  have "claims_ok ?s"
    unfolding claims_ok_def
  proof (intro allI)
    fix u k
    show "th_dispatch_cpu (threads (disp ?s) u) = Some k \<longleftrightarrow> k < cpu_count (disp ?s) \<and> holds ?s k u"
      using claimD [OF core, of u k] t(4) [of k] holds [of k u] by (auto simp: st d(1))
  qed
  moreover have "listed_ok ?s k p u" if "listed_ok s k p u" for k p u
    using that t(2) by (auto simp: listed_ok_def Let_def d(2) idle)
  then have "queues_ok ?s"
    using core by (auto simp: core_ok_def queues_ok_def d(1,3,9) its st)
  moreover have "totals_ok ?s" "threads_ok ?s"
    using core by (auto simp: core_ok_def totals_ok_def threads_ok_def d(1,3,4) st)
  moreover have "phase_ok ?s k" if "k < cpu_count (disp s)" for k
    using that core d(6-8) ph by (cases "k = c") (auto simp: core_ok_def phase_ok_def st)
  moreover have "idles_ok ?s"
    by (rule idles_okI) (use idle_facts [OF core] in \<open>auto simp: holds st d(1,5)\<close>)
  ultimately show ?thesis
    using core by (simp add: core_ok_def d(1))
qed

lemma sched_release:
  assumes ok: "sched_ok s" and c: "c < cpu_count (disp s)" and ph: "phases s c = Dying t"
  shows "sched_ok (set_phase c Choosing
    (s\<lparr>disp := (if pc_current (cpus (disp s) c) \<noteq> Some t then release_candidate t (disp s) else disp s)\<rparr>))"
proof (cases "pc_current (cpus (disp s) c) = Some t")
  case True
  have "sched_ok (set_phase c Choosing s)"
    using ok
  proof (rule sched_set_phase)
    show "phase_ok (set_phase c Choosing s) c"
      using ok c ph by (auto simp: sched_ok_def core_ok_def phase_ok_def)
  qed (use ph True in \<open>auto simp: holds_def\<close>)
  then show ?thesis
    using True by simp
next
  case False
  have core: "core_ok s" and ready: "ready_ok s u" for u
    using ok by (auto simp: sched_ok_def)
  have st: "th_state (threads (disp s) t) = TERMINATED" "pc_switching_from (cpus (disp s) c) = None"
    using core c ph by (auto simp: core_ok_def phase_ok_def)
  have "core_ok (set_phase c Choosing (s\<lparr>disp := release_candidate t (disp s)\<rparr>))"
    by (rule core_unclaim [OF core c]) (use ph False st in \<open>auto simp: holds_def release_candidate_def\<close>)
  moreover have "ready_ok (set_phase c Choosing (s\<lparr>disp := release_candidate t (disp s)\<rparr>)) u" for u
    using ready [of u] st(1) by (auto simp: ready_ok_def release_candidate_def)
  ultimately show ?thesis
    using False by (simp add: sched_ok_def)
qed

lemma sched_finish:
  assumes ok: "sched_ok s" and c: "c < cpu_count (disp s)" and ph: "phases s c = Switching"
  shows "sched_ok (set_phase c Executing (s\<lparr>disp := finish_switch c (disp s)\<rparr>))"
proof (cases "pc_switching_from (cpus (disp s) c)")
  case None
  let ?s = "set_phase c Executing (s\<lparr>disp := finish_switch c (disp s)\<rparr>)"
  have same: "finish_switch c (disp s) = disp s"
    using None by (simp add: finish_switch_def upd_cpu_def fun_upd_idem)
  have "sched_ok (set_phase c Executing s)"
    using ok by (rule sched_set_phase) (use ph None in \<open>auto simp: holds_def phase_ok_def\<close>)
  then show ?thesis
    by (simp add: same)
next
  case (Some t)
  have core: "core_ok s" and ready: "ready_ok s u" for u
    using ok by (auto simp: sched_ok_def)
  define d where "d = upd_thread t (\<lambda>r. r\<lparr>th_dispatch_cpu := None\<rparr>) (upd_cpu c (\<lambda>r. r\<lparr>pc_switching_from := None\<rparr>) (disp s))"
  have ne: "pc_current (cpus (disp s) c) \<noteq> Some t"
    using core c Some by (auto simp: core_ok_def phase_ok_def)
  have h: "holds s c t"
    using Some by (simp add: holds_def)
  note t = held_facts [OF core c h]
  let ?s = "set_phase c Executing (s\<lparr>disp := d\<rparr>)"
  have core': "core_ok ?s"
    by (rule core_unclaim [OF core c h]) (use ph Some ne in \<open>auto simp: d_def holds_def\<close>)
  have "pc_idle (cpus d k) = pc_idle (cpus (disp s) k)" for k
    by (simp add: d_def)
  then have idle: "is_idle d = is_idle (disp s)"
    by (simp add: is_idle_def fun_eq_iff d_def)
  have run: "finish_switch c (disp s) = (if th_state (threads d t) = READY then queue_locked t c d else d)"
    using Some by (simp add: finish_switch_def d_def Let_def)
  have ready': "ready_ok ?s u" if "u \<noteq> t" for u
    using ready [of u] that by (simp add: ready_ok_def idle) (simp add: d_def)
  show ?thesis
  proof (cases "th_state (threads d t) = READY \<and> \<not> is_idle d t")
    case True
    have "core_ok (?s\<lparr>disp := queue_locked t c (disp ?s)\<rparr>)"
      by (rule core_queue_locked [OF core']) (use True c t(3) in \<open>simp_all add: d_def\<close>)
    moreover have "t \<noteq> pc_idle (cpus d c)" "th_dispatch_cpu (threads d t) = None"
      using True c by (auto simp: is_idle_def d_def)
    then have "ready_ok (?s\<lparr>disp := queue_locked t c (disp ?s)\<rparr>) u" for u
      using ready' [of u] True ready [of t] t(1) by (cases "u = t") (auto simp: ready_ok_def queue_locked_sel)
    ultimately have "sched_ok (?s\<lparr>disp := queue_locked t c (disp ?s)\<rparr>)"
      by (simp add: sched_ok_def)
    moreover have "?s\<lparr>disp := queue_locked t c (disp ?s)\<rparr> = set_phase c Executing (s\<lparr>disp := queue_locked t c d\<rparr>)"
      by (simp add: set_phase_def)
    ultimately show ?thesis
      using True run by (simp only: if_True simp_thms)
  next
    case False
    have "queue_locked t c d = d" if "is_idle d t"
    proof -
      obtain k where "k < cpu_count (disp s)" "pc_idle (cpus (disp s) k) = t"
        using \<open>is_idle d t\<close> idle by (auto simp: is_idle_def)
      then have "t = pc_idle (cpus d c)"
        using t(5) [of k] by (simp add: d_def)
      then show ?thesis
        by (simp add: queue_locked_def)
    qed
    then have "finish_switch c (disp s) = d"
      using False run by auto
    moreover have "phase_ok s c"
      using core c by (simp add: core_ok_def)
    then have "th_state (threads d t) \<noteq> RUNNING"
      using Some by (simp add: phase_ok_def d_def)
    then have "ready_ok ?s t"
      using False ready [of t] t(1) by (auto simp: ready_ok_def)
    then have "ready_ok ?s u" for u
      using ready' by (cases "u = t") simp_all
    ultimately show ?thesis
      using core' by (simp add: sched_ok_def)
  qed
qed

text \<open>A held thread changes its own state.\<close>

lemma sched_set_state:
  assumes ok: "sched_ok s" and c: "c < cpu_count (disp s)" and h: "holds s c t" and ph: "\<And>u. phases s c \<noteq> Selected u" "\<And>u. phases s c \<noteq> Dying u"
    and idle: "\<not> is_idle (disp s) t" and st: "st \<noteq> RUNNING"
  shows "sched_ok (s\<lparr>disp := set_state t st (disp s)\<rparr>)"
proof -
  have core: "core_ok s" and ready: "ready_ok s u" for u
    using ok by (auto simp: sched_ok_def)
  note t = held_facts [OF core c h]
  have none: "phases s k \<noteq> Dying t \<and> phases s k \<noteq> Selected t" if "k < cpu_count (disp s)" for k
    using t(4) [OF that] ph by (auto simp: holds_def)
  have "core_ok (s\<lparr>disp := set_state t st (disp s)\<rparr>)"
    unfolding set_state_def
    by (rule core_upd_thread [OF core]) (use t(2) none idle st in \<open>auto simp: is_idle_def\<close>)
  moreover have "ready_ok (s\<lparr>disp := set_state t st (disp s)\<rparr>) u" for u
    using ready [of u] t(1) by (auto simp: ready_ok_def set_state_def)
  ultimately show ?thesis
    by (simp add: sched_ok_def)
qed

lemma sched_kill:
  assumes ok: "sched_ok s" and c: "c < cpu_count (disp s)" and ph: "phases s c = Selected t" and idle: "t \<noteq> pc_idle (cpus (disp s) c)"
  shows "sched_ok (set_phase c (Dying t) (s\<lparr>disp := set_state t TERMINATED (disp s)\<rparr>))"
proof -
  have core: "core_ok s" and ready: "ready_ok s u" for u
    using ok by (auto simp: sched_ok_def)
  have h: "holds s c t"
    using ph by (simp add: holds_def)
  note t = held_facts [OF core c h]
  let ?d = "set_state t TERMINATED (disp s)" and ?s = "set_phase c (Dying t) (s\<lparr>disp := set_state t TERMINATED (disp s)\<rparr>)"
  have d: "cpu_count ?d = cpu_count (disp s)" "cpus ?d = cpus (disp s)" "is_idle ?d = is_idle (disp s)" "items ?d = items (disp s)" "links ?d = links (disp s)"
      "threads ?d = (threads (disp s))(t := (threads (disp s) t)\<lparr>th_state := TERMINATED\<rparr>)"
    by (simp_all add: set_state_def)
  have holds: "holds ?s k u = holds s k u" for k u
    using ph by (auto simp: holds_def d)
  have one: "k = c" if "k < cpu_count (disp s)" "phases s k = Selected t" for k
    using t(4) [OF that(1)] that(2) by (simp add: holds_def)
  have "listed_ok ?s k p u" if "listed_ok s k p u" for k p u
    using that t(2) by (auto simp: listed_ok_def Let_def d)
  then have "queues_ok ?s"
    using core by (auto simp: core_ok_def queues_ok_def d)
  moreover have "claims_ok ?s"
    using claimD [OF core] by (simp add: claims_ok_def holds d)
  moreover have "totals_ok ?s" "threads_ok ?s"
    using core by (simp_all add: core_ok_def totals_ok_def threads_ok_def d)
  moreover have "phase_ok ?s k" if "k < cpu_count (disp s)" for k
  proof -
    have pk: "phase_ok s k"
      using core that by (simp add: core_ok_def)
    show ?thesis
    proof (cases "k = c")
      case True
      then show ?thesis
        using pk ph by (simp add: phase_ok_def d)
    next
      case False
      then have "phases s k \<noteq> Selected t"
        using one [OF that] by blast
      then show ?thesis
        using pk False unfolding phase_ok_def by (simp add: d)
    qed
  qed
  moreover have "pc_idle (cpus (disp s) k) \<noteq> t" if "k < cpu_count (disp s)" for k
    using t(5) [OF that] idle by auto
  then have "idles_ok ?s"
    by (intro idles_okI) (use idle_facts [OF core] in \<open>auto simp: holds d\<close>)
  moreover have "ready_ok ?s u" for u
    using ready [of u] t(1) by (auto simp: ready_ok_def d)
  ultimately show ?thesis
    using core by (simp add: sched_ok_def core_ok_def d)
qed

lemma prepare_switch_sel:
  "links (prepare_switch c t d) = links d"
  "cpu_count (prepare_switch c t d) = cpu_count d" "pc_idle (cpus (prepare_switch c t d) k) = pc_idle (cpus d k)"
  "pc_queues (cpus (prepare_switch c t d) k) = pc_queues (cpus d k)" "pc_total (cpus (prepare_switch c t d) k) = pc_total (cpus d k)"
  "th_dispatch_cpu (threads (prepare_switch c t d) u) = th_dispatch_cpu (threads d u)"
  "th_run_queued (threads (prepare_switch c t d) u) = th_run_queued (threads d u)"
  "th_priority (threads (prepare_switch c t d) u) = th_priority (threads d u)"
  "pc_current (cpus (prepare_switch c t d) k) = (if k = c then Some t else pc_current (cpus d k))"
  "pc_switching_from (cpus (prepare_switch c t d) k) =
     (if k = c \<and> pc_current (cpus d c) \<noteq> Some t then pc_current (cpus d c) else pc_switching_from (cpus d k))"
  "u \<noteq> t \<Longrightarrow> pc_current (cpus d c) \<noteq> Some u \<Longrightarrow> threads (prepare_switch c t d) u = threads d u"
  "u \<noteq> t \<Longrightarrow> th_last_cpu (threads (prepare_switch c t d) u) = th_last_cpu (threads d u)"
  "u \<noteq> t \<Longrightarrow> th_state (threads (prepare_switch c t d) u) =
     (if pc_current (cpus d c) = Some u \<and> th_state (threads d u) = RUNNING then READY else th_state (threads d u))"
  "th_state (threads (prepare_switch c t d) t) = RUNNING"
  by (auto simp: prepare_switch_def Let_def split: option.splits)

lemma sched_commit:
  assumes ok: "sched_ok s" and c: "c < cpu_count (disp s)" and ph: "phases s c = Selected t"
  shows "sched_ok (set_phase c (if pc_current (cpus (disp s) c) = Some t then Executing else Switching)
    (s\<lparr>disp := prepare_switch c t (disp s)\<rparr>))"
proof -
  let ?d = "prepare_switch c t (disp s)"
  let ?s = "set_phase c (if pc_current (cpus (disp s) c) = Some t then Executing else Switching) (s\<lparr>disp := ?d\<rparr>)"
  have core: "core_ok s" and ready: "ready_ok s u" for u
    using ok by (auto simp: sched_ok_def)
  have h: "holds s c t"
    using ph by (simp add: holds_def)
  note t = held_facts [OF core c h]
  have from_none: "pc_switching_from (cpus (disp s) c) = None"
    using core c ph by (auto simp: core_ok_def phase_ok_def)
  have cur: "u = c" if "pc_current (cpus (disp s) c) = Some v" "u < cpu_count (disp s)" "holds s u v" for u v
    using held_facts(4) [OF core c, of v u] that by (simp add: holds_def)
  have holds: "holds ?s k u = holds s k u" for k u
    using ph from_none by (auto simp: holds_def prepare_switch_sel)
  have idle: "is_idle ?d = is_idle (disp s)"
    by (simp add: is_idle_def fun_eq_iff prepare_switch_sel)
  have its: "items ?d = items (disp s)"
    by (simp add: items_def fun_eq_iff prepare_switch_sel)
  have "listed_ok ?s k p u" if "listed_ok s k p u" for k p u
  proof -
    have "u \<noteq> t" "pc_current (cpus (disp s) c) \<noteq> Some u"
      using that t(2) held_facts(2) [OF core c, of u] by (auto simp: listed_ok_def Let_def holds_def)
    then show ?thesis
      using that by (simp add: listed_ok_def Let_def prepare_switch_sel idle)
  qed
  then have "queues_ok ?s"
    using core by (auto simp: core_ok_def queues_ok_def prepare_switch_sel its)
  moreover have "claims_ok ?s"
    using claimD [OF core] by (simp add: claims_ok_def holds prepare_switch_sel)
  moreover have "totals_ok ?s" "threads_ok ?s"
    using core by (simp_all add: core_ok_def totals_ok_def threads_ok_def prepare_switch_sel)
  moreover have "phase_ok ?s k" if k: "k < cpu_count (disp s)" for k
  proof (cases "k = c")
    case True
    then show ?thesis
      using from_none by (auto simp: phase_ok_def prepare_switch_sel split: if_splits)
  next
    case False
    have "u \<noteq> t \<and> pc_current (cpus (disp s) c) \<noteq> Some u" if "phases s k = Selected u \<or> phases s k = Dying u \<or> pc_switching_from (cpus (disp s) k) = Some u" for u
      using that t(4) [OF k] cur [OF _ k, of u] False by (auto simp: holds_def)
    moreover have "phase_ok s k"
      using core k by (simp add: core_ok_def)
    ultimately show ?thesis
      using False by (auto simp: phase_ok_def prepare_switch_sel)
  qed
  moreover have "th_state (threads ?d u) = READY \<or> th_state (threads ?d u) = RUNNING"
    if "th_state (threads (disp s) u) = READY \<or> th_state (threads (disp s) u) = RUNNING" for u
    using that by (cases "u = t") (auto simp: prepare_switch_sel)
  then have "idles_ok ?s"
    by (intro idles_okI) (use idle_facts [OF core] in \<open>simp_all add: holds prepare_switch_sel\<close>)
  moreover have "ready_ok ?s u" for u
  proof (cases "u = t \<or> pc_current (cpus (disp s) c) = Some u")
    case True
    then have "th_dispatch_cpu (threads (disp s) u) = Some c"
      using t(1) held_facts(1) [OF core c, of u] by (auto simp: holds_def)
    then show ?thesis
      using ready [of u] by (simp add: ready_ok_def prepare_switch_sel)
  next
    case False
    then show ?thesis
      using ready [of u] by (simp add: ready_ok_def prepare_switch_sel idle)
  qed
  ultimately show ?thesis
    using core by (simp add: sched_ok_def core_ok_def prepare_switch_sel)
qed

lemma sched_spawn:
  assumes ok: "sched_ok s" and t: "t \<in> unallocated s" and p: "p < NUM_PRIOS"
  shows "sched_ok (s\<lparr>disp := upd_thread t (\<lambda>_. new_thread p c) (disp s), unallocated := unallocated s - {t}, newborn := insert t (newborn s)\<rparr>)"
proof -
  let ?d = "upd_thread t (\<lambda>_. new_thread p c) (disp s)"
  let ?s = "s\<lparr>disp := ?d, unallocated := unallocated s - {t}, newborn := insert t (newborn s)\<rparr>"
  have core: "core_ok s" and ready: "ready_ok s u" for u
    using ok by (auto simp: sched_ok_def)
  have no_claim: "th_dispatch_cpu (threads (disp s) t) = None" "\<not> th_run_queued (threads (disp s) t)"
    using core t by (auto simp: core_ok_def threads_ok_def split: if_splits)
  then have free: "\<not> holds s k t" if "k < cpu_count (disp s)" for k
    using that claimD [OF core, of t k] by simp
  have idle: "pc_idle (cpus (disp s) k) \<noteq> t" if "k < cpu_count (disp s)" for k
    using idle_facts(1) [OF core that] t by auto
  have holds: "holds ?s k u = holds s k u" for k u
    by (simp add: holds_def)
  have new: "th_dispatch_cpu (new_thread p c) = None" "\<not> th_run_queued (new_thread p c)" "th_priority (new_thread p c) = p"
    by (simp_all add: new_thread_def)
  have "claims_ok ?s"
    unfolding claims_ok_def
  proof (intro allI)
    show "th_dispatch_cpu (threads (disp ?s) u) = Some k \<longleftrightarrow> k < cpu_count (disp ?s) \<and> holds ?s k u" for u k
      using claimD [OF core, of u k] free [of k] by (cases "u = t") (auto simp: holds new)
  qed
  moreover have "listed_ok ?s k q u" if "listed_ok s k q u" for k q u
    using that no_claim by (auto simp: listed_ok_def Let_def)
  then have "queues_ok ?s"
    using core no_claim(2) new(2) by (auto simp: core_ok_def queues_ok_def)
  moreover have "totals_ok ?s" "threads_ok ?s"
    using core p new(3) by (auto simp: core_ok_def totals_ok_def threads_ok_def)
  moreover have "phase_ok ?s k" if k: "k < cpu_count (disp s)" for k
  proof -
    have "phase_ok s k" "phases s k \<noteq> Selected t" "phases s k \<noteq> Dying t"
      using core k free [OF k] by (auto simp: core_ok_def holds_def)
    then show ?thesis
      by (simp add: phase_ok_def new_thread_def)
  qed
  moreover have "idles_ok ?s"
    by (rule idles_okI) (use idle_facts [OF core] idle in \<open>auto simp: holds\<close>)
  ultimately have "core_ok ?s"
    using core by (simp add: core_ok_def)
  moreover have "ready_ok ?s u" for u
    using ready [of u] idle by (cases "u = t") (auto simp: ready_ok_def new_thread_def is_idle_def)
  ultimately show ?thesis
    by (simp add: sched_ok_def)
qed

lemma newborn_core: "core_ok (s\<lparr>newborn := b\<rparr>) = core_ok s"
proof -
  have "holds (s\<lparr>newborn := b\<rparr>) = holds s" "listed_ok (s\<lparr>newborn := b\<rparr>) = listed_ok s" "phase_ok (s\<lparr>newborn := b\<rparr>) = phase_ok s"
    by (simp_all add: holds_def listed_ok_def phase_ok_def fun_eq_iff)
  then show ?thesis
    by (simp add: core_ok_def claims_ok_def queues_ok_def totals_ok_def idles_ok_def threads_ok_def)
qed

lemma sched_publish:
  assumes ok: "sched_ok s" and t: "t \<notin> unallocated s" "\<not> is_idle (disp s) t"
  shows "sched_ok (s\<lparr>disp := enqueue t (disp s), newborn := newborn s - {t}\<rparr>)"
proof -
  let ?s = "s\<lparr>newborn := newborn s - {t}\<rparr>"
  have core: "core_ok ?s" and ready: "ready_ok s u" for u
    using ok by (auto simp: sched_ok_def newborn_core)
  have "ready_ok ?s u" if "u \<noteq> t" for u
    using ready [of u] that by (auto simp: ready_ok_def)
  moreover have "ready_ok ?s t" if "th_state (threads (disp ?s) t) = RUNNING"
    using ready [of t] that by (auto simp: ready_ok_def)
  ultimately have "sched_ok (?s\<lparr>disp := enqueue t (disp ?s)\<rparr>)"
    using core t by (intro sched_enqueue) auto
  moreover have "?s\<lparr>disp := enqueue t (disp ?s)\<rparr> = s\<lparr>disp := enqueue t (disp s), newborn := newborn s - {t}\<rparr>"
    by simp
  ultimately show ?thesis
    by (simp only:)
qed

lemma sched_reap:
  assumes ok: "sched_ok s" and idle: "\<not> is_idle (disp s) t" and r: "reclaimable t (disp s)"
  shows "sched_ok (s\<lparr>unallocated := insert t (unallocated s)\<rparr>)"
proof -
  let ?s = "s\<lparr>unallocated := insert t (unallocated s)\<rparr>"
  have core: "core_ok s" and ready: "ready_ok s u" for u
    using ok by (auto simp: sched_ok_def)
  have t: "th_dispatch_cpu (threads (disp s) t) = None" "\<not> th_run_queued (threads (disp s) t)"
    using r by (auto simp: reclaimable_def)
  have holds: "holds ?s = holds s"
    by (simp add: holds_def fun_eq_iff)
  have "listed_ok ?s k q u" if "listed_ok s k q u" for k q u
    using that t(2) by (auto simp: listed_ok_def Let_def)
  then have "queues_ok ?s"
    using core by (auto simp: core_ok_def queues_ok_def)
  moreover have "claims_ok ?s" "totals_ok ?s" "threads_ok ?s" "\<forall>k<cpu_count (disp s). phase_ok ?s k"
    using core t by (simp_all add: core_ok_def claims_ok_def totals_ok_def threads_ok_def phase_ok_def holds)
  moreover have "idles_ok ?s"
    by (rule idles_okI) (use idle_facts [OF core] idle in \<open>auto simp: holds is_idle_def\<close>)
  moreover have "ready_ok ?s u" for u
    using ready [of u] ready [of t] r by (auto simp: ready_ok_def reclaimable_def)
  ultimately show ?thesis
    using core by (simp add: sched_ok_def core_ok_def)
qed

lemma sched_pin:
  assumes ok: "sched_ok s"
  shows "sched_ok (s\<lparr>disp := upd_thread t (\<lambda>r. r\<lparr>th_pins := n\<rparr>) (disp s)\<rparr>)"
proof -
  have core: "core_ok s" and ready: "ready_ok s u" for u
    using ok by (auto simp: sched_ok_def)
  have st: "th_state (threads (disp s) t) = TERMINATED" if "k < cpu_count (disp s)" "phases s k = Dying t" for k
    using core that by (simp add: core_ok_def phase_ok_def)
  have sel: "th_state (threads (disp s) t) = READY \<or> th_state (threads (disp s) t) = RUNNING"
    if "k < cpu_count (disp s)" "phases s k = Selected t \<or> pc_idle (cpus (disp s) k) = t" for k
    using core that idle_facts(2) [OF core that(1)] by (auto simp: core_ok_def phase_ok_def)
  have listed: "th_state (threads (disp s) t) = READY" if "th_run_queued (threads (disp s) t)"
    using core that by (rule queuedD) (simp add: listed_ok_def Let_def)
  have "core_ok (s\<lparr>disp := upd_thread t (\<lambda>r. r\<lparr>th_pins := n\<rparr>) (disp s)\<rparr>)"
    by (rule core_upd_thread [OF core]) (use st sel listed in simp_all)
  moreover have "ready_ok (s\<lparr>disp := upd_thread t (\<lambda>r. r\<lparr>th_pins := n\<rparr>) (disp s)\<rparr>) u" for u
    using ready [of u] by (auto simp: ready_ok_def)
  ultimately show ?thesis
    by (simp add: sched_ok_def)
qed

lemma sched_step_ok: "sched_step s s' \<Longrightarrow> sched_ok s \<Longrightarrow> sched_ok s'"
proof (induction rule: sched_step.induct)
  case (wake t s)
  then show ?case
    by (intro sched_enqueue) (auto simp: sched_ok_def)
next
  case (publish t s)
  then have "ready_ok s t"
    by (simp add: sched_ok_def)
  then show ?case
    using publish by (intro sched_publish) (auto simp: ready_ok_def)
next
  case (block c s t)
  then show ?case
    by (intro sched_set_state [of s c]) (auto simp: holds_def)
next
  case (exits c s t)
  then show ?case
    by (intro sched_set_state [of s c]) (auto simp: holds_def)
next
  case (enter c s)
  then show ?case
    by (intro sched_set_phase) (auto simp: holds_def sched_ok_def core_ok_def phase_ok_def)
qed (blast intro: sched_select sched_kill sched_release sched_commit sched_finish sched_spawn sched_reap sched_pin)+

lemma sched_init_ok:
  assumes "sched_init s"
  shows "sched_ok s"
proof -
  have cpu: "pc_current (cpus (disp s) c) = None" "pc_switching_from (cpus (disp s) c) = None" "pc_total (cpus (disp s) c) = 0"
      "pc_queues (cpus (disp s) c) p = rq_init" "threads (disp s) (pc_idle (cpus (disp s) c)) = idle_thread c" "phases s c = Choosing"
    if "c < cpu_count (disp s)" for c p
    using that assms by (simp_all add: sched_init_def)
  have un: "unallocated s = {t. \<not> is_idle (disp s) t}" "0 < cpu_count (disp s)"
    using assms by (simp_all add: sched_init_def)
  have no_holds: "\<not> holds s c t" if "c < cpu_count (disp s)" for c t
    using cpu [OF that] by (simp add: holds_def)
  have th: "th_dispatch_cpu (threads (disp s) t) = None \<and> \<not> th_run_queued (threads (disp s) t)" for t
    using assms cpu(5) by (cases "is_idle (disp s) t") (auto simp: sched_init_def idle_thread_def is_idle_def)
  have its: "items (disp s) c p = []" if "c < cpu_count (disp s)" for c p
    using cpu(4) [OF that] by (simp add: items_def rq_items_def rq_init_def)
  have rq: "rq_ok n rq_init" for n
    by (simp add: rq_ok_def rq_items_def rq_init_def)
  have same: "c = k" if "c < cpu_count (disp s)" "k < cpu_count (disp s)" "pc_idle (cpus (disp s) c) = pc_idle (cpus (disp s) k)" for c k
  proof -
    have "idle_thread c = idle_thread k"
      using cpu(5) [OF that(1)] cpu(5) [OF that(2)] unfolding that(3) by (rule trans [OF sym])
    then show ?thesis
      by (simp add: idle_thread_def)
  qed
  have "claims_ok s" "queues_ok s" "totals_ok s" "\<forall>c<cpu_count (disp s). phase_ok s c"
    using th no_holds its cpu rq by (auto simp: claims_ok_def queues_ok_def totals_ok_def phase_ok_def) (simp add: rq_init_def)
  moreover have "idles_ok s"
    by (rule idles_okI) (use same cpu(5) no_holds un in \<open>auto simp: idle_thread_def is_idle_def\<close>)
  moreover have "threads_ok s"
    using th un cpu(5) by (auto simp: threads_ok_def is_idle_def idle_thread_def NUM_PRIOS_def)
  moreover have "ready_ok s t" for t
    using un cpu(5) assms by (auto simp: ready_ok_def is_idle_def idle_thread_def sched_init_def)
  ultimately show ?thesis
    using un by (simp add: sched_ok_def core_ok_def)
qed

lemma sched_reachable_ok: "sched_reachable s \<Longrightarrow> sched_ok s"
  by (induction rule: sched_reachable.induct) (auto intro: sched_init_ok sched_step_ok)

lemma walk_queue_chain:
  assumes "chain (links (disp s)) h ts" and "\<forall>t\<in>set ts. listed_ok s c p t"
  shows "walk_queue c p (disp s) (length ts) h l = Some (None, if ts = [] then l else Some (last ts))"
  using assms by (induction ts arbitrary: h l) (auto simp: listed_ok_def Let_def)

section \<open>Properties\<close>

text \<open>C25. A thread executes on one processor at a time: under every interleaving of scheduling on all
  processors with wake-ups, exits, signals, thread creation and reaping, a thread that is current on a
  processor is neither current nor still being left on another, so its kernel stack is never entered
  before the processor that left it has finished with it.\<close>

theorem thread_on_one_cpu:
  assumes "sched_reachable s" and "c < cpu_count (disp s)" and "k < cpu_count (disp s)"
    and "pc_current (cpus (disp s) c) = Some t"
    and "pc_current (cpus (disp s) k) = Some t \<or> pc_switching_from (cpus (disp s) k) = Some t"
  shows "k = c \<and> pc_switching_from (cpus (disp s) k) \<noteq> Some t"
proof -
  have core: "core_ok s"
    using sched_reachable_ok [OF assms(1)] by (simp add: sched_ok_def)
  have "k = c"
    using held_facts(4) [OF core assms(2) _ assms(3)] assms(4,5) by (auto simp: holds_def)
  moreover have "phase_ok s c"
    using core assms(2) by (simp add: core_ok_def)
  ultimately show ?thesis
    using assms(4) by (auto simp: phase_ok_def)
qed

text \<open>Two processors; thread 7 is created on the first, selected and switched to; then it exits and the processor
  switches to its idle thread.\<close>

definition demo_system :: system where
  "demo_system =
    \<lparr>disp = \<lparr>threads = (\<lambda>t. if t = 0 then idle_thread 0 else idle_thread 1), links = (\<lambda>_. None),
       cpus = (\<lambda>c. \<lparr>pc_current = None, pc_idle = c, pc_online = True, pc_queues = (\<lambda>_. rq_init), pc_total = 0, pc_switching_from = None\<rparr>),
       cpu_count = 2\<rparr>,
     phases = (\<lambda>_. Choosing), unallocated = - {0, 1}, newborn = {}\<rparr>"

definition demo_created :: system where
  "demo_created = demo_system\<lparr>disp := upd_thread 7 (\<lambda>_. new_thread 1 0) (disp demo_system),
     unallocated := unallocated demo_system - {7}, newborn := insert 7 (newborn demo_system)\<rparr>"

definition demo_spawned :: system where
  "demo_spawned = demo_created\<lparr>disp := enqueue 7 (disp demo_created), newborn := newborn demo_created - {7}\<rparr>"

definition demo_selected :: system where
  "demo_selected = set_phase 0 (Selected 7) (demo_spawned\<lparr>disp := snd (choose_thread 0 (disp demo_spawned))\<rparr>)"

definition demo_switching :: system where
  "demo_switching = set_phase 0 Switching (demo_selected\<lparr>disp := prepare_switch 0 7 (disp demo_selected)\<rparr>)"

definition demo_running :: system where
  "demo_running = set_phase 0 Executing (demo_switching\<lparr>disp := finish_switch 0 (disp demo_switching)\<rparr>)"

definition demo_exited :: system where
  "demo_exited = set_phase 0 Choosing (demo_running\<lparr>disp := set_state 7 TERMINATED (disp demo_running)\<rparr>)"

definition demo_leaving :: system where
  "demo_leaving = set_phase 0 (Selected 0) (demo_exited\<lparr>disp := snd (choose_thread 0 (disp demo_exited))\<rparr>)"

definition demo_left :: system where
  "demo_left = set_phase 0 Switching (demo_leaving\<lparr>disp := prepare_switch 0 0 (disp demo_leaving)\<rparr>)"

definition demo_ended :: system where
  "demo_ended = set_phase 0 Executing (demo_left\<lparr>disp := finish_switch 0 (disp demo_left)\<rparr>)"

lemma less_two: "(\<exists>c<(2 :: nat). P c) \<longleftrightarrow> P 0 \<or> P 1" "(\<forall>c<(2 :: nat). P c) \<longleftrightarrow> P 0 \<and> P 1"
  by (auto simp: less_2_cases_iff)

lemma demo_spawned_reachable: "sched_reachable demo_spawned"
proof -
  have "sched_init demo_system"
    by (auto simp: sched_init_def demo_system_def is_idle_def idle_thread_def less_two)
  then have "sched_reachable demo_system"
    by (rule sched_reachable.boot)
  moreover have "sched_step demo_system demo_created"
    unfolding demo_created_def by (rule sched_step.spawn) (simp_all add: demo_system_def NUM_PRIOS_def)
  ultimately have "sched_reachable demo_created"
    by (rule sched_reachable.step)
  moreover have "sched_step demo_created demo_spawned"
    unfolding demo_spawned_def by (rule sched_step.publish) (simp add: demo_created_def)
  ultimately show ?thesis
    by (rule sched_reachable.step)
qed

lemma demo_spawned_facts:
  "cpu_count (disp demo_spawned) = 2" "phases demo_spawned 0 = Choosing" "fst (choose_thread 0 (disp demo_spawned)) = 7"
  "th_state (threads (disp demo_spawned) 7) = READY" "\<not> is_idle (disp demo_spawned) 7" "7 \<notin> unallocated demo_spawned"
  by code_simp+

lemma demo_running_facts:
  "cpu_count (disp demo_selected) = 2" "pc_current (cpus (disp demo_selected) 0) = None" "cpu_count (disp demo_switching) = 2"
  "cpu_count (disp demo_running) = 2" "pc_current (cpus (disp demo_running) 0) = Some 7" "\<not> is_idle (disp demo_running) 7"
  "phases demo_running 0 = Executing"
  by code_simp+

lemma demo_running_reachable: "sched_reachable demo_running"
proof -
  have "sched_step demo_spawned demo_selected"
    unfolding demo_selected_def
    by (rule sched_step.select) (use demo_spawned_facts in \<open>simp_all add: prod_eq_iff\<close>)
  moreover have "sched_step demo_selected demo_switching"
    using sched_step.commit [of 0 demo_selected 7] demo_running_facts(1,2) by (simp add: demo_switching_def) (simp add: demo_selected_def)
  moreover have "sched_step demo_switching demo_running"
    unfolding demo_running_def by (rule sched_step.finish) (use demo_running_facts in \<open>simp_all add: demo_switching_def\<close>)
  ultimately show ?thesis
    using sched_reachable.step [OF sched_reachable.step [OF sched_reachable.step [OF demo_spawned_reachable]]] by simp
qed

lemma demo_ended_facts:
  "cpu_count (disp demo_exited) = 2" "phases demo_exited 0 = Choosing" "fst (choose_thread 0 (disp demo_exited)) = 0"
  "cpu_count (disp demo_leaving) = 2" "pc_current (cpus (disp demo_leaving) 0) = Some 7" "cpu_count (disp demo_left) = 2"
  "cpu_count (disp demo_ended) = 2" "reclaimable 7 (disp demo_ended)" "7 \<notin> unallocated demo_ended" "\<not> is_idle (disp demo_ended) 7"
  by code_simp+

lemma demo_ended_reachable: "sched_reachable demo_ended"
proof -
  let ?s = "demo_running\<lparr>disp := set_state 7 TERMINATED (disp demo_running)\<rparr>"
  have "sched_step demo_running ?s"
    by (rule sched_step.exits [of 0]) (use demo_running_facts in simp_all)
  moreover have "sched_step ?s demo_exited"
    unfolding demo_exited_def by (rule sched_step.enter) (use demo_running_facts in \<open>simp_all add: set_state_def\<close>)
  moreover have "sched_step demo_exited demo_leaving"
    unfolding demo_leaving_def by (rule sched_step.select) (use demo_ended_facts in \<open>simp_all add: prod_eq_iff\<close>)
  moreover have "sched_step demo_leaving demo_left"
    using sched_step.commit [of 0 demo_leaving 0] demo_ended_facts(4,5) by (simp add: demo_left_def) (simp add: demo_leaving_def)
  moreover have "sched_step demo_left demo_ended"
    unfolding demo_ended_def by (rule sched_step.finish) (use demo_ended_facts in \<open>simp_all add: demo_left_def\<close>)
  ultimately show ?thesis
    using sched_reachable.step [OF sched_reachable.step [OF sched_reachable.step [OF sched_reachable.step [OF sched_reachable.step [OF demo_running_reachable]]]]]
    by simp
qed

theorem thread_on_one_cpu_witness:
  "pc_current (cpus (disp demo_running) 0) = Some 7 \<and> pc_switching_from (cpus (disp demo_running) 0) \<noteq> Some 7"
  using thread_on_one_cpu [OF demo_running_reachable, of 0 0 7] demo_running_facts by simp

text \<open>C26. No wake-up is lost: waking any live thread, at any moment of any interleaving, leaves it
  runnable and either held by a processor, which runs it or will look at it when it leaves it, or in
  the run queue of its priority on the processor recorded as its last one.\<close>

theorem wake_not_lost:
  assumes "sched_reachable s" and "t \<notin> unallocated s" and "\<not> is_idle (disp s) t"
    and "th_state (threads (disp s) t) \<noteq> TERMINATED"
  shows "let d = enqueue t (disp s) in
    (th_state (threads d t) = READY \<or> th_state (threads d t) = RUNNING) \<and>
    ((\<exists>c<cpu_count d. holds s c t) \<or>
     t \<in> set (rq_items (links d) (pc_queues (cpus d (th_last_cpu (threads d t))) (th_priority (threads d t)))))"
proof -
  let ?s = "s\<lparr>disp := enqueue t (disp s), newborn := newborn s - {t}\<rparr>" and ?d = "enqueue t (disp s)"
  have ok: "sched_ok s"
    using assms(1) by (rule sched_reachable_ok)
  then have "sched_ok ?s"
    using assms(2,3) by (rule sched_publish)
  then have core: "core_ok ?s" and ready: "ready_ok ?s t"
    by (auto simp: sched_ok_def)
  have st: "th_state (threads ?d t) = READY \<or> th_state (threads ?d t) = RUNNING"
    using assms(4) by (cases "th_state (threads (disp s) t)") (auto simp: enqueue_def queue_locked_sel Let_def)
  have "t \<in> set (rq_items (links ?d) (pc_queues (cpus ?d (th_last_cpu (threads ?d t))) (th_priority (threads ?d t))))"
    if "th_state (threads ?d t) = READY" "\<not> (\<exists>c<cpu_count ?d. holds s c t)"
  proof -
    have "th_dispatch_cpu (threads ?d t) = None"
      using that(2) claimD [of s t] ok by (cases "th_dispatch_cpu (threads (disp s) t)") (auto simp: sched_ok_def enqueue_sel)
    then have "th_run_queued (threads (disp ?s) t)"
      using ready that(1) assms(2,3) by (simp add: ready_ok_def enqueue_sel)
    with core show ?thesis
      by (rule queuedD) (auto simp: listed_ok_def Let_def items_def)
  qed
  moreover have "\<exists>c<cpu_count ?d. holds s c t" if "th_state (threads ?d t) = RUNNING"
    using that ready assms(2) claimD [of s t] ok by (auto simp: ready_ok_def sched_ok_def enqueue_sel)
  ultimately show ?thesis
    using st by (auto simp: Let_def)
qed

theorem wake_not_lost_witness:
  "7 \<in> set (rq_items (links (enqueue 7 (disp demo_spawned))) (pc_queues (cpus (enqueue 7 (disp demo_spawned)) 0) 1))"
proof -
  have th: "th_last_cpu (threads (enqueue 7 (disp demo_spawned)) 7) = 0" "th_priority (threads (enqueue 7 (disp demo_spawned)) 7) = 1"
      "cpu_count (enqueue 7 (disp demo_spawned)) = 2" "\<not> holds demo_spawned 0 7" "\<not> holds demo_spawned 1 7"
    by code_simp+
  show ?thesis
    using wake_not_lost [OF demo_spawned_reachable demo_spawned_facts(6,5)] demo_spawned_facts(4) th by (simp add: Let_def less_two)
qed

text \<open>C27. The run queues are always consistent: the diagnostic traversal \<open>queues_valid\<close>, which follows the links
  of every queue for as many steps as the queue counts, checks the processor, the priority and the state of each thread
  it meets, must end at a null link with the tail as the last thread, and compares the total with the counter of the
  processor, succeeds in every reachable state with at most 65536 threads, the bound of the traversal.\<close>

theorem queues_always_valid:
  assumes "sched_reachable s" and "finite (- unallocated s)" and "card (- unallocated s) \<le> 65536"
  shows "queues_valid (disp s)"
proof -
  have core: "core_ok s"
    using sched_reachable_ok [OF assms(1)] by (simp add: sched_ok_def)
  have "queue_valid c p (disp s)" if "c < cpu_count (disp s)" "p < NUM_PRIOS" for c p
  proof -
    let ?q = "pc_queues (cpus (disp s) c) p" and ?ts = "items (disp s) c p"
    have q: "distinct ?ts" "rq_ok (links (disp s)) ?q" "\<forall>t\<in>set ?ts. listed_ok s c p t"
      using core that by (simp_all add: core_ok_def queues_ok_def)
    have "set ?ts \<subseteq> - unallocated s"
      using q(3) by (auto simp: listed_ok_def)
    then have "length ?ts \<le> card (- unallocated s)"
      using card_mono [OF assms(2)] distinct_card [OF q(1)] by metis
    moreover have "walk_queue c p (disp s) (length ?ts) (rq_head ?q) None = Some (None, if ?ts = [] then None else Some (last ?ts))"
      using walk_queue_chain [of s "rq_head ?q" ?ts c p None] q(2,3) by (simp add: rq_ok_def items_def)
    ultimately show ?thesis
      using q(2) assms(3) by (simp add: queue_valid_def Let_def rq_ok_def items_def)
  qed
  moreover have "sum_list (map (\<lambda>p. rq_count (pc_queues (cpus (disp s) c) p)) [0..<NUM_PRIOS]) = pc_total (cpus (disp s) c)"
    if "c < cpu_count (disp s)" for c
    using core that by (simp add: core_ok_def totals_ok_def interv_sum_list_conv_sum_set_nat atLeast0LessThan)
  ultimately show ?thesis
    by (simp add: queues_valid_def list_all_iff)
qed

theorem queues_always_valid_witness: "queues_valid (disp demo_spawned)"
proof -
  have "- unallocated demo_spawned = {0, 1, 7}"
    by (auto simp: demo_spawned_def demo_created_def demo_system_def)
  then show ?thesis
    using queues_always_valid [OF demo_spawned_reachable] by simp
qed

text \<open>C28. Reaping is safe: a thread that \<open>reclaimable\<close> allows the reaper to free is not current on any
  processor, not being left by any, not a selected candidate, and in no run queue, and that stays so until its
  memory is used for a new thread.\<close>

theorem reclaimable_unreferenced:
  assumes "sched_reachable s" and "reclaimable t (disp s) \<or> t \<in> unallocated s" and "c < cpu_count (disp s)"
  shows "\<not> holds s c t \<and> (\<forall>p<NUM_PRIOS. t \<notin> set (rq_items (links (disp s)) (pc_queues (cpus (disp s) c) p)))"
proof -
  have core: "core_ok s"
    using sched_reachable_ok [OF assms(1)] by (simp add: sched_ok_def)
  have "th_dispatch_cpu (threads (disp s) t) = None \<and> \<not> th_run_queued (threads (disp s) t)"
    using assms(2) core by (auto simp: reclaimable_def core_ok_def threads_ok_def split: if_splits)
  then show ?thesis
    using claimD [OF core, of t c] assms(3) core
    by (auto simp: core_ok_def queues_ok_def listed_ok_def items_def Let_def)
qed

theorem reclaimable_unreferenced_witness:
  "sched_reachable demo_ended \<and> 7 \<notin> unallocated demo_ended \<and> reclaimable 7 (disp demo_ended) \<and> \<not> holds demo_ended 0 7 \<and>
    7 \<notin> set (rq_items (links (disp demo_ended)) (pc_queues (cpus (disp demo_ended) 0) 1))"
  using reclaimable_unreferenced [OF demo_ended_reachable, of 7 0] demo_ended_reachable demo_ended_facts by (simp add: NUM_PRIOS_def)

end
