(* ===== verification/Vma.thy ===== *)
theory Vma
  imports Prelude
begin

text \<open>The memory areas of an address space (src/src/kernel/memory/vma.cpp, vma.hpp).  The red-black tree is
  kept as the sequence of its nodes in order, which is what \<open>first\<close>, \<open>next\<close> and the comparators show of it;
  \<open>insert\<close> puts a node after the nodes that do not compare greater.  A pointer to an area is its position in
  the sequence.  Every \<open>new vma()\<close> asks the allocation outcome \<open>mem\<close>, numbered within a call, and
  \<open>refs\<close> counts the references to backing nodes that the areas retain.\<close>

unbundle bit_operations_syntax

section \<open>State\<close>

type_synonym addr = nat

definition VMA_OWNS_FRAMES :: "32 word" where
  "VMA_OWNS_FRAMES = 0x80000000"

definition VMA_POPULATING :: "32 word" where
  "VMA_POPULATING = 0x40000000"

record vma =
  v_start :: addr
  v_end :: addr
  v_prot :: "32 word"
  v_flags :: "32 word"
  v_fd :: int
  v_offset :: int
  v_backing :: "nat option"

record vma_manager =
  tree :: "vma list"
  refs :: "nat \<Rightarrow> nat"

record address_space =
  vmas :: vma_manager
  next_mmap :: addr

definition vma_init :: "vma_manager \<Rightarrow> vma_manager" where
  "vma_init m = m\<lparr>tree := []\<rparr>"

text \<open>The counts of the backing node: \<open>retain\<close> and the destructor of the reference.\<close>

definition retain_backing :: "nat option \<Rightarrow> (nat \<Rightarrow> nat) \<Rightarrow> nat \<Rightarrow> nat" where
  "retain_backing b r = (case b of None \<Rightarrow> r | Some n \<Rightarrow> r(n := r n + 1))"

definition release_backing :: "nat option \<Rightarrow> (nat \<Rightarrow> nat) \<Rightarrow> nat \<Rightarrow> nat" where
  "release_backing b r = (case b of None \<Rightarrow> r | Some n \<Rightarrow> r(n := r n - 1))"

section \<open>Search\<close>

text \<open>\<open>vma_cmp\<close> as the order in which nodes are inserted, \<open>vma_find_cmp\<close> as the test for equality of an
  address with an area.\<close>

fun tree_insert :: "vma \<Rightarrow> vma list \<Rightarrow> vma list" where
  "tree_insert v [] = [v]"
| "tree_insert v (u # us) = (if v_start v < v_start u then v # u # us else u # tree_insert v us)"

definition contains :: "vma \<Rightarrow> addr \<Rightarrow> bool" where
  "contains r a \<longleftrightarrow> \<not> a < v_start r \<and> \<not> a \<ge> v_end r"

definition find_index :: "(vma \<Rightarrow> bool) \<Rightarrow> vma list \<Rightarrow> nat option" where
  "find_index P rs = List.find (\<lambda>i. P (rs ! i)) [0..<length rs]"

definition vma_find :: "vma list \<Rightarrow> addr \<Rightarrow> nat option" where
  "vma_find rs a = find_index (\<lambda>r. contains r a) rs"

fun first_overlap_from :: "nat \<Rightarrow> vma list \<Rightarrow> addr \<Rightarrow> addr \<Rightarrow> nat option" where
  "first_overlap_from i [] s e = None"
| "first_overlap_from i (r # rs) s e =
    (if v_start r \<ge> e then None else if v_end r > s then Some i else first_overlap_from (i + 1) rs s e)"

definition first_overlap :: "vma list \<Rightarrow> addr \<Rightarrow> addr \<Rightarrow> nat option" where
  "first_overlap rs s e = (if s \<ge> e then None else first_overlap_from 0 rs s e)"

definition vma_advance :: "vma list \<Rightarrow> nat \<Rightarrow> nat option" where
  "vma_advance rs i = (if i + 1 < length rs then Some (i + 1) else None)"

section \<open>Operations\<close>

text \<open>The result of \<open>split\<close>: nothing to split, out of memory, or the position of the right part.\<close>

datatype split_result = Unsplit | No_memory | Split nat

definition right_part :: "vma \<Rightarrow> addr \<Rightarrow> vma" where
  "right_part r at = r\<lparr>v_start := at, v_offset := v_offset r + int (at - v_start r)\<rparr>"

definition vma_split :: "bool \<Rightarrow> nat \<Rightarrow> addr \<Rightarrow> vma_manager \<Rightarrow> split_result \<times> vma_manager" where
  "vma_split mem i at m =
    (let r = tree m ! i in
     if at \<le> v_start r \<or> at \<ge> v_end r then (Unsplit, m)
     else if \<not> mem then (No_memory, m)
     else
       let right = right_part r at;
           rs = tree_insert right ((tree m)[i := r\<lparr>v_end := at\<rparr>])
       in (Split (the (find_index (\<lambda>u. u = right) rs)), m\<lparr>tree := rs, refs := retain_backing (v_backing r) (refs m)\<rparr>))"

definition vma_insert ::
  "bool \<Rightarrow> addr \<Rightarrow> addr \<Rightarrow> 32 word \<Rightarrow> 32 word \<Rightarrow> int \<Rightarrow> int \<Rightarrow> nat option \<Rightarrow> vma_manager \<Rightarrow> bool \<times> vma_manager" where
  "vma_insert mem s e prot flags fd offset backing m =
    (if s \<ge> e \<or> first_overlap (tree m) s e \<noteq> None then (False, m)
     else if \<not> mem then (False, m)
     else
       (True, m\<lparr>tree := tree_insert \<lparr>v_start = s, v_end = e, v_prot = prot, v_flags = flags, v_fd = fd, v_offset = offset,
                  v_backing = backing\<rparr> (tree m), refs := retain_backing backing (refs m)\<rparr>))"

function covers_from :: "vma list \<Rightarrow> addr \<Rightarrow> addr \<Rightarrow> bool" where
  "covers_from rs cursor e =
    (if cursor < e then
       case vma_find rs cursor of
         None \<Rightarrow> False
       | Some i \<Rightarrow> if v_end (rs ! i) \<le> cursor then False else covers_from rs (v_end (rs ! i)) e
     else True)"
  by pat_completeness auto
termination
  by (relation "measure (\<lambda>(rs, cursor, e). e - cursor)") auto

declare covers_from.simps [simp del]

definition covers :: "vma list \<Rightarrow> addr \<Rightarrow> addr \<Rightarrow> bool" where
  "covers rs s e \<longleftrightarrow> \<not> s \<ge> e \<and> covers_from rs s e"

definition isolate :: "(nat \<Rightarrow> bool) \<Rightarrow> addr \<Rightarrow> addr \<Rightarrow> vma_manager \<Rightarrow> bool \<times> vma_manager" where
  "isolate mem s e m =
    (if s \<ge> e then (False, m)
     else
       case first_overlap (tree m) s e of
         None \<Rightarrow> (True, m)
       | Some i \<Rightarrow>
           let (r, m) = (if v_start (tree m ! i) < s then vma_split (mem 0) i s m else (Unsplit, m)) in
           if r = No_memory then (False, m)
           else
             case vma_find (tree m) (e - 1) of
               None \<Rightarrow> (True, m)
             | Some j \<Rightarrow>
                 if v_end (tree m ! j) > e then
                   let (r, m) = vma_split (mem 1) j e m in (r \<noteq> No_memory, m)
                 else (True, m))"

text \<open>The two walks of \<open>set_prot\<close> from an area on, while areas start below \<open>e\<close>.\<close>

fun crossing_from :: "nat \<Rightarrow> vma list \<Rightarrow> addr \<Rightarrow> nat option" where
  "crossing_from i [] e = None"
| "crossing_from i (r # rs) e =
    (if v_start r < e then if v_end r > e then Some i else crossing_from (i + 1) rs e else None)"

fun prot_from :: "32 word \<Rightarrow> addr \<Rightarrow> vma list \<Rightarrow> vma list" where
  "prot_from prot e [] = []"
| "prot_from prot e (r # rs) = (if v_start r < e then r\<lparr>v_prot := prot\<rparr> # prot_from prot e rs else r # rs)"

definition set_prot :: "(nat \<Rightarrow> bool) \<Rightarrow> addr \<Rightarrow> addr \<Rightarrow> 32 word \<Rightarrow> vma_manager \<Rightarrow> bool \<times> vma_manager" where
  "set_prot mem s e prot m =
    (if \<not> covers (tree m) s e then (False, m)
     else
       case vma_find (tree m) s of None \<Rightarrow> (False, m) | Some i \<Rightarrow>
       let (r, m) = (if v_start (tree m ! i) < s then vma_split (mem 0) i s m else (Unsplit, m)) in
       if r = No_memory then (False, m)
       else
         let i = (case r of Split j \<Rightarrow> j | _ \<Rightarrow> i);
             (r, m) = (case crossing_from i (drop i (tree m)) e of
                         None \<Rightarrow> (Unsplit, m)
                       | Some j \<Rightarrow> vma_split (mem 1) j e m)
         in if r = No_memory then (False, m)
            else (True, m\<lparr>tree := take i (tree m) @ prot_from prot e (drop i (tree m))\<rparr>))"

fun span_of :: "vma list \<Rightarrow> addr \<Rightarrow> addr \<Rightarrow> vma option" where
  "span_of [] s e = None"
| "span_of (r # rs) s e =
    (if v_start r \<ge> e then None else if v_start r < s \<and> v_end r > e then Some r else span_of rs s e)"

definition overlaps :: "addr \<Rightarrow> addr \<Rightarrow> vma \<Rightarrow> bool" where
  "overlaps s e r \<longleftrightarrow> v_start r < e \<and> v_end r > s"

text \<open>One pass of the loop of \<open>remove\<close> over the area at \<open>i\<close>, with the preallocated right part of an area
  that spans the range; the code relies on it when it meets such an area.\<close>

definition remove_one :: "addr \<Rightarrow> addr \<Rightarrow> nat \<Rightarrow> vma option \<Rightarrow> vma_manager \<Rightarrow> vma option \<times> vma_manager" where
  "remove_one s e i right m =
    (let r = tree m ! i in
     if v_start r \<ge> s \<and> v_end r \<le> e then
       (right, m\<lparr>tree := take i (tree m) @ drop (i + 1) (tree m), refs := release_backing (v_backing r) (refs m)\<rparr>)
     else if v_start r < s \<and> v_end r > e then
       (None, m\<lparr>tree := (case right of None \<Rightarrow> (tree m)[i := r\<lparr>v_end := s\<rparr>]
                         | Some q \<Rightarrow> tree_insert q ((tree m)[i := r\<lparr>v_end := s\<rparr>]))\<rparr>)
     else if v_start r < s then (right, m\<lparr>tree := (tree m)[i := r\<lparr>v_end := s\<rparr>]\<rparr>)
     else (right, m\<lparr>tree := (tree m)[i := r\<lparr>v_offset := v_offset r + int (e - v_start r), v_start := e\<rparr>]\<rparr>))"

lemma first_overlap_from_Some:
  "first_overlap_from k rs s e = Some i \<Longrightarrow>
    k \<le> i \<and> i < k + length rs \<and> overlaps s e (rs ! (i - k)) \<and> (\<forall>j<i - k. \<not> overlaps s e (rs ! j))"
proof (induction rs arbitrary: k)
  case (Cons r rs)
  show ?case
  proof (cases "v_start r < e \<and> v_end r > s")
    case True
    then show ?thesis
      using Cons.prems by (auto simp: overlaps_def)
  next
    case False
    then have rest: "first_overlap_from (k + 1) rs s e = Some i" "\<not> overlaps s e r"
      using Cons.prems by (auto simp: overlaps_def split: if_splits)
    note ih = Cons.IH [OF rest(1)]
    then have "k + 1 \<le> i"
      by blast
    then have "i - k = Suc (i - (k + 1))"
      by simp
    then show ?thesis
      using ih rest(2) by (auto simp: less_Suc_eq_0_disj)
  qed
qed simp

lemma first_overlap_Some:
  assumes "first_overlap rs s e = Some i"
  shows "i < length rs" "overlaps s e (rs ! i)" "s < e"
  using assms first_overlap_from_Some [of 0 rs s e i] by (auto simp: first_overlap_def split: if_splits)

lemma nth_split: "i < length xs \<Longrightarrow> xs = take i xs @ xs ! i # drop (Suc i) xs"
  by (rule id_take_nth_drop)

lemma length_filter_remove:
  assumes "i < length xs" and "P (xs ! i)"
  shows "length (filter P (take i xs @ drop (Suc i) xs)) < length (filter P xs)"
  by (subst (3) nth_split [OF assms(1)]) (simp add: assms(2))

lemma length_filter_tree_insert: "length (filter P (tree_insert q rs)) = length (filter P rs) + (if P q then 1 else 0)"
  by (induction rs) auto

text \<open>Every pass leaves fewer areas that meet the range, or uses up the right part.\<close>

definition remaining :: "addr \<Rightarrow> addr \<Rightarrow> vma option \<Rightarrow> vma_manager \<Rightarrow> nat" where
  "remaining s e right m = length (filter (overlaps s e) (tree m)) + (if right = None then 0 else 1)"

lemma remove_one_less:
  assumes "first_overlap (tree m) s e = Some i"
  shows "remaining s e (fst (remove_one s e i right m)) (snd (remove_one s e i right m)) < remaining s e right m"
proof -
  let ?r = "tree m ! i"
  note i = first_overlap_Some [OF assms]
  have "\<not> overlaps s e (?r\<lparr>v_end := s\<rparr>)" "\<not> overlaps s e (?r\<lparr>v_offset := v_offset ?r + int (e - v_start ?r), v_start := e\<rparr>)"
    by (simp_all add: overlaps_def)
  note less = filter_update_less [of i "tree m" "overlaps s e", OF i(1,2) this(1)]
    filter_update_less [of i "tree m" "overlaps s e", OF i(1,2) this(2)] length_filter_remove [of i "tree m" "overlaps s e", OF i(1,2)]
  show ?thesis
    using less by (auto simp: remove_one_def remaining_def Let_def length_filter_tree_insert split: option.splits)
qed

function remove_loop :: "addr \<Rightarrow> addr \<Rightarrow> vma option \<Rightarrow> vma_manager \<Rightarrow> vma option \<times> vma_manager" where
  "remove_loop s e right m =
    (case first_overlap (tree m) s e of
       None \<Rightarrow> (right, m)
     | Some i \<Rightarrow> remove_loop s e (fst (remove_one s e i right m)) (snd (remove_one s e i right m)))"
  by pat_completeness auto
termination
  by (relation "measure (\<lambda>(s, e, right, m). remaining s e right m)") (simp_all add: remove_one_less case_prod_unfold)

declare remove_loop.simps [simp del]

definition vma_remove :: "bool \<Rightarrow> addr \<Rightarrow> nat \<Rightarrow> vma_manager \<Rightarrow> bool \<times> vma_manager" where
  "vma_remove mem s len m =
    (if len = 0 then (True, m)
     else if wadd 64 s len < s then (False, m)
     else
       let e = wadd 64 s len in
       case span_of (tree m) s e of
         None \<Rightarrow>
           let (right, m) = remove_loop s e None m in (True, m)
       | Some r \<Rightarrow>
           if \<not> mem then (False, m)
           else
             let (right, m) = remove_loop s e (Some (right_part r e)) (m\<lparr>refs := retain_backing (v_backing r) (refs m)\<rparr>)
             in (True, case right of None \<Rightarrow> m | Some q \<Rightarrow> m\<lparr>refs := release_backing (v_backing q) (refs m)\<rparr>))"

definition owns_frame :: "addr \<Rightarrow> vma_manager \<Rightarrow> bool" where
  "owns_frame a m =
    (case vma_find (tree m) a of None \<Rightarrow> True | Some i \<Rightarrow> v_flags (tree m ! i) AND VMA_OWNS_FRAMES \<noteq> 0)"

fun destroy_tree :: "vma list \<Rightarrow> (nat \<Rightarrow> nat) \<Rightarrow> nat \<Rightarrow> nat" where
  "destroy_tree [] r = r"
| "destroy_tree (v # vs) r = destroy_tree vs (release_backing (v_backing v) r)"

definition destroy_all :: "vma_manager \<Rightarrow> vma_manager" where
  "destroy_all m = \<lparr>tree = [], refs = destroy_tree (tree m) (refs m)\<rparr>"

text \<open>The base of automatic mappings is that of the amd64 build.\<close>

definition create_mm :: "bool \<Rightarrow> address_space option" where
  "create_mm mem = (if mem then Some \<lparr>vmas = \<lparr>tree = [], refs = (\<lambda>_. 0)\<rparr>, next_mmap = 0xA000000000\<rparr> else None)"

definition destroy_mm :: "address_space option \<Rightarrow> vma_manager option" where
  "destroy_mm mm = map_option (\<lambda>a. destroy_all (vmas a)) mm"

section \<open>Well-formed areas and the mapping they describe\<close>

text \<open>The areas are not empty, in order and disjoint, and every reference to a backing node belongs to an
  area.\<close>

definition areas_ok :: "vma list \<Rightarrow> bool" where
  "areas_ok rs \<longleftrightarrow> sorted_wrt (\<lambda>r q. v_end r \<le> v_start q) rs \<and> (\<forall>r\<in>set rs. v_start r < v_end r)"

definition refs_of :: "vma list \<Rightarrow> nat \<Rightarrow> nat" where
  "refs_of rs n = length (filter (\<lambda>r. v_backing r = Some n) rs)"

definition manager_ok :: "vma_manager \<Rightarrow> bool" where
  "manager_ok m \<longleftrightarrow> areas_ok (tree m) \<and> refs m = refs_of (tree m)"

text \<open>The abstract view: what is mapped at an address, with the file position behind that byte.\<close>

type_synonym attributes = "32 word \<times> 32 word \<times> int \<times> int \<times> nat option"

definition attr_at :: "vma \<Rightarrow> addr \<Rightarrow> attributes" where
  "attr_at r a = (v_prot r, v_flags r, v_fd r, v_offset r + int (a - v_start r), v_backing r)"

fun mapping :: "vma list \<Rightarrow> addr \<Rightarrow> attributes option" where
  "mapping [] a = None"
| "mapping (r # rs) a = (if contains r a then Some (attr_at r a) else mapping rs a)"

lemma mapping_append: "mapping (rs @ qs) a = (case mapping rs a of None \<Rightarrow> mapping qs a | Some x \<Rightarrow> Some x)"
  by (induction rs) auto

lemma mapping_None: "mapping rs a = None \<longleftrightarrow> (\<forall>r\<in>set rs. \<not> contains r a)"
  by (induction rs) auto

lemma areas_ok_simps [simp]:
  "areas_ok []"
  "areas_ok (r # rs) \<longleftrightarrow> v_start r < v_end r \<and> (\<forall>q\<in>set rs. v_end r \<le> v_start q) \<and> areas_ok rs"
  "areas_ok (rs @ qs) \<longleftrightarrow> areas_ok rs \<and> areas_ok qs \<and> (\<forall>r\<in>set rs. \<forall>q\<in>set qs. v_end r \<le> v_start q)"
  by (auto simp: areas_ok_def sorted_wrt_append)

lemma areas_ok_nonempty: "areas_ok rs \<Longrightarrow> r \<in> set rs \<Longrightarrow> v_start r < v_end r"
  by (simp add: areas_ok_def)

lemma refs_of_simps [simp]:
  "refs_of [] n = 0" "refs_of (r # rs) n = (if v_backing r = Some n then 1 else 0) + refs_of rs n"
  "refs_of (rs @ qs) n = refs_of rs n + refs_of qs n"
  by (simp_all add: refs_of_def)

lemma backing_counts:
  "retain_backing b r n = r n + (if b = Some n then 1 else 0)" "release_backing b r n = r n - (if b = Some n then 1 else 0)"
  by (auto simp: retain_backing_def release_backing_def split: option.splits)

lemma find_index_Some: "find_index P rs = Some i \<Longrightarrow> i < length rs \<and> P (rs ! i)"
  by (auto simp: find_index_def find_Some_iff)

lemma find_index_first: "i < length rs \<Longrightarrow> P (rs ! i) \<Longrightarrow> (\<And>j. j < i \<Longrightarrow> \<not> P (rs ! j)) \<Longrightarrow> find_index P rs = Some i"
  by (auto simp: find_index_def find_Some_iff)

lemma find_index_None: "find_index P rs = None \<longleftrightarrow> (\<forall>r\<in>set rs. \<not> P r)"
  by (force simp: find_index_def find_None_iff in_set_conv_nth)

lemma mapping_find:
  "mapping rs a = map_option (\<lambda>i. attr_at (rs ! i) a) (vma_find rs a)"
proof (cases "vma_find rs a")
  case None
  then show ?thesis
    using mapping_None [of rs a] by (simp add: vma_find_def find_index_None)
next
  case (Some i)
  then have i: "i < length rs" "contains (rs ! i) a" and before: "\<And>j. j < i \<Longrightarrow> \<not> contains (rs ! j) a"
    by (auto simp: vma_find_def find_index_def find_Some_iff)
  have "mapping (take i rs) a = None"
    using before by (auto simp: mapping_None in_set_conv_nth)
  then have "mapping (take i rs @ rs ! i # drop (Suc i) rs) a = Some (attr_at (rs ! i) a)"
    using i(2) by (simp add: mapping_append)
  then show ?thesis
    using Some nth_split [OF i(1)] by simp
qed

lemma tree_insert_mid:
  "(\<forall>u\<in>set p. v_start u \<le> v_start v) \<Longrightarrow> (\<forall>u\<in>set q. v_start v < v_start u) \<Longrightarrow> tree_insert v (p @ q) = p @ v # q"
proof (induction p)
  case Nil
  then show ?case
    by (cases q) auto
qed auto

section \<open>Splitting\<close>

lemma right_part_sel [simp]:
  "v_start (right_part r at) = at" "v_end (right_part r at) = v_end r" "v_backing (right_part r at) = v_backing r"
  "v_prot (right_part r at) = v_prot r" "v_flags (right_part r at) = v_flags r"
  by (simp_all add: right_part_def)

lemma attr_at_right: "v_start r \<le> at \<Longrightarrow> at \<le> a \<Longrightarrow> attr_at (right_part r at) a = attr_at r a"
  by (auto simp: attr_at_def right_part_def)

lemma tree_insert_right:
  assumes "areas_ok (p @ r # q)" and "v_start r \<le> k" "k \<le> at" "at < v_end r"
  shows "tree_insert (right_part r at) (p @ r\<lparr>v_end := k\<rparr> # q) = p @ r\<lparr>v_end := k\<rparr> # right_part r at # q"
proof -
  have "v_start u \<le> at" if "u \<in> set p" for u
    using that assms areas_ok_nonempty [of p u] by fastforce
  then have "tree_insert (right_part r at) ((p @ [r\<lparr>v_end := k\<rparr>]) @ q) = (p @ [r\<lparr>v_end := k\<rparr>]) @ right_part r at # q"
    using assms by (intro tree_insert_mid) auto
  then show ?thesis
    by simp
qed

lemma vma_split_cases:
  assumes ok: "manager_ok m" and i: "i < length (tree m)"
  obtains (keep) "vma_split mem i at m = (Unsplit, m)" "at \<le> v_start (tree m ! i) \<or> v_end (tree m ! i) \<le> at"
  | (fail) "vma_split mem i at m = (No_memory, m)" "\<not> mem" "v_start (tree m ! i) < at" "at < v_end (tree m ! i)"
  | (split) "vma_split mem i at m = (Split (Suc i),
      m\<lparr>tree := take i (tree m) @ (tree m ! i)\<lparr>v_end := at\<rparr> # right_part (tree m ! i) at # drop (Suc i) (tree m),
        refs := retain_backing (v_backing (tree m ! i)) (refs m)\<rparr>)"
      "v_start (tree m ! i) < at" "at < v_end (tree m ! i)"
proof -
  let ?r = "tree m ! i" and ?p = "take i (tree m)" and ?q = "drop (Suc i) (tree m)"
  have tree: "tree m = ?p @ ?r # ?q"
    using i by (rule nth_split)
  then have areas: "areas_ok (?p @ ?r # ?q)"
    using ok by (simp add: manager_ok_def)
  show ?thesis
  proof (cases "at \<le> v_start ?r \<or> v_end ?r \<le> at")
    case True
    then show ?thesis
      by (intro keep) (auto simp: vma_split_def)
  next
    case False
    then have in_r: "v_start ?r < at" "at < v_end ?r"
      by simp_all
    let ?new = "?p @ ?r\<lparr>v_end := at\<rparr> # right_part ?r at # ?q"
    have ins: "tree_insert (right_part ?r at) ((tree m)[i := ?r\<lparr>v_end := at\<rparr>]) = ?new"
      using tree_insert_right [OF areas, of at at] in_r i by (simp add: upd_conv_take_nth_drop)
    have "find_index (\<lambda>u. u = right_part ?r at) ?new = Some (Suc i)"
    proof (rule find_index_first)
      fix j
      assume j: "j < Suc i"
      have "v_start (?new ! j) \<noteq> at"
      proof (cases "j = i")
        case False
        then have "?new ! j \<in> set ?p"
          using j i by (auto simp: nth_append in_set_conv_nth intro!: exI [of _ j])
        then show ?thesis
          using areas areas_ok_nonempty [of ?p "?new ! j"] in_r by fastforce
      qed (use i in_r in \<open>simp add: nth_append\<close>)
      then show "?new ! j \<noteq> right_part ?r at"
        by auto
    qed (use i in \<open>simp_all add: nth_append\<close>)
    then have run: "vma_split mem i at m = (if \<not> mem then (No_memory, m)
        else (Split (Suc i), m\<lparr>tree := ?new, refs := retain_backing (v_backing ?r) (refs m)\<rparr>))"
      using False ins by (auto simp: vma_split_def Let_def)
    show ?thesis
      using run in_r fail split by (cases mem) simp_all
  qed
qed

lemma mapping_split:
  assumes "v_start r \<le> at" and "at \<le> v_end r"
  shows "mapping (p @ r\<lparr>v_end := at\<rparr> # right_part r at # q) a = mapping (p @ r # q) a"
  using assms by (auto simp: mapping_append contains_def attr_at_def right_part_def split: option.splits)

text \<open>A split changes neither the mapping nor the invariant.\<close>

lemma vma_split_ok:
  assumes ok: "manager_ok m" and i: "i < length (tree m)" and run: "vma_split mem i at m = (r, m')"
  shows "manager_ok m'" "mapping (tree m') a = mapping (tree m) a"
proof -
  have tree: "tree m = take i (tree m) @ tree m ! i # drop (Suc i) (tree m)"
    using i by (rule nth_split)
  then have areas: "areas_ok (take i (tree m) @ tree m ! i # drop (Suc i) (tree m))"
    using ok by (simp add: manager_ok_def)
  have refs: "refs m n = refs_of (take i (tree m) @ tree m ! i # drop (Suc i) (tree m)) n" for n
    using ok tree by (simp add: manager_ok_def)
  have "manager_ok m' \<and> mapping (tree m') a = mapping (tree m) a"
    using ok i
  proof (cases rule: vma_split_cases [where mem = mem and at = at])
    case split
    have "mapping (tree m) a = mapping (take i (tree m) @ tree m ! i # drop (Suc i) (tree m)) a"
      using tree by simp
    then show ?thesis
      using split run areas refs by (auto simp: manager_ok_def fun_eq_iff backing_counts mapping_split)
  qed (use run ok in auto)
  then show "manager_ok m'" "mapping (tree m') a = mapping (tree m) a"
    by simp_all
qed

section \<open>Overlap and coverage\<close>

lemma first_overlap_from_None:
  "areas_ok rs \<Longrightarrow> first_overlap_from k rs s e = None \<Longrightarrow> r \<in> set rs \<Longrightarrow> \<not> overlaps s e r"
proof (induction rs arbitrary: k)
  case (Cons q rs)
  have "v_start r \<ge> e" if "v_start q \<ge> e" "r \<in> set rs"
    using that Cons.prems(1) by fastforce
  then show ?case
    using Cons by (auto simp: overlaps_def split: if_splits)
qed simp

lemma first_overlap_None: "areas_ok rs \<Longrightarrow> s < e \<Longrightarrow> first_overlap rs s e = None \<longleftrightarrow> (\<forall>r\<in>set rs. \<not> overlaps s e r)"
  using first_overlap_from_None [of rs 0 s e] first_overlap_Some(1,2) [of rs s e]
  by (cases "first_overlap rs s e") (auto simp: first_overlap_def dest: nth_mem)

lemma contains_overlaps: "contains r a \<Longrightarrow> s \<le> a \<Longrightarrow> a < e \<Longrightarrow> overlaps s e r"
  by (simp add: contains_def overlaps_def)

lemma overlaps_contains: "v_start r < v_end r \<Longrightarrow> s < e \<Longrightarrow> overlaps s e r \<Longrightarrow> \<exists>a. s \<le> a \<and> a < e \<and> contains r a"
  by (rule exI [of _ "max s (v_start r)"]) (auto simp: overlaps_def contains_def)

text \<open>There is an overlap exactly when something is mapped in the range.\<close>

lemma first_overlap_mapping:
  assumes "areas_ok rs" and "s < e"
  shows "first_overlap rs s e = None \<longleftrightarrow> (\<forall>a. s \<le> a \<and> a < e \<longrightarrow> mapping rs a = None)"
proof -
  have "(\<forall>r\<in>set rs. \<not> overlaps s e r) \<longleftrightarrow> (\<forall>a. s \<le> a \<and> a < e \<longrightarrow> (\<forall>r\<in>set rs. \<not> contains r a))"
    using contains_overlaps overlaps_contains [OF areas_ok_nonempty [OF assms(1)] assms(2)] by blast
  then show ?thesis
    using first_overlap_None [OF assms] by (simp add: mapping_None)
qed

lemma vma_find_Some:
  assumes "vma_find rs a = Some i"
  shows "i < length rs" "contains (rs ! i) a"
  using assms find_index_Some by (auto simp: vma_find_def)

lemma vma_find_None: "vma_find rs a = None \<longleftrightarrow> mapping rs a = None"
  by (simp add: mapping_find)

lemma mapping_in_area: "areas_ok rs \<Longrightarrow> r \<in> set rs \<Longrightarrow> contains r a \<Longrightarrow> mapping rs a \<noteq> None"
  using mapping_None by blast

lemma covers_from_iff:
  assumes "areas_ok rs"
  shows "covers_from rs c e \<longleftrightarrow> (\<forall>a. c \<le> a \<and> a < e \<longrightarrow> mapping rs a \<noteq> None)"
proof (induction rs c e rule: covers_from.induct)
  case (1 rs c e)
  show ?case
  proof (cases "c < e")
    case True
    show ?thesis
    proof (cases "vma_find rs c")
      case None
      have "\<not> covers_from rs c e"
        using None True by (subst covers_from.simps) simp
      moreover have "mapping rs c = None"
        using None by (simp add: vma_find_None)
      ultimately show ?thesis
        using True by blast
    next
      case (Some i)
      note i = vma_find_Some [OF Some]
      have more: "v_end (rs ! i) > c"
        using i(2) by (simp add: contains_def)
      then have run: "covers_from rs c e = covers_from rs (v_end (rs ! i)) e"
        using True Some by (subst covers_from.simps) simp
      have here: "mapping rs a \<noteq> None" if "c \<le> a" "a < v_end (rs ! i)" for a
        using that i by (auto simp: mapping_None contains_def intro!: bexI [of _ "rs ! i"])
      have "(\<forall>a. v_end (rs ! i) \<le> a \<and> a < e \<longrightarrow> mapping rs a \<noteq> None) = (\<forall>a. c \<le> a \<and> a < e \<longrightarrow> mapping rs a \<noteq> None)"
        using here more by (meson le_less_linear less_imp_le order_trans)
      then show ?thesis
        using run 1 [OF True Some] more by simp
    qed
  next
    case False
    then show ?thesis
      by (subst covers_from.simps) auto
  qed
qed

lemma covers_iff: "areas_ok rs \<Longrightarrow> covers rs s e \<longleftrightarrow> s < e \<and> (\<forall>a. s \<le> a \<and> a < e \<longrightarrow> mapping rs a \<noteq> None)"
  using covers_from_iff by (auto simp: covers_def)

section \<open>Removal\<close>

text \<open>What holds between two passes: the right part of a spanning area is at hand, and it owns a
  reference.\<close>

definition removing :: "addr \<Rightarrow> addr \<Rightarrow> vma option \<Rightarrow> vma_manager \<Rightarrow> bool" where
  "removing s e right m \<longleftrightarrow>
     areas_ok (tree m) \<and> (\<forall>r\<in>set (tree m). v_start r < s \<and> v_end r > e \<longrightarrow> right = Some (right_part r e)) \<and>
     (\<forall>n. refs m n = refs_of (tree m) n + (case right of None \<Rightarrow> 0 | Some q \<Rightarrow> refs_of [q] n))"

text \<open>A pass replaces one area by the areas of what remains of it.\<close>

lemma removing_replace:
  assumes "removing s e right m" and "tree m = p @ r # q" and "tree m' = p @ xs @ q" and "s < e"
    and "areas_ok xs" and "\<forall>x\<in>set xs. v_start r \<le> v_start x \<and> v_end x \<le> v_end r \<and> \<not> (v_start x < s \<and> v_end x > e)"
    and "right' = right \<or> right' = None \<and> v_start r < s \<and> v_end r > e"
    and "\<And>n. refs m' n + refs_of (r # (case right of None \<Rightarrow> [] | Some q \<Rightarrow> [q])) n =
      refs m n + refs_of (xs @ (case right' of None \<Rightarrow> [] | Some q \<Rightarrow> [q])) n"
    and "\<And>a. \<not> (s \<le> a \<and> a < e) \<Longrightarrow> mapping xs a = mapping [r] a"
  shows "removing s e right' m'" "\<not> (s \<le> a \<and> a < e) \<Longrightarrow> mapping (tree m') a = mapping (tree m) a"
proof -
  have areas: "areas_ok (p @ r # q)"
    using assms(1,2) by (simp add: removing_def)
  have other: "\<not> (v_start u < s \<and> v_end u > e)" if "u \<in> set p \<union> set q" "v_start r < s" "v_end r > e" for u
    using that areas assms(4) by fastforce
  have "areas_ok (tree m')"
    using areas assms(3,5,6) by fastforce
  moreover have "\<forall>u\<in>set (tree m'). v_start u < s \<and> v_end u > e \<longrightarrow> right' = Some (right_part u e)"
    using assms(1-3,6,7) other by (auto simp: removing_def)
  moreover have "refs m' n = refs_of (tree m') n + (case right' of None \<Rightarrow> 0 | Some q \<Rightarrow> refs_of [q] n)" for n
    using assms(1) assms(8) [of n] by (cases right; cases right') (simp_all add: removing_def assms(2,3))
  ultimately show "removing s e right' m'"
    by (simp add: removing_def)
  show "mapping (tree m') a = mapping (tree m) a" if "\<not> (s \<le> a \<and> a < e)"
    using assms(9) [OF that] by (simp add: assms(2,3) mapping_append split: option.splits)
qed

lemma remove_one_ok:
  assumes ok: "removing s e right m" and i: "first_overlap (tree m) s e = Some i" and run: "remove_one s e i right m = (right', m')"
  shows "removing s e right' m' \<and> (\<forall>a. \<not> (s \<le> a \<and> a < e) \<longrightarrow> mapping (tree m') a = mapping (tree m) a)"
proof -
  define r where "r = tree m ! i"
  define p where "p = take i (tree m)"
  define q where "q = drop (Suc i) (tree m)"
  note i = first_overlap_Some [OF i]
  have t: "tree m = p @ r # q"
    unfolding p_def q_def r_def by (rule nth_split [OF i(1)])
  have upd: "(tree m)[i := x] = p @ x # q" for x
    using i(1) by (simp add: p_def q_def upd_conv_take_nth_drop)
  have areas: "areas_ok (p @ r # q)"
    using ok t by (simp add: removing_def)
  have ov: "v_start r < e" "v_end r > s" "s < e"
    using i(2,3) by (simp_all add: overlaps_def r_def)
  have spare: "right = Some (right_part r e)" if "v_start r < s" "v_end r > e"
    using that ok t by (simp add: removing_def)
  have ref: "1 \<le> refs m n" if "v_backing r = Some n" for n
    using that ok t by (simp add: removing_def)
  define xs where "xs = (if v_start r \<ge> s \<and> v_end r \<le> e then []
    else if v_start r < s \<and> v_end r > e then [r\<lparr>v_end := s\<rparr>, right_part r e]
    else if v_start r < s then [r\<lparr>v_end := s\<rparr>] else [r\<lparr>v_offset := v_offset r + int (e - v_start r), v_start := e\<rparr>])"
  have ins: "tree_insert (right_part r e) (p @ r\<lparr>v_end := s\<rparr> # q) = p @ r\<lparr>v_end := s\<rparr> # right_part r e # q"
    if "v_start r < s" "v_end r > e"
    using tree_insert_right [OF areas, of s e] that ov by simp
  have m': "tree m' = p @ xs @ q" "right' = (if v_start r < s \<and> v_end r > e then None else right)"
      "refs m' = (if v_start r \<ge> s \<and> v_end r \<le> e then release_backing (v_backing r) (refs m) else refs m)"
    using run ins spare by (auto simp: remove_one_def Let_def xs_def upd simp flip: r_def p_def q_def split: if_splits)
  have "removing s e right' m'" "\<And>a. \<not> (s \<le> a \<and> a < e) \<Longrightarrow> mapping (tree m') a = mapping (tree m) a"
    by (rule removing_replace [OF ok t m'(1) ov(3), where right' = right'];
        use ov spare ref in \<open>auto simp: xs_def m'(2,3) contains_def attr_at_def right_part_def backing_counts\<close>)+
  then show ?thesis
    by blast
qed

lemma remove_loop_ok:
  assumes "removing s e right m" and "s < e" and "remove_loop s e right m = (right', m')"
  shows "removing s e right' m' \<and> (\<forall>a. mapping (tree m') a = (if s \<le> a \<and> a < e then None else mapping (tree m) a))"
  using assms
proof (induction s e right m rule: remove_loop.induct)
  case (1 s e right m)
  show ?case
  proof (cases "first_overlap (tree m) s e")
    case None
    then have "right' = right" "m' = m"
      using "1.prems"(3) by (simp_all add: remove_loop.simps)
    moreover have "areas_ok (tree m)"
      using "1.prems"(1) by (simp add: removing_def)
    ultimately show ?thesis
      using "1.prems"(1,2) first_overlap_mapping [of "tree m" s e] None by auto
  next
    case (Some i)
    let ?o = "remove_one s e i right m"
    have one: "removing s e (fst ?o) (snd ?o)" "\<And>a. \<not> (s \<le> a \<and> a < e) \<Longrightarrow> mapping (tree (snd ?o)) a = mapping (tree m) a"
      using remove_one_ok [OF "1.prems"(1) Some, of "fst ?o" "snd ?o"] by auto
    have "remove_loop s e (fst ?o) (snd ?o) = (right', m')"
      using "1.prems"(3) Some by (simp add: remove_loop.simps [of s e right m])
    then show ?thesis
      using "1.IH" [OF Some one(1) "1.prems"(2)] one(2) by simp
  qed
qed

lemma span_of_Some:
  "span_of rs s e = Some r \<Longrightarrow> r \<in> set rs \<and> v_start r < s \<and> v_end r > e"
  by (induction rs) (auto split: if_splits)

lemma span_of_None:
  "areas_ok rs \<Longrightarrow> s < e \<Longrightarrow> span_of rs s e = None \<Longrightarrow> r \<in> set rs \<Longrightarrow> \<not> (v_start r < s \<and> v_end r > e)"
  by (induction rs) (fastforce split: if_splits)+

lemma areas_ok_unique:
  assumes "areas_ok rs" and "r \<in> set rs" "q \<in> set rs" and "v_start r \<le> a" "a < v_end r" "v_start q \<le> a" "a < v_end q"
  shows "r = q"
  using assms by (induction rs) fastforce+

lemma removing_start:
  assumes ok: "manager_ok m" and "s < e"
  shows "span_of (tree m) s e = None \<Longrightarrow> removing s e None m"
    "span_of (tree m) s e = Some r \<Longrightarrow> removing s e (Some (right_part r e)) (m\<lparr>refs := retain_backing (v_backing r) (refs m)\<rparr>)"
proof -
  have areas: "areas_ok (tree m)"
    using ok by (simp add: manager_ok_def)
  show "removing s e None m" if "span_of (tree m) s e = None"
    using span_of_None [OF areas assms(2) that] ok by (auto simp: removing_def manager_ok_def)
  show "removing s e (Some (right_part r e)) (m\<lparr>refs := retain_backing (v_backing r) (refs m)\<rparr>)"
    if "span_of (tree m) s e = Some r"
  proof -
    note r = span_of_Some [OF that]
    have "q = r" if "q \<in> set (tree m)" "v_start q < s" "v_end q > e" for q
      using areas_ok_unique [OF areas, of q r s] r that assms(2) by simp
    then show ?thesis
      using ok by (auto simp: removing_def manager_ok_def backing_counts)
  qed
qed

lemma removing_done:
  assumes "removing s e right m"
  shows "manager_ok (case right of None \<Rightarrow> m | Some q \<Rightarrow> m\<lparr>refs := release_backing (v_backing q) (refs m)\<rparr>)"
  using assms by (auto simp: removing_def manager_ok_def fun_eq_iff backing_counts split: option.splits)

lemma removing_None: "removing s e None m \<Longrightarrow> remove_loop s e None m = (right', m') \<Longrightarrow> right' = None"
proof (induction s e "None :: vma option" m rule: remove_loop.induct)
  case (1 s e m)
  show ?case
  proof (cases "first_overlap (tree m) s e")
    case (Some i)
    have fst: "fst (remove_one s e i None m) = None"
      by (simp add: remove_one_def Let_def)
    have "removing s e None (snd (remove_one s e i None m))"
      using remove_one_ok [OF "1.prems"(1) Some, of None] fst by (cases "remove_one s e i None m") simp
    then show ?thesis
      using 1 Some fst remove_loop.simps [of s e None m] by simp
  qed (use "1.prems"(2) in \<open>simp add: remove_loop.simps\<close>)
qed

lemma vma_remove_ok:
  assumes ok: "manager_ok m" and bounds: "s < 2 ^ 64" "len < 2 ^ 64" and run: "vma_remove mem s len m = (done, m')"
  shows "manager_ok m'"
    "mapping (tree m') a = (if done \<and> s \<le> a \<and> a < s + len then None else mapping (tree m) a)"
    "done \<longleftrightarrow> len = 0 \<or> s + len < 2 ^ 64 \<and> (mem \<or> span_of (tree m) s (s + len) = None)"
    "\<not> done \<Longrightarrow> m' = m"
proof -
  have wrap: "wadd 64 s len = (if s + len < 2 ^ 64 then s + len else s + len - 2 ^ 64)"
    using bounds by (simp add: wadd_def mod_if)
  have "manager_ok m' \<and> mapping (tree m') a = (if done \<and> s \<le> a \<and> a < s + len then None else mapping (tree m) a) \<and>
      (done \<longleftrightarrow> len = 0 \<or> s + len < 2 ^ 64 \<and> (mem \<or> span_of (tree m) s (s + len) = None)) \<and> (\<not> done \<longrightarrow> m' = m)"
  proof (cases "0 < len \<and> s + len < 2 ^ 64")
    case True
    let ?e = "s + len"
    show ?thesis
    proof (cases "span_of (tree m) s ?e")
      case None
      obtain right m1 where loop: "remove_loop s ?e None m = (right, m1)"
        by (rule prod.exhaust)
      note start = removing_start(1) [OF ok _ None]
      have "done = True" "m' = m1"
        using run True None loop by (simp_all add: vma_remove_def wrap Let_def)
      moreover have "right = None"
        using removing_None start loop True by simp
      ultimately show ?thesis
        using remove_loop_ok [OF start _ loop] removing_done [of s ?e right m1] True None by simp
    next
      case (Some r)
      obtain right m1 where loop: "remove_loop s ?e (Some (right_part r ?e)) (m\<lparr>refs := retain_backing (v_backing r) (refs m)\<rparr>) = (right, m1)"
        by (rule prod.exhaust)
      note start = removing_start(2) [OF ok _ Some]
      have "done = mem" "m' = (if mem then case right of None \<Rightarrow> m1 | Some q \<Rightarrow> m1\<lparr>refs := release_backing (v_backing q) (refs m1)\<rparr> else m)"
        using run True Some loop by (auto simp: vma_remove_def wrap Let_def split: if_splits)
      moreover have "tree (case right of None \<Rightarrow> m1 | Some q \<Rightarrow> m1\<lparr>refs := release_backing (v_backing q) (refs m1)\<rparr>) = tree m1"
        by (simp split: option.splits)
      ultimately show ?thesis
        using remove_loop_ok [OF start _ loop] removing_done [of s ?e right m1] True Some ok by simp
    qed
  next
    case False
    then show ?thesis
      using run ok bounds by (auto simp: vma_remove_def wrap split: if_splits)
  qed
  then show "manager_ok m'"
    "mapping (tree m') a = (if done \<and> s \<le> a \<and> a < s + len then None else mapping (tree m) a)"
    "done \<longleftrightarrow> len = 0 \<or> s + len < 2 ^ 64 \<and> (mem \<or> span_of (tree m) s (s + len) = None)"
    "\<not> done \<Longrightarrow> m' = m"
    by (elim conjE, simp only: not_False_eq_True simp_thms)+
qed

section \<open>Insertion\<close>

lemma tree_insert_split:
  assumes "areas_ok rs" and "\<forall>r\<in>set rs. \<not> overlaps (v_start v) (v_end v) r" and "v_start v < v_end v"
  obtains p q where "rs = p @ q" "tree_insert v rs = p @ v # q" "areas_ok (p @ v # q)"
proof -
  have "\<exists>p q. rs = p @ q \<and> tree_insert v rs = p @ v # q \<and> areas_ok (p @ v # q)"
    using assms
  proof (induction rs)
    case (Cons r rs)
    then obtain p q where ih: "rs = p @ q" "tree_insert v rs = p @ v # q" "areas_ok (p @ v # q)"
      by auto
    show ?case
    proof (cases "v_start v < v_start r")
      case True
      then have "areas_ok ([] @ v # r # rs)"
        using Cons.prems by (auto simp: overlaps_def)
      then show ?thesis
        using True by (intro exI [of _ "[]"] exI [of _ "r # rs"]) simp
    next
      case False
      then have "areas_ok ((r # p) @ v # q)"
        using Cons.prems ih(1,3) by (auto simp: overlaps_def)
      then show ?thesis
        using False ih(1,2) by (intro exI [of _ "r # p"] exI [of _ q]) simp
    qed
  qed simp
  then show ?thesis
    using that by blast
qed

lemma vma_insert_ok:
  assumes ok: "manager_ok m" and run: "vma_insert mem s e prot flags fd offset backing m = (done, m')"
  shows "manager_ok m'"
    "done \<longleftrightarrow> mem \<and> s < e \<and> (\<forall>a. s \<le> a \<and> a < e \<longrightarrow> mapping (tree m) a = None)"
    "\<not> done \<Longrightarrow> m' = m"
    "done \<Longrightarrow> mapping (tree m') a =
      (if s \<le> a \<and> a < e then Some (prot, flags, fd, offset + int (a - s), backing) else mapping (tree m) a)"
proof -
  let ?v = "\<lparr>v_start = s, v_end = e, v_prot = prot, v_flags = flags, v_fd = fd, v_offset = offset, v_backing = backing\<rparr>"
  have areas: "areas_ok (tree m)" and count: "\<And>n. refs m n = refs_of (tree m) n"
    using ok by (simp_all add: manager_ok_def)
  show iff: "done \<longleftrightarrow> mem \<and> s < e \<and> (\<forall>a. s \<le> a \<and> a < e \<longrightarrow> mapping (tree m) a = None)"
    using run first_overlap_mapping [OF areas, of s e] by (auto simp: vma_insert_def not_le split: if_splits)
  show refuse: "\<not> done \<Longrightarrow> m' = m"
    using run by (auto simp: vma_insert_def split: if_splits)
  have put: "manager_ok m' \<and> mapping (tree m') a =
      (if s \<le> a \<and> a < e then Some (prot, flags, fd, offset + int (a - s), backing) else mapping (tree m) a)" if "done"
  proof -
    have free: "\<forall>r\<in>set (tree m). \<not> overlaps s e r" "s < e"
      using that iff first_overlap_mapping [OF areas, of s e] first_overlap_None [OF areas, of s e] by auto
    then obtain p q where t: "tree m = p @ q" "tree_insert ?v (tree m) = p @ ?v # q" "areas_ok (p @ ?v # q)"
      using tree_insert_split [OF areas, of ?v] by auto
    have m': "m' = m\<lparr>tree := p @ ?v # q, refs := retain_backing backing (refs m)\<rparr>"
      using run that t(2) by (auto simp: vma_insert_def split: if_splits)
    have none: "mapping p a = None" if "s \<le> a" "a < e"
      using that free t(1) contains_overlaps [of _ a s e] by (auto simp: mapping_None)
    have "mapping (p @ ?v # q) a =
      (if s \<le> a \<and> a < e then Some (prot, flags, fd, offset + int (a - s), backing) else mapping (p @ q) a)"
      using none by (auto simp: mapping_append contains_def attr_at_def split: option.splits)
    then show ?thesis
      using t count by (simp add: m' manager_ok_def fun_eq_iff backing_counts)
  qed
  show "done \<Longrightarrow> mapping (tree m') a =
      (if s \<le> a \<and> a < e then Some (prot, flags, fd, offset + int (a - s), backing) else mapping (tree m) a)"
    using put by blast
  show "manager_ok m'"
    using put refuse ok by (cases "done") simp_all
qed

section \<open>Isolation and protection\<close>

text \<open>No area extends over the address \<open>x\<close> from below it.\<close>

definition edge :: "vma list \<Rightarrow> addr \<Rightarrow> bool" where
  "edge rs x \<longleftrightarrow> (\<forall>r\<in>set rs. \<not> (v_start r < x \<and> x < v_end r))"

lemma edge_simps [simp]:
  "edge [] x" "edge (r # rs) x \<longleftrightarrow> \<not> (v_start r < x \<and> x < v_end r) \<and> edge rs x" "edge (rs @ qs) x \<longleftrightarrow> edge rs x \<and> edge qs x"
  by (auto simp: edge_def)

lemma vma_split_edge:
  assumes ok: "manager_ok m" and i: "i < length (tree m)" and run: "vma_split mem i at m = (r, m')" and "r \<noteq> No_memory"
  shows "edge (tree m) x \<Longrightarrow> edge (tree m') x"
    "v_start (tree m ! i) < at \<Longrightarrow> at \<le> v_end (tree m ! i) \<Longrightarrow> edge (tree m') at"
    "take i (tree m') = take i (tree m)" "i < length (tree m')" "v_start (tree m' ! i) = v_start (tree m ! i)"
proof -
  let ?r = "tree m ! i" and ?p = "take i (tree m)" and ?q = "drop (Suc i) (tree m)"
  have tree: "tree m = ?p @ ?r # ?q"
    using i by (rule nth_split)
  then have areas: "areas_ok (?p @ ?r # ?q)"
    using ok by (simp add: manager_ok_def)
  have edges: "edge ?p x \<and> edge ?q x" "v_end ?r \<le> x \<Longrightarrow> \<not> (v_start ?r < x \<and> x < v_end ?r)" if "v_start ?r \<le> x" "x \<le> v_end ?r" for x
    using that areas by (fastforce simp: edge_def)+
  consider "m' = m" "at \<le> v_start ?r \<or> v_end ?r \<le> at"
    | "tree m' = ?p @ ?r\<lparr>v_end := at\<rparr> # right_part ?r at # ?q" "v_start ?r < at" "at < v_end ?r"
    using ok i run assms(4) by (cases rule: vma_split_cases [where mem = mem and at = at]) auto
  note cases = this
  have kept: "edge (?p @ ?r # ?q) x" if "edge (tree m) x"
    using that tree by simp
  show "edge (tree m') x" if "edge (tree m) x"
    using kept [OF that] that by (cases rule: cases) auto
  show "edge (tree m') at" if at: "v_start ?r < at" "at \<le> v_end ?r"
  proof (cases rule: cases)
    case 1
    then have "edge (?p @ ?r # ?q) at"
      using edges [of at] at by simp
    then show ?thesis
      using 1(1) tree by simp
  qed (use edges [of at] at in auto)
  show "take i (tree m') = take i (tree m)" "i < length (tree m')" "v_start (tree m' ! i) = v_start ?r"
    using i by (auto simp: nth_append intro: cases)
qed

lemma first_overlap_least:
  assumes "areas_ok rs" and "first_overlap rs s e = Some i" and "u \<in> set rs" and "overlaps s e u"
  shows "v_start (rs ! i) \<le> v_start u"
proof -
  have i: "i < length rs" "\<forall>j<i. \<not> overlaps s e (rs ! j)"
    using first_overlap_from_Some [of 0 rs s e i] assms(2) by (auto simp: first_overlap_def split: if_splits)
  have "areas_ok (take i rs @ rs ! i # drop (Suc i) rs)"
    using assms(1) nth_split [OF i(1)] by simp
  moreover have "u \<notin> set (take i rs)"
    using i(2) assms(4) by (auto simp: in_set_conv_nth)
  moreover have "u \<in> set (take i rs @ rs ! i # drop (Suc i) rs)"
    using assms(3) nth_split [OF i(1)] by simp
  ultimately show ?thesis
    by fastforce
qed

text \<open>The right edge, as \<open>isolate\<close> treats it: the area of the last address is split if it is longer.\<close>

lemma isolate_right:
  assumes ok: "manager_ok m" and "0 < e"
    and run: "(case vma_find (tree m) (e - 1) of None \<Rightarrow> (True, m)
             | Some j \<Rightarrow> if v_end (tree m ! j) > e then let (r, m) = vma_split mem j e m in (r \<noteq> No_memory, m) else (True, m)) = (done, m')"
  shows "manager_ok m' \<and> mapping (tree m') a = mapping (tree m) a \<and> (done \<longrightarrow> edge (tree m') e \<and> (edge (tree m) s \<longrightarrow> edge (tree m') s))"
proof -
  have areas: "areas_ok (tree m)"
    using ok by (simp add: manager_ok_def)
  have spans: "contains r (e - 1)" if "v_start r < e" "e < v_end r" for r
    using that by (auto simp: contains_def)
  show ?thesis
  proof (cases "vma_find (tree m) (e - 1)")
    case None
    then have "edge (tree m) e"
      using spans by (auto simp: edge_def vma_find_None mapping_None)
    then show ?thesis
      using run None ok by auto
  next
    case (Some j)
    note j = vma_find_Some [OF Some]
    show ?thesis
    proof (cases "v_end (tree m ! j) > e")
      case True
      obtain r m1 where split: "vma_split mem j e m = (r, m1)"
        by (rule prod.exhaust)
      have "done = (r \<noteq> No_memory)" "m' = m1"
        using run Some True split by simp_all
      then show ?thesis
        using vma_split_ok [OF ok j(1) split] vma_split_edge(1,2) [OF ok j(1) split] j(2) True assms(2)
        by (auto simp: contains_def)
    next
      case False
      have "r = tree m ! j" if "r \<in> set (tree m)" "v_start r < e" "e < v_end r" for r
        using areas_ok_unique [OF areas that(1) nth_mem [OF j(1)], of "e - 1"] spans that j(2) by (auto simp: contains_def)
      then have "edge (tree m) e"
        using False by (auto simp: edge_def)
      then show ?thesis
        using run Some False ok by auto
    qed
  qed
qed

lemma isolate_edges:
  assumes ok: "manager_ok m" and "s < e" and run: "isolate mem s e m = (done, m')"
  shows "manager_ok m' \<and> mapping (tree m') a = mapping (tree m) a \<and> (done \<longrightarrow> edge (tree m') s \<and> edge (tree m') e)"
proof (cases "first_overlap (tree m) s e")
  case None
  then have "\<forall>r\<in>set (tree m). \<not> overlaps s e r" "done" "m' = m"
    using run ok assms(2) first_overlap_None [of "tree m" s e] by (simp_all add: isolate_def manager_ok_def)
  then show ?thesis
    using ok assms(2) by (fastforce simp: edge_def overlaps_def)
next
  case (Some i)
  note i = first_overlap_Some [OF Some]
  obtain r m1 where left: "(if v_start (tree m ! i) < s then vma_split (mem 0) i s m else (Unsplit, m)) = (r, m1)"
    by (rule prod.exhaust)
  have m1: "manager_ok m1 \<and> mapping (tree m1) a = mapping (tree m) a \<and> (r \<noteq> No_memory \<longrightarrow> edge (tree m1) s)"
  proof (cases "v_start (tree m ! i) < s")
    case True
    then show ?thesis
      using left vma_split_ok [OF ok i(1)] vma_split_edge(2) [OF ok i(1)] i(2) by (simp add: overlaps_def)
  next
    case False
    have "edge (tree m) s"
      using False first_overlap_least [OF _ Some] ok assms(2) by (fastforce simp: edge_def overlaps_def manager_ok_def)
    then show ?thesis
      using False left ok by auto
  qed
  show ?thesis
  proof (cases "r = No_memory")
    case True
    then show ?thesis
      using run Some left assms(2) m1 by (auto simp: isolate_def)
  next
    case False
    then show ?thesis
      using isolate_right [of m1 e "mem 1" "done" m' a s] run Some left assms(2) m1 by (auto simp: isolate_def)
  qed
qed

lemma crossing_from_None:
  "areas_ok rs \<Longrightarrow> crossing_from k rs e = None \<Longrightarrow> edge rs e"
  by (induction rs arbitrary: k) (fastforce simp: edge_def split: if_splits)+

lemma crossing_from_Some:
  "crossing_from k rs e = Some j \<Longrightarrow> k \<le> j \<and> j < k + length rs \<and> v_start (rs ! (j - k)) < e \<and> e < v_end (rs ! (j - k))"
proof (induction rs arbitrary: k)
  case (Cons r rs)
  show ?case
  proof (cases "v_end r > e")
    case False
    then have "crossing_from (k + 1) rs e = Some j"
      using Cons.prems by (simp split: if_splits)
    from Cons.IH [OF this] show ?thesis
      by (auto simp: nth_Cons' Suc_diff_le)
  qed (use Cons.prems in \<open>auto split: if_splits\<close>)
qed simp

lemma prot_from_map:
  "areas_ok rs \<Longrightarrow> prot_from prot e rs = map (\<lambda>r. if v_start r < e then r\<lparr>v_prot := prot\<rparr> else r) rs"
proof (induction rs)
  case (Cons r rs)
  have "map (\<lambda>r. if v_start r < e then r\<lparr>v_prot := prot\<rparr> else r) rs = rs" if "\<not> v_start r < e"
    using that Cons.prems by (intro map_idI) fastforce
  then show ?case
    using Cons by auto
qed simp

lemma areas_ok_map: "(\<And>r. v_start (f r) = v_start r) \<Longrightarrow> (\<And>r. v_end (f r) = v_end r) \<Longrightarrow> areas_ok (map f rs) = areas_ok rs"
  by (induction rs) auto

lemma refs_of_map: "(\<And>r. v_backing (f r) = v_backing r) \<Longrightarrow> refs_of (map f rs) n = refs_of rs n"
  by (induction rs) auto

definition recolour :: "32 word \<Rightarrow> attributes \<Rightarrow> attributes" where
  "recolour prot = (\<lambda>(_, rest). (prot, rest))"

lemma mapping_recolour:
  assumes "\<forall>r\<in>set rs. P r \<longrightarrow> (\<forall>a. contains r a \<longrightarrow> s \<le> a \<and> a < e)" and "\<forall>r\<in>set rs. \<not> P r \<longrightarrow> (\<forall>a. contains r a \<longrightarrow> \<not> (s \<le> a \<and> a < e))"
  shows "mapping (map (\<lambda>r. if P r then r\<lparr>v_prot := prot\<rparr> else r) rs) a =
    (if s \<le> a \<and> a < e then map_option (recolour prot) (mapping rs a) else mapping rs a)"
proof -
  have [simp]: "contains (r\<lparr>v_prot := prot\<rparr>) a = contains r a" "attr_at (r\<lparr>v_prot := prot\<rparr>) a = recolour prot (attr_at r a)" for r
    by (simp_all add: contains_def attr_at_def recolour_def)
  show ?thesis
    using assms by (induction rs) auto
qed

text \<open>The area at \<open>i\<close> starts at \<open>s\<close>: the areas before it end there, and those from it on start there or later.\<close>

lemma set_prot_walk:
  fixes prot :: "32 word"
  assumes ok: "manager_ok m" and i: "i < length (tree m)" "v_start (tree m ! i) = s" and e: "edge (tree m) e"
  defines "m' \<equiv> m\<lparr>tree := take i (tree m) @ prot_from prot e (drop i (tree m))\<rparr>"
  shows "manager_ok m' \<and> mapping (tree m') a = (if s \<le> a \<and> a < e then map_option (recolour prot) (mapping (tree m) a) else mapping (tree m) a)"
proof -
  let ?P = "\<lambda>r. s \<le> v_start r \<and> v_start r < e" and ?p = "take i (tree m)" and ?q = "drop i (tree m)"
  let ?f = "\<lambda>r. if ?P r then r\<lparr>v_prot := prot\<rparr> else r"
  have "areas_ok (?p @ ?q)"
    using ok by (simp add: manager_ok_def)
  moreover have q: "?q = tree m ! i # drop (Suc i) (tree m)"
    using i(1) by (rule Cons_nth_drop_Suc [symmetric])
  ultimately have areas: "areas_ok ?p" "areas_ok ?q" and p: "\<forall>r\<in>set ?p. v_end r \<le> s" and q: "\<forall>r\<in>set ?q. s \<le> v_start r"
    using i(2) by fastforce+
  have "map ?f ?p = ?p"
    using p areas_ok_nonempty [OF areas(1)] by (intro map_idI) fastforce
  moreover have "map ?f ?q = prot_from prot e ?q"
    using q by (simp add: prot_from_map [OF areas(2)])
  ultimately have "map ?f (?p @ ?q) = ?p @ prot_from prot e ?q"
    by (simp only: map_append)
  then have m': "tree m' = map ?f (tree m)" "refs m' = refs m"
    by (simp_all add: m'_def)
  have "set (tree m) = set ?p \<union> set ?q"
    by (simp flip: set_append)
  then have start: "s \<le> v_start r \<or> v_end r \<le> s" "v_start r < e \<Longrightarrow> v_end r \<le> e" if "r \<in> set (tree m)" for r
    using that p q e by (fastforce simp: edge_def)+
  have "\<forall>r\<in>set (tree m). ?P r \<longrightarrow> (\<forall>a. contains r a \<longrightarrow> s \<le> a \<and> a < e)"
      "\<forall>r\<in>set (tree m). \<not> ?P r \<longrightarrow> (\<forall>a. contains r a \<longrightarrow> \<not> (s \<le> a \<and> a < e))"
    using start by (force simp: contains_def)+
  from mapping_recolour [OF this, of prot a] show ?thesis
    using ok by (simp add: manager_ok_def m' areas_ok_map refs_of_map fun_eq_iff)
qed

lemma set_prot_left:
  assumes ok: "manager_ok m" and i: "vma_find (tree m) s = Some i"
    and run: "(if v_start (tree m ! i) < s then vma_split mem i s m else (Unsplit, m)) = (r, m')"
  defines "j \<equiv> case r of Split j \<Rightarrow> j | _ \<Rightarrow> i"
  shows "manager_ok m'" "mapping (tree m') a = mapping (tree m) a" "r \<noteq> No_memory \<Longrightarrow> j < length (tree m') \<and> v_start (tree m' ! j) = s"
proof -
  note i = vma_find_Some [OF i]
  show "manager_ok m'" "mapping (tree m') a = mapping (tree m) a"
    using run ok vma_split_ok [OF ok i(1)] by (auto split: if_splits)
  show "j < length (tree m') \<and> v_start (tree m' ! j) = s" if "r \<noteq> No_memory"
  proof (cases "v_start (tree m ! i) < s")
    case True
    show ?thesis
      using ok i(1)
    proof (cases rule: vma_split_cases [where mem = mem and at = s])
      case split
      then show ?thesis
        using run True i(1) by (auto simp: j_def nth_append)
    qed (use run True i(2) that in \<open>auto simp: contains_def\<close>)
  qed (use run i in \<open>auto simp: j_def contains_def\<close>)
qed

lemma set_prot_right:
  assumes ok: "manager_ok m" and i: "i < length (tree m)" "v_start (tree m ! i) = s"
    and run: "(case crossing_from i (drop i (tree m)) e of None \<Rightarrow> (Unsplit, m) | Some j \<Rightarrow> vma_split mem j e m) = (r, m')" and "s < e"
  shows "manager_ok m'" "mapping (tree m') a = mapping (tree m) a"
    "r \<noteq> No_memory \<Longrightarrow> i < length (tree m') \<and> v_start (tree m' ! i) = s \<and> edge (tree m') e"
proof -
  have areas: "areas_ok (take i (tree m) @ drop i (tree m))"
    using ok by (simp add: manager_ok_def)
  have "drop i (tree m) = tree m ! i # drop (Suc i) (tree m)"
    using i(1) by (rule Cons_nth_drop_Suc [symmetric])
  then have "\<forall>r\<in>set (take i (tree m)). v_end r \<le> s"
    using areas i(2) by simp
  then have before: "edge (take i (tree m)) e"
    using assms(5) by (fastforce simp: edge_def)
  have "manager_ok m' \<and> mapping (tree m') a = mapping (tree m) a \<and>
    (r \<noteq> No_memory \<longrightarrow> i < length (tree m') \<and> v_start (tree m' ! i) = s \<and> edge (tree m') e)"
  proof (cases "crossing_from i (drop i (tree m)) e")
    case None
    then have "edge (take i (tree m) @ drop i (tree m)) e"
      using before crossing_from_None [of "drop i (tree m)" i e] areas by (simp only: areas_ok_simps edge_simps)
    then show ?thesis
      using run None ok i by simp
  next
    case (Some j)
    have j: "i \<le> j" "j < length (tree m)" "v_start (tree m ! j) < e" "e < v_end (tree m ! j)"
      using crossing_from_Some [OF Some] by auto
    have split: "vma_split mem j e m = (r, m')"
      using run Some by simp
    have "i < length (tree m') \<and> v_start (tree m' ! i) = s" if "r \<noteq> No_memory"
    proof (cases "i = j")
      case False
      note e = vma_split_edge(3,4) [OF ok j(2) split that]
      have "tree m' ! i = tree m ! i"
        using arg_cong [OF e(1), of "\<lambda>xs. xs ! i"] False j(1) by simp
      then show ?thesis
        using e(2) False j(1) i by simp
    qed (use vma_split_edge(4,5) [OF ok j(2) split that] i in simp)
    then show ?thesis
      using vma_split_ok [OF ok j(2) split] vma_split_edge(2) [OF ok j(2) split] j(3,4) by simp
  qed
  then show "manager_ok m'" "mapping (tree m') a = mapping (tree m) a"
    "r \<noteq> No_memory \<Longrightarrow> i < length (tree m') \<and> v_start (tree m' ! i) = s \<and> edge (tree m') e"
    by simp_all
qed

lemma set_prot_ok:
  assumes ok: "manager_ok m" and run: "set_prot mem s e prot m = (done, m')"
  shows "manager_ok m'" "mapping (tree m') a =
      (if done \<and> s \<le> a \<and> a < e then map_option (recolour prot) (mapping (tree m) a) else mapping (tree m) a)"
    "done \<Longrightarrow> covers (tree m) s e"
proof -
  have "manager_ok m' \<and> mapping (tree m') a =
      (if done \<and> s \<le> a \<and> a < e then map_option (recolour prot) (mapping (tree m) a) else mapping (tree m) a)"
    if "covers (tree m) s e" "vma_find (tree m) s = Some i" for i
  proof -
    have se: "s < e"
      using that(1) by (simp add: covers_def)
    obtain r1 m1 where left: "(if v_start (tree m ! i) < s then vma_split (mem 0) i s m else (Unsplit, m)) = (r1, m1)"
      by (rule prod.exhaust)
    define j where "j = (case r1 of Split j \<Rightarrow> j | _ \<Rightarrow> i)"
    note m1 = set_prot_left [OF ok that(2) left, folded j_def]
    obtain r2 m2 where right: "(case crossing_from j (drop j (tree m1)) e of None \<Rightarrow> (Unsplit, m1) | Some k \<Rightarrow> vma_split (mem 1) k e m1) = (r2, m2)"
      by (rule prod.exhaust)
    have res: "(done, m') = (if r1 = No_memory then (False, m1) else if r2 = No_memory then (False, m2)
        else (True, m2\<lparr>tree := take j (tree m2) @ prot_from prot e (drop j (tree m2))\<rparr>))"
      using run that left right by (auto simp: set_prot_def Let_def simp flip: j_def)
    show ?thesis
    proof (cases "r1 = No_memory")
      case False
      note m2 = set_prot_right [OF m1(1) _ _ right se] m1(3) [OF False]
      show ?thesis
        using res False m2 m1(2) set_prot_walk [OF m2(1), of j s e prot a] by (cases "r2 = No_memory") auto
    qed (use res m1(1,2) in simp)
  qed
  moreover have "manager_ok m' \<and> \<not> done \<and> m' = m" if "\<not> covers (tree m) s e \<or> vma_find (tree m) s = None"
    using that run ok by (auto simp: set_prot_def split: if_splits)
  ultimately show "manager_ok m'" "mapping (tree m') a =
      (if done \<and> s \<le> a \<and> a < e then map_option (recolour prot) (mapping (tree m) a) else mapping (tree m) a)"
    "done \<Longrightarrow> covers (tree m) s e"
    by (cases "vma_find (tree m) s"; cases "covers (tree m) s e"; simp)+
qed

section \<open>Properties\<close>

definition remove_pass :: "addr \<Rightarrow> addr \<Rightarrow> vma option \<times> vma_manager \<Rightarrow> vma option \<times> vma_manager" where
  "remove_pass s e st = (case first_overlap (tree (snd st)) s e of None \<Rightarrow> st | Some i \<Rightarrow> remove_one s e i (fst st) (snd st))"

lemma remove_passes:
  "\<exists>n \<le> remaining s e right m. (remove_pass s e ^^ n) (right, m) = remove_loop s e right m \<and>
     first_overlap (tree (snd (remove_loop s e right m))) s e = None"
proof (induction s e right m rule: remove_loop.induct)
  case (1 s e right m)
  show ?case
  proof (cases "first_overlap (tree m) s e")
    case None
    then show ?thesis
      by (intro exI [of _ 0]) (simp add: remove_loop.simps)
  next
    case (Some i)
    let ?o = "remove_one s e i right m"
    obtain n where n: "n \<le> remaining s e (fst ?o) (snd ?o)" "(remove_pass s e ^^ n) ?o = remove_loop s e (fst ?o) (snd ?o)"
        "first_overlap (tree (snd (remove_loop s e (fst ?o) (snd ?o)))) s e = None"
      using 1 [OF Some] by auto
    have "remove_loop s e right m = remove_loop s e (fst ?o) (snd ?o)" "remove_pass s e (right, m) = ?o"
      using Some by (simp_all add: remove_loop.simps [of s e right m] remove_pass_def)
    then have "(remove_pass s e ^^ Suc n) (right, m) = remove_loop s e right m"
        "first_overlap (tree (snd (remove_loop s e right m))) s e = None"
      using n by (simp_all add: funpow_Suc_right del: funpow.simps)
    moreover have "Suc n \<le> remaining s e right m"
      using n(1) remove_one_less [OF Some, of right] by simp
    ultimately show ?thesis
      by blast
  qed
qed

definition demo_areas :: vma_manager where
  "demo_areas = \<lparr>tree = [\<lparr>v_start = 0, v_end = 0x4000, v_prot = 3, v_flags = 0, v_fd = 5, v_offset = 0, v_backing = Some 7\<rparr>,
     \<lparr>v_start = 0x4000, v_end = 0x6000, v_prot = 1, v_flags = 0, v_fd = -1, v_offset = 0, v_backing = None\<rparr>], refs = (\<lambda>n. if n = 7 then 1 else 0)\<rparr>"

lemma demo_areas_ok: "manager_ok demo_areas"
  by (simp add: demo_areas_def manager_ok_def fun_eq_iff)

text \<open>C29. \<open>remove\<close> unmaps exactly the range: afterwards nothing is mapped in it and every other byte keeps
  its protection, flags, file and file position, although areas are deleted, truncated or split; the areas
  stay ordered, disjoint and not empty and the references to backing nodes exact.  It fails only when the
  end wraps around or the one allocation it needs is refused, and then changes nothing.\<close>

theorem vma_remove_refines:
  assumes "manager_ok m" and "s < 2 ^ 64" and "len < 2 ^ 64" and "vma_remove mem s len m = (done, m')"
  shows "manager_ok m' \<and>
    (\<forall>a. mapping (tree m') a = (if done \<and> s \<le> a \<and> a < s + len then None else mapping (tree m) a)) \<and>
    (done \<longleftrightarrow> len = 0 \<or> s + len < 2 ^ 64 \<and> (mem \<or> span_of (tree m) s (s + len) = None)) \<and> (done \<or> m' = m)"
  using vma_remove_ok [OF assms] by blast

theorem vma_remove_refines_witness:
  "fst (vma_remove True 0x1000 0x1000 demo_areas) \<and> manager_ok (snd (vma_remove True 0x1000 0x1000 demo_areas)) \<and>
    mapping (tree (snd (vma_remove True 0x1000 0x1000 demo_areas))) 0x1800 = None \<and>
    mapping (tree (snd (vma_remove True 0x1000 0x1000 demo_areas))) 0x2010 = Some (3, 0, 5, 0x2010, Some 7)"
  using vma_remove_refines [OF demo_areas_ok, of "0x1000" "0x1000" True "fst (vma_remove True 0x1000 0x1000 demo_areas)"
    "snd (vma_remove True 0x1000 0x1000 demo_areas)"]
  by (simp add: demo_areas_def contains_def attr_at_def)

text \<open>C32. The loop of \<open>remove\<close>, which searches for an overlap again after every change, ends: after at most
  one pass more than there are areas that meet the range, and then no area meets it.\<close>

theorem vma_remove_ends:
  "\<exists>n \<le> length (filter (overlaps s e) (tree m)) + 1. (remove_pass s e ^^ n) (right, m) = remove_loop s e right m \<and>
     first_overlap (tree (snd (remove_loop s e right m))) s e = None"
proof -
  obtain n where "n \<le> remaining s e right m" "(remove_pass s e ^^ n) (right, m) = remove_loop s e right m"
      "first_overlap (tree (snd (remove_loop s e right m))) s e = None"
    using remove_passes by blast
  then show ?thesis
    by (intro exI [of _ n]) (auto simp: remaining_def split: if_splits)
qed

text \<open>C30. \<open>set_prot\<close> changes the protection of exactly the bytes of a fully mapped range, splitting areas at
  its ends; if it fails, by a hole or for want of memory after the first split, no byte has changed.\<close>

theorem vma_set_prot_refines:
  assumes "manager_ok m" and "set_prot mem s e prot m = (done, m')"
  shows "manager_ok m' \<and>
    (\<forall>a. mapping (tree m') a = (if done \<and> s \<le> a \<and> a < e then map_option (recolour prot) (mapping (tree m) a) else mapping (tree m) a)) \<and>
    (done \<longrightarrow> covers (tree m) s e)"
  using set_prot_ok [OF assms] by blast

theorem vma_set_prot_refines_witness:
  "fst (set_prot (\<lambda>_. True) 0x1000 0x5000 4 demo_areas) \<and> manager_ok (snd (set_prot (\<lambda>_. True) 0x1000 0x5000 4 demo_areas)) \<and>
    mapping (tree (snd (set_prot (\<lambda>_. True) 0x1000 0x5000 4 demo_areas))) 0x4010 = Some (4, 0, -1, 0x10, None)"
proof -
  obtain ok m' where run: "set_prot (\<lambda>_. True) 0x1000 0x5000 4 demo_areas = (ok, m')"
    by (rule prod.exhaust)
  have "fst (set_prot (\<lambda>_. True) 0x1000 0x5000 4 demo_areas)" "mapping (tree demo_areas) 0x4010 = Some (1, 0, -1, 0x10, None)"
    by code_simp+
  then show ?thesis
    using vma_set_prot_refines [OF demo_areas_ok run] run by (simp add: recolour_def)
qed

text \<open>C31. \<open>covers\<close>, which jumps from area to area, agrees with the definition of coverage: the range is not
  empty and every byte of it is mapped.\<close>

theorem vma_covers_every_byte:
  assumes "areas_ok rs"
  shows "covers rs s e \<longleftrightarrow> s < e \<and> (\<forall>a. s \<le> a \<and> a < e \<longrightarrow> mapping rs a \<noteq> None)"
  using assms by (rule covers_iff)

theorem vma_covers_every_byte_witness:
  "covers (tree demo_areas) 0x1000 0x6000 \<and> \<not> covers (tree demo_areas) 0x1000 0x6001 \<and> mapping (tree demo_areas) 0x5555 \<noteq> None"
proof -
  have ok: "areas_ok (tree demo_areas)"
    using demo_areas_ok by (simp add: manager_ok_def)
  have "mapping (tree demo_areas) 0x6000 = None" "covers (tree demo_areas) 0x1000 0x6000"
    by code_simp+
  then have "\<not> (\<forall>a. 0x1000 \<le> a \<and> a < 0x6001 \<longrightarrow> mapping (tree demo_areas) a \<noteq> None)"
    by (auto intro!: exI [of _ "0x6000"])
  then show ?thesis
    using vma_covers_every_byte [OF ok, of "0x1000" "0x6000"] vma_covers_every_byte [OF ok, of "0x1000" "0x6001"]
      \<open>covers (tree demo_areas) 0x1000 0x6000\<close> by simp
qed

end
