(* ===== verification/Vmm.thy ===== *)
theory Vmm
  imports Pmm Vma
begin

text \<open>Page tables of the amd64 build (src/src/arch/amd64/vmm.cpp, vmm.hpp, user_access.hpp) and the copies
  between kernel and user memory (src/src/kernel/memory/user_access.cpp).  Physical memory is the one memory
  of the state: frames of 512 words of 64 bits, which hold page tables or data, indexed by the address of
  the frame.  Bytes are read from and written into these words.  Tables are allocated from the page frame
  allocator of \<open>Pmm\<close>.  Locks, the invalidation of TLB entries and the self-test code are left out.\<close>

unbundle bit_operations_syntax

section \<open>State\<close>

definition USER_BEGIN :: addr where
  "USER_BEGIN = 0x8000000000"

definition USER_END :: addr where
  "USER_END = 0x800000000000"

definition user_range :: "addr \<Rightarrow> nat \<Rightarrow> bool" where
  "user_range a len \<longleftrightarrow> a \<ge> USER_BEGIN \<and> a < USER_END \<and> len \<le> USER_END - a"

definition PRESENT :: "64 word" where
  "PRESENT = 1"

definition WRITABLE :: "64 word" where
  "WRITABLE = 2"

definition USER :: "64 word" where
  "USER = 4"

definition NO_EXECUTE :: "64 word" where
  "NO_EXECUTE = push_bit 63 1"

definition PAGE_SIZE_BIT :: "64 word" where
  "PAGE_SIZE_BIT = push_bit 7 1"

definition FRAME_MASK :: "64 word" where
  "FRAME_MASK = 0x000FFFFFFFFFF000"

record machine =
  phys :: pmm
  mem :: "addr \<Rightarrow> nat \<Rightarrow> 64 word"
  cr3 :: "nat \<Rightarrow> addr"
  roots :: "nat \<Rightarrow> addr"
  g_pml4 :: addr

definition store :: "addr \<Rightarrow> nat \<Rightarrow> 64 word \<Rightarrow> machine \<Rightarrow> machine" where
  "store t i e m = m\<lparr>mem := (mem m)(t := (mem m t)(i := e))\<rparr>"

definition clear_frame :: "addr \<Rightarrow> machine \<Rightarrow> machine" where
  "clear_frame t m = m\<lparr>mem := (mem m)(t := (\<lambda>_. 0))\<rparr>"

definition frame_of :: "64 word \<Rightarrow> addr" where
  "frame_of e = unat (e AND FRAME_MASK)"

definition table_index :: "nat \<Rightarrow> addr \<Rightarrow> nat" where
  "table_index level virt = virt div 2 ^ (12 + 9 * level) mod 512"

definition alloc_frame :: "nat \<Rightarrow> machine \<Rightarrow> addr \<times> machine" where
  "alloc_frame cpu m = (let (a, p) = pmm_alloc_page cpu (phys m) in (a, m\<lparr>phys := p\<rparr>))"

definition free_frame :: "nat \<Rightarrow> addr \<Rightarrow> machine \<Rightarrow> machine" where
  "free_frame cpu a m = m\<lparr>phys := pmm_free_page cpu a (phys m)\<rparr>"

section \<open>Page tables\<close>

definition get_next_table :: "nat \<Rightarrow> bool \<Rightarrow> addr \<Rightarrow> nat \<Rightarrow> machine \<Rightarrow> addr option \<times> machine" where
  "get_next_table cpu create t i m =
    (if mem m t i AND PRESENT \<noteq> 0 then (Some (frame_of (mem m t i)), m)
     else if \<not> create then (None, m)
     else
       let (a, m) = alloc_frame cpu m in
       if a = 0 then (None, m)
       else (Some a, store t i (of_nat a OR PRESENT OR WRITABLE OR USER) (clear_frame a m)))"

definition get_active_page_table :: "nat \<Rightarrow> machine \<Rightarrow> addr" where
  "get_active_page_table cpu m = cr3 m cpu"

definition active_root :: "nat \<Rightarrow> machine \<Rightarrow> addr" where
  "active_root cpu m = cr3 m cpu div 4096 * 4096"

definition create_address_space :: "nat \<Rightarrow> machine \<Rightarrow> addr \<times> machine" where
  "create_address_space cpu m =
    (let (a, m) = alloc_frame cpu m in
     if a = 0 then (0, m) else (a, store a 0 (mem m (g_pml4 m) 0) (clear_frame a m)))"

definition vmm_map :: "nat \<Rightarrow> addr \<Rightarrow> addr \<Rightarrow> 64 word \<Rightarrow> machine \<Rightarrow> machine" where
  "vmm_map cpu virt p flags m =
    (if (\<not> user_range virt PAGE_SIZE \<and> (virt \<noteq> p \<or> flags AND 4 \<noteq> 0)) \<or> virt mod 4096 \<noteq> 0 \<or> p mod 4096 \<noteq> 0 then m
     else
       case get_next_table cpu True (active_root cpu m) (table_index 3 virt) m of
         (None, m) \<Rightarrow> m
       | (Some pdpt, m) \<Rightarrow>
       (case get_next_table cpu True pdpt (table_index 2 virt) m of
         (None, m) \<Rightarrow> m
       | (Some pd, m) \<Rightarrow>
       (case get_next_table cpu True pd (table_index 1 virt) m of
         (None, m) \<Rightarrow> m
       | (Some pt, m) \<Rightarrow> store pt (table_index 0 virt) (of_nat (p div 4096 * 4096) OR flags) m)))"

definition map_2mb :: "nat \<Rightarrow> addr \<Rightarrow> addr \<Rightarrow> 64 word \<Rightarrow> machine \<Rightarrow> machine" where
  "map_2mb cpu virt p flags m =
    (if (\<not> user_range virt 0x200000 \<and> (virt \<noteq> p \<or> flags AND 4 \<noteq> 0)) \<or> virt mod 0x200000 \<noteq> 0 \<or> p mod 0x200000 \<noteq> 0 then m
     else
       case get_next_table cpu True (active_root cpu m) (table_index 3 virt) m of
         (None, m) \<Rightarrow> m
       | (Some pdpt, m) \<Rightarrow>
       (case get_next_table cpu True pdpt (table_index 2 virt) m of
         (None, m) \<Rightarrow> m
       | (Some pd, m) \<Rightarrow>
         if mem m pd (table_index 1 virt) AND 1 \<noteq> 0 \<and> mem m pd (table_index 1 virt) AND PAGE_SIZE_BIT = 0 then m
         else store pd (table_index 1 virt) (of_nat (p div 0x200000 * 0x200000) OR flags OR PAGE_SIZE_BIT) m))"

definition vmm_unmap :: "nat \<Rightarrow> addr \<Rightarrow> machine \<Rightarrow> machine" where
  "vmm_unmap cpu virt m =
    (if \<not> user_range virt PAGE_SIZE \<or> virt mod 4096 \<noteq> 0 then m
     else
       case get_next_table cpu False (get_active_page_table cpu m) (table_index 3 virt) m of
         (None, m) \<Rightarrow> m
       | (Some pdpt, m) \<Rightarrow>
       (case get_next_table cpu False pdpt (table_index 2 virt) m of
         (None, m) \<Rightarrow> m
       | (Some pd, m) \<Rightarrow>
         if mem m pd (table_index 1 virt) AND PAGE_SIZE_BIT \<noteq> 0 then store pd (table_index 1 virt) 0 m
         else
           case get_next_table cpu False pd (table_index 1 virt) m of
             (None, m) \<Rightarrow> m
           | (Some pt, m) \<Rightarrow> store pt (table_index 0 virt) 0 m))"

definition PERMISSION_MASK :: "64 word" where
  "PERMISSION_MASK = PRESENT OR WRITABLE OR USER OR NO_EXECUTE"

definition vmm_protect :: "nat \<Rightarrow> addr \<Rightarrow> 64 word \<Rightarrow> machine \<Rightarrow> bool \<times> machine" where
  "vmm_protect cpu virt flags m =
    (if \<not> user_range virt PAGE_SIZE \<or> virt mod 4096 \<noteq> 0 then (False, m)
     else
       case get_next_table cpu False (active_root cpu m) (table_index 3 virt) m of
         (None, m) \<Rightarrow> (False, m)
       | (Some pdpt, m) \<Rightarrow>
       (case get_next_table cpu False pdpt (table_index 2 virt) m of
         (None, m) \<Rightarrow> (False, m)
       | (Some pd, m) \<Rightarrow>
         if mem m pd (table_index 1 virt) AND PAGE_SIZE_BIT \<noteq> 0 then (False, m)
         else
           case get_next_table cpu False pd (table_index 1 virt) m of
             (None, m) \<Rightarrow> (False, m)
           | (Some pt, m) \<Rightarrow>
               let entry = mem m pt (table_index 0 virt) in
               if entry AND PRESENT = 0 then (False, m)
               else (True, store pt (table_index 0 virt) (entry AND NOT PERMISSION_MASK OR flags AND PERMISSION_MASK) m)))"

definition CPU_LIMIT :: nat where
  "CPU_LIMIT = 64"

text \<open>The set of processors in a mask, which is empty for the root 0.\<close>

definition roots_mask :: "addr \<Rightarrow> machine \<Rightarrow> nat list" where
  "roots_mask root m = (if root = 0 then [] else filter (\<lambda>i. roots m i = root) [0..<CPU_LIMIT])"

definition vmm_switch_to :: "nat \<Rightarrow> addr \<Rightarrow> machine \<Rightarrow> machine" where
  "vmm_switch_to cpu root m = m\<lparr>cr3 := (cr3 m)(cpu := root), roots := (roots m)(cpu := root)\<rparr>"

definition get_phys :: "nat \<Rightarrow> addr \<Rightarrow> machine \<Rightarrow> addr" where
  "get_phys cpu virt m =
    (case get_next_table cpu False (active_root cpu m) (table_index 3 virt) m of
       (None, _) \<Rightarrow> 0
     | (Some pdpt, _) \<Rightarrow>
     (case get_next_table cpu False pdpt (table_index 2 virt) m of
       (None, _) \<Rightarrow> 0
     | (Some pd, _) \<Rightarrow>
       if mem m pd (table_index 1 virt) AND PAGE_SIZE_BIT \<noteq> 0 then
         unat (mem m pd (table_index 1 virt) AND 0x000FFFFFFFE00000 OR of_nat (virt mod 0x200000))
       else
         case get_next_table cpu False pd (table_index 1 virt) m of
           (None, _) \<Rightarrow> 0
         | (Some pt, _) \<Rightarrow>
             if mem m pt (table_index 0 virt) AND PRESENT \<noteq> 0 then
               unat (mem m pt (table_index 0 virt) AND FRAME_MASK OR of_nat (virt mod 4096))
             else 0))"

text \<open>The release of a private table and what it refers to; areas are those of the address space, if it has
  any.\<close>

primrec discard_private_table :: "nat \<Rightarrow> vma_manager option \<Rightarrow> nat \<Rightarrow> addr \<Rightarrow> addr \<Rightarrow> machine \<Rightarrow> machine" where
  "discard_private_table cpu areas 0 t base m = m"
| "discard_private_table cpu areas (Suc depth) t base m =
    free_frame cpu t
      (fold (\<lambda>i m.
         if mem m t i AND 1 = 0 then m
         else
           let child = frame_of (mem m t i); virt = base + i * 2 ^ (12 + 9 * depth) in
           if depth = 0 then
             (if areas = None \<or> owns_frame virt (the areas) then free_frame cpu child m else m)
           else discard_private_table cpu areas depth child virt m) [0..<512] m)"

definition discard_address_space :: "nat \<Rightarrow> addr \<Rightarrow> vma_manager option \<Rightarrow> machine \<Rightarrow> machine" where
  "discard_address_space cpu root areas m =
    (if root = 0 then m
     else if root = get_active_page_table cpu m \<or> roots_mask root m \<noteq> [] then m
     else
       free_frame cpu root
         (fold (\<lambda>i m.
            if mem m root i AND 1 \<noteq> 0 then
              discard_private_table cpu areas 3 (frame_of (mem m root i)) (i * 2 ^ 39) m
            else m) [1..<256] m))"

text \<open>The loop of \<open>get_user_phys\<close>, over the levels from 3 (shift 39) down to 0 (shift 12).\<close>

fun user_phys_loop :: "64 word \<Rightarrow> nat \<Rightarrow> addr \<Rightarrow> addr \<Rightarrow> machine \<Rightarrow> addr" where
  "user_phys_loop required level t virt m =
    (let entry = mem m t (table_index level virt); shift = 12 + 9 * level in
     if entry AND required \<noteq> required then 0
     else if level = 0 \<or> level \<noteq> 3 \<and> entry AND 128 \<noteq> 0 then
       unat (entry AND FRAME_MASK AND NOT (mask shift) OR of_nat (virt mod 2 ^ shift))
     else user_phys_loop required (level - 1) (frame_of entry) virt m)"

declare user_phys_loop.simps [simp del]

definition get_user_phys :: "nat \<Rightarrow> addr \<Rightarrow> bool \<Rightarrow> machine \<Rightarrow> addr" where
  "get_user_phys cpu virt wr m =
    (if \<not> user_range virt 1 then 0
     else user_phys_loop (5 OR (if wr then 2 else 0)) 3 (frame_of (of_nat (get_active_page_table cpu m))) virt m)"

section \<open>User memory\<close>

text \<open>Bytes of the words of physical memory, in little-endian order.\<close>

definition get_byte :: "64 word \<Rightarrow> nat \<Rightarrow> 8 word" where
  "get_byte w k = ucast (drop_bit (8 * k) w)"

definition set_byte :: "64 word \<Rightarrow> nat \<Rightarrow> 8 word \<Rightarrow> 64 word" where
  "set_byte w k b = w AND NOT (push_bit (8 * k) (mask 8)) OR push_bit (8 * k) (ucast b)"

definition byte_at :: "addr \<Rightarrow> machine \<Rightarrow> 8 word" where
  "byte_at a m = get_byte (mem m (a div 4096 * 4096) (a mod 4096 div 8)) (a mod 8)"

definition put_byte :: "addr \<Rightarrow> 8 word \<Rightarrow> machine \<Rightarrow> machine" where
  "put_byte a b m =
    (let t = a div 4096 * 4096; i = a mod 4096 div 8 in store t i (set_byte (mem m t i) (a mod 8) b) m)"

fun write_bytes :: "addr \<Rightarrow> 8 word list \<Rightarrow> machine \<Rightarrow> machine" where
  "write_bytes a [] m = m"
| "write_bytes a (b # bs) m = write_bytes (a + 1) bs (put_byte a b m)"

definition read_bytes :: "addr \<Rightarrow> nat \<Rightarrow> machine \<Rightarrow> 8 word list" where
  "read_bytes a n m = map (\<lambda>k. byte_at (a + k) m) [0..<n]"

function accessible_loop :: "nat \<Rightarrow> addr \<Rightarrow> nat \<Rightarrow> bool \<Rightarrow> machine \<Rightarrow> bool" where
  "accessible_loop cpu a n wr m =
    (if n \<noteq> 0 then
       if get_user_phys cpu a wr m = 0 then False
       else let count = min n (4096 - a mod 4096) in accessible_loop cpu (a + count) (n - count) wr m
     else True)"
  by pat_completeness auto
termination
  by (relation "measure (\<lambda>(cpu, a, n, wr, m). n)") (auto simp: Let_def)

declare accessible_loop.simps [simp del]

definition accessible :: "nat \<Rightarrow> addr \<Rightarrow> nat \<Rightarrow> bool \<Rightarrow> machine \<Rightarrow> bool" where
  "accessible cpu a n wr m \<longleftrightarrow> (if n = 0 then True else if \<not> user_range a n then False else accessible_loop cpu a n wr m)"

definition user_accessible :: "nat \<Rightarrow> addr \<Rightarrow> nat \<Rightarrow> bool \<Rightarrow> machine \<Rightarrow> bool" where
  "user_accessible cpu a n wr m = accessible cpu a n wr m"

text \<open>The loop of \<open>copy\<close>, for either direction.\<close>

function copy_out_loop :: "nat \<Rightarrow> addr \<Rightarrow> 8 word list \<Rightarrow> machine \<Rightarrow> machine" where
  "copy_out_loop cpu a data m =
    (if data \<noteq> [] then
       let p = get_user_phys cpu a True m; count = min (length data) (4096 - a mod 4096)
       in copy_out_loop cpu (a + count) (drop count data) (write_bytes p (take count data) m)
     else m)"
  by pat_completeness auto
termination
  by (relation "measure (\<lambda>(cpu, a, data, m). length data)") (auto simp: Let_def)

function copy_in_loop :: "nat \<Rightarrow> addr \<Rightarrow> nat \<Rightarrow> machine \<Rightarrow> 8 word list" where
  "copy_in_loop cpu a n m =
    (if n \<noteq> 0 then
       let p = get_user_phys cpu a False m; count = min n (4096 - a mod 4096)
       in read_bytes p count m @ copy_in_loop cpu (a + count) (n - count) m
     else [])"
  by pat_completeness auto
termination
  by (relation "measure (\<lambda>(cpu, a, n, m). n)") (auto simp: Let_def)

declare copy_out_loop.simps [simp del] copy_in_loop.simps [simp del]

definition copy_to_user :: "nat \<Rightarrow> addr \<Rightarrow> 8 word list \<Rightarrow> machine \<Rightarrow> bool \<times> machine" where
  "copy_to_user cpu dest data m =
    (if \<not> accessible cpu dest (length data) True m then (False, m) else (True, copy_out_loop cpu dest data m))"

definition copy_from_user :: "nat \<Rightarrow> addr \<Rightarrow> nat \<Rightarrow> machine \<Rightarrow> 8 word list option" where
  "copy_from_user cpu source n m =
    (if \<not> accessible cpu source n False m then None else Some (copy_in_loop cpu source n m))"

primrec copy_string_loop :: "nat \<Rightarrow> nat \<Rightarrow> nat \<Rightarrow> addr \<Rightarrow> 8 word list \<Rightarrow> machine \<Rightarrow> int \<times> 8 word list" where
  "copy_string_loop 0 cpu i a dest m = (-36, dest)"
| "copy_string_loop (Suc n) cpu i a dest m =
    (if \<not> user_range a 1 then (-14, dest)
     else
       let p = get_user_phys cpu a False m in
       if p = 0 then (-14, dest)
       else if byte_at p m = 0 then (int i, dest @ [byte_at p m])
       else copy_string_loop n cpu (i + 1) (a + 1) (dest @ [byte_at p m]) m)"

definition copy_user_string :: "nat \<Rightarrow> addr \<Rightarrow> nat \<Rightarrow> machine \<Rightarrow> int \<times> 8 word list" where
  "copy_user_string cpu source capacity m = copy_string_loop capacity cpu 0 source [] m"

section \<open>Entries\<close>

lemma bit_FRAME_MASK: "bit FRAME_MASK n \<longleftrightarrow> 12 \<le> n \<and> n < 52"
proof -
  have "FRAME_MASK = push_bit 12 (mask 40)"
    by (simp add: FRAME_MASK_def mask_eq_exp_minus_1 push_bit_eq_mult)
  then have "bit FRAME_MASK n = bit (push_bit 12 (mask 40) :: 64 word) n"
    by (rule arg_cong)
  also have "\<dots> \<longleftrightarrow> 12 \<le> n \<and> n < 52"
    by (auto simp: bit_simps)
  finally show ?thesis .
qed

lemma bit_frame_address:
  assumes "a mod 4096 = 0" and "a < 2 ^ 52" and "bit (of_nat a :: 64 word) n"
  shows "12 \<le> n \<and> n < 52"
proof -
  have a: "a = 2 ^ 12 * (a div 4096)"
    using assms(1) by auto
  have n: "bit a n" "n < 64"
    using assms(3) by (simp_all add: bit_simps)
  have "bit (push_bit 12 (a div 4096)) n"
    using n(1) a by (simp add: push_bit_eq_mult mult.commute)
  then have "12 \<le> n"
    by (simp add: bit_simps)
  moreover have "n < 52"
  proof (rule ccontr)
    assume "\<not> n < 52"
    then have "a < 2 ^ n"
      using assms(2) by (meson less_le_trans linorder_not_less one_le_numeral power_increasing)
    then show False
      using n(1) by (simp add: bit_iff_odd)
  qed
  ultimately show ?thesis
    by simp
qed

text \<open>An address of a frame with flags outside the address field: both parts can be read back.\<close>

lemma entry_parts:
  assumes "a mod 4096 = 0" and "a < 2 ^ 52" and "f AND FRAME_MASK = 0"
  shows "(of_nat a OR f) AND FRAME_MASK = of_nat a" "g AND FRAME_MASK = 0 \<Longrightarrow> (of_nat a OR f) AND g = f AND g"
    "frame_of (of_nat a OR f) = a"
proof -
  have f: "\<not> (bit f n \<and> bit FRAME_MASK n)" for n
    using assms(3) by (metis bit_and_iff bit_0_eq bot_apply bot_bool_def)
  show masked: "(of_nat a OR f) AND FRAME_MASK = of_nat a"
    using f bit_frame_address [OF assms(1,2)] by (intro bit_word_eqI) (auto simp: bit_FRAME_MASK bit_and_iff bit_or_iff)
  show "(of_nat a OR f) AND g = f AND g" if "g AND FRAME_MASK = 0"
  proof -
    have "\<not> (bit g n \<and> bit FRAME_MASK n)" for n
      using that by (metis bit_and_iff bit_0_eq bot_apply bot_bool_def)
    then show ?thesis
      using bit_frame_address [OF assms(1,2)] by (intro bit_word_eqI) (auto simp: bit_FRAME_MASK bit_and_iff bit_or_iff)
  qed
  show "frame_of (of_nat a OR f) = a"
    using assms(2) by (simp add: frame_of_def masked unsigned_of_nat take_bit_nat_eq_self)
qed

lemma low_flags: "PRESENT AND FRAME_MASK = 0" "(7 :: 64 word) AND FRAME_MASK = 0" "PAGE_SIZE_BIT AND FRAME_MASK = 0"
  "PRESENT OR WRITABLE OR USER = 7" "(7 :: 64 word) AND PRESENT = 1" "(7 :: 64 word) AND PAGE_SIZE_BIT = 0"
  by (simp_all add: PRESENT_def WRITABLE_def USER_def PAGE_SIZE_BIT_def FRAME_MASK_def push_bit_eq_mult)

section \<open>The tree of user tables\<close>

text \<open>A path is a sequence of indices from the root; those of user addresses start with an index of
  1 to 255, while index 0 leads to the tables that all address spaces share.\<close>

fun walk :: "machine \<Rightarrow> addr \<Rightarrow> nat list \<Rightarrow> addr option" where
  "walk m t [] = Some t"
| "walk m t (i # is) = (if mem m t i AND PRESENT \<noteq> 0 then walk m (frame_of (mem m t i)) is else None)"

definition user_path :: "nat list \<Rightarrow> bool" where
  "user_path p \<longleftrightarrow> length p \<le> 3 \<and> (\<forall>i\<in>set p. i < 512) \<and> (p \<noteq> [] \<longrightarrow> 1 \<le> hd p \<and> hd p < 256)"

definition tree_ok :: "addr \<Rightarrow> machine \<Rightarrow> bool" where
  "tree_ok r m \<longleftrightarrow>
     (\<forall>p t. user_path p \<and> walk m r p = Some t \<longrightarrow> t mod 4096 = 0 \<and> t div 4096 \<notin># pmm_frames (phys m)) \<and>
     (\<forall>p q t. user_path p \<and> user_path q \<and> walk m r p = Some t \<and> walk m r q = Some t \<longrightarrow> p = q) \<and>
     (\<forall>p i t. user_path (p @ [i]) \<and> walk m r p = Some t \<longrightarrow>
        mem m t i = 0 \<or> mem m t i AND 7 = 7 \<and> mem m t i AND PAGE_SIZE_BIT = 0)"

definition frames_ok :: "machine \<Rightarrow> bool" where
  "frames_ok m \<longleftrightarrow> pmm_inv (phys m) \<and> (\<forall>f\<in>pmm_arena (phys m). f < 2 ^ 40)"

definition entry_at :: "machine \<Rightarrow> addr \<Rightarrow> nat list \<Rightarrow> nat \<Rightarrow> 64 word" where
  "entry_at m r p i = (case walk m r p of None \<Rightarrow> 0 | Some t \<Rightarrow> mem m t i)"

lemma walk_snoc:
  "walk m r (p @ [i]) = (case walk m r p of None \<Rightarrow> None
     | Some t \<Rightarrow> if mem m t i AND PRESENT \<noteq> 0 then Some (frame_of (mem m t i)) else None)"
  by (induction p arbitrary: r) auto

lemma user_path_butlast: "user_path (p @ [i]) \<Longrightarrow> user_path p"
  by (cases p) (auto simp: user_path_def)

lemma tree_okD:
  assumes "tree_ok r m"
  shows "user_path p \<Longrightarrow> walk m r p = Some t \<Longrightarrow> t mod 4096 = 0"
    "user_path p \<Longrightarrow> walk m r p = Some t \<Longrightarrow> t div 4096 \<notin># pmm_frames (phys m)"
    "user_path p \<Longrightarrow> user_path q \<Longrightarrow> walk m r p = Some t \<Longrightarrow> walk m r q = Some t \<Longrightarrow> p = q"
    "user_path (p @ [i]) \<Longrightarrow> walk m r p = Some t \<Longrightarrow> mem m t i = 0 \<or> mem m t i AND 7 = 7 \<and> mem m t i AND PAGE_SIZE_BIT = 0"
  using assms unfolding tree_ok_def by blast+

text \<open>The buddy allocator has no free frame and the cache of the processor no page.\<close>

definition exhausted :: "nat \<Rightarrow> pmm \<Rightarrow> bool" where
  "exhausted cpu s \<longleftrightarrow> free_frames (g_buddy s) = {#} \<and> pcount (g_pcpu_caches s ! cpu) = 0"

lemma refill_count: "pcount c \<le> pcount (fst (refill_loop n c b))"
proof (induction n arbitrary: c b)
  case (Suc n)
  obtain a b' where "buddy_alloc_page b = (a, b')"
    by (rule prod.exhaust)
  then show ?case
    using Suc [of "c\<lparr>pages := (pages c)[pcount c := a], pcount := pcount c + 1\<rparr>" b'] by simp
qed simp

text \<open>The allocator refuses a page only when nothing is left.\<close>

lemma pmm_alloc_page_empty:
  assumes inv: "pmm_inv s" and cpu: "cpu < MAX_CPUS" and run: "pmm_alloc_page cpu s = (0, s')"
  shows "exhausted cpu s'"
proof -
  define c where "c = g_pcpu_caches s ! cpu"
  obtain c1 b where c1: "(if pcount c = 0 then cache_refill c (g_buddy s) else (c, g_buddy s)) = (c1, b)"
    by fastforce
  have "pcount c1 = 0"
    using run cache_ok_pop(2) [of c1 "pages c1 ! (pcount c1 - 1)"] cache_for_alloc [OF inv cpu c_def c1]
    by (auto simp: pmm_alloc_page_def c_def [symmetric] c1 Let_def split: if_splits)
  moreover have s': "g_buddy s' = b" "g_pcpu_caches s' = (g_pcpu_caches s)[cpu := c1]"
    using run \<open>pcount c1 = 0\<close> by (auto simp: pmm_alloc_page_def c_def [symmetric] c1 Let_def split: if_splits)
  moreover obtain n where n: "PCPU_CACHE_SIZE div 2 = Suc n"
    by (cases "PCPU_CACHE_SIZE div 2") (auto simp: PCPU_CACHE_SIZE_def)
  ultimately have refill: "refill_loop (Suc n) c (g_buddy s) = (c1, b)" "pcount c1 = 0"
    using c1 by (auto simp: cache_refill_def split: if_splits)
  obtain a b' where a: "buddy_alloc_page (g_buddy s) = (a, b')"
    by (rule prod.exhaust)
  have "a = 0"
    using refill a refill_count [of "c\<lparr>pages := (pages c)[pcount c := a], pcount := pcount c + 1\<rparr>" n b']
    by (auto split: if_splits)
  then have "b = b'"
    using refill(1) a by simp
  then show ?thesis
    using pages.get_none [of "g_buddy s" b'] pages.get_none_empty [of "g_buddy s" b'] a \<open>a = 0\<close> inv s' \<open>pcount c1 = 0\<close> cpu
    by (simp add: pmm_inv_def exhausted_def)
qed

lemma alloc_frame_ok:
  assumes ok: "frames_ok m" and cpu: "cpu < MAX_CPUS" and run: "alloc_frame cpu m = (a, m')"
  shows "frames_ok m'" "mem m' = mem m" "cr3 m' = cr3 m" "roots m' = roots m"
    "a = 0 \<Longrightarrow> pmm_frames (phys m') = pmm_frames (phys m) \<and> exhausted cpu (phys m')"
    "a \<noteq> 0 \<Longrightarrow> a mod 4096 = 0 \<and> a < 2 ^ 52 \<and> pmm_frames (phys m) = add_mset (a div 4096) (pmm_frames (phys m'))"
proof -
  obtain s where s: "pmm_alloc_page cpu (phys m) = (a, s)" "m' = m\<lparr>phys := s\<rparr>"
    using run by (auto simp: alloc_frame_def split: prod.splits)
  have inv: "pmm_inv (phys m)" and small: "\<forall>f\<in>pmm_arena (phys m). f < 2 ^ 40"
    using ok by (simp_all add: frames_ok_def)
  note facts = pmm_alloc_page_ok [OF inv cpu s(1)]
  show "frames_ok m'" "mem m' = mem m" "cr3 m' = cr3 m" "roots m' = roots m"
    using facts small by (simp_all add: s(2) frames_ok_def)
  show "pmm_frames (phys m') = pmm_frames (phys m) \<and> exhausted cpu (phys m')" if "a = 0"
    using facts(3) pmm_alloc_page_empty [OF inv cpu] s that by simp
  show "a mod 4096 = 0 \<and> a < 2 ^ 52 \<and> pmm_frames (phys m) = add_mset (a div 4096) (pmm_frames (phys m'))" if "a \<noteq> 0"
  proof -
    have "a div 4096 \<in> pmm_arena (phys m)"
      using facts(4) [OF that] pmm_pages.avail_distinct [OF inv] by auto
    then have "a div 4096 < 2 ^ 40"
      using small by blast
    then have "a < 2 ^ 52"
      by simp
    then show ?thesis
      using facts(4) [OF that] by (simp add: s(2))
  qed
qed

text \<open>What a change of the tables of the address space \<open>r\<close> may touch: tables of its tree, and frames that
  were free.\<close>

definition touches :: "addr \<Rightarrow> machine \<Rightarrow> addr set" where
  "touches r m = {t. (\<exists>p. user_path p \<and> walk m r p = Some t) \<or> t div 4096 \<in># pmm_frames (phys m)}"

text \<open>A new table at the end of the path \<open>p @ [i]\<close>.\<close>

lemma add_table:
  assumes ok: "tree_ok r m" and p: "user_path (p @ [i])" "walk m r p = Some t" and absent: "mem m t i AND PRESENT = 0"
    and a: "a mod 4096 = 0" "a < 2 ^ 52" "a div 4096 \<in># pmm_frames (phys m)" "set_mset (pmm_frames s) \<subseteq> set_mset (pmm_frames (phys m))"
      "a div 4096 \<notin># pmm_frames s"
  defines "m' \<equiv> store t i (of_nat a OR 7) (clear_frame a (m\<lparr>phys := s\<rparr>))"
  shows "user_path q \<Longrightarrow> walk m' r q = (if q = p @ [i] then Some a else walk m r q)" "tree_ok r m'"
    "user_path q \<Longrightarrow> length q = 3 \<Longrightarrow> entry_at m' r q j = entry_at m r q j"
proof -
  have ta: "t \<noteq> a"
    using tree_okD(2) [OF ok user_path_butlast [OF p(1)] p(2)] a(3) by auto
  have fresh: "u \<noteq> a" if "user_path q" "walk m r q = Some u" for q u
    using tree_okD(2) [OF ok that] a(3) by auto
  note e = entry_parts [OF a(1,2) low_flags(2)]
  have mem': "mem m' u j = (if u = t \<and> j = i then of_nat a OR 7 else if u = a then 0 else mem m u j)" for u j
    using ta by (simp add: m'_def store_def clear_frame_def)
  have new: "mem m' t i AND PRESENT = 1" "frame_of (mem m' t i) = a" "mem m' t i AND PAGE_SIZE_BIT = 0" "mem m' t i AND 7 = 7"
    using e by (simp_all add: mem' low_flags)
  have none: "walk m r (p @ [i]) = None"
    using p(2) absent by (simp add: walk_snoc)
  show walk': "walk m' r q = (if q = p @ [i] then Some a else walk m r q)" if "user_path q" for q
    using that
  proof (induction q rule: rev_induct)
    case Nil
    then show ?case
      by simp
  next
    case (snoc j q)
    note ih = snoc.IH [OF user_path_butlast [OF snoc.prems]]
    note last = walk_snoc [of _ r q j]
    show ?case
    proof (cases "q = p @ [i]")
      case True
      then show ?thesis
        using ih none ta last [of m] last [of m'] by (simp add: mem' del: append_assoc)
    next
      case False
      show ?thesis
      proof (cases "walk m r q")
        case None
        then show ?thesis
          using ih False p(2) by (auto simp: last)
      next
        case (Some u)
        have "u = t \<longleftrightarrow> q = p"
          using tree_okD(3) [OF ok user_path_butlast [OF snoc.prems] user_path_butlast [OF p(1)] Some] p(2) Some by auto
        then show ?thesis
          using ih False Some new(1,2) fresh [OF user_path_butlast [OF snoc.prems] Some]
            last [of m] last [of m']
          by (cases "u = t \<and> j = i") (auto simp: mem')
      qed
    qed
  qed
  show "tree_ok r m'"
    unfolding tree_ok_def
  proof (intro conjI allI impI; elim conjE)
    fix q u
    assume q: "user_path q" "walk m' r q = Some u"
    then show "u mod 4096 = 0"
      using walk' [OF q(1)] a(1) tree_okD(1) [OF ok q(1)] by (auto split: if_splits)
    have "phys m' = s"
      by (simp add: m'_def store_def clear_frame_def)
    then show "u div 4096 \<notin># pmm_frames (phys m')"
      using q walk' [OF q(1)] a(4,5) tree_okD(2) [OF ok q(1)] by (auto split: if_splits)
  next
    fix q q' u
    assume "user_path q" "user_path q'" "walk m' r q = Some u" "walk m' r q' = Some u"
    then show "q = q'"
      using walk' [of q] walk' [of q'] fresh [of q u] fresh [of q' u] tree_okD(3) [OF ok, of q q' u] by (auto split: if_splits)
  next
    fix q j u
    assume q: "user_path (q @ [j])" "walk m' r q = Some u"
    show "mem m' u j = 0 \<or> mem m' u j AND 7 = 7 \<and> mem m' u j AND PAGE_SIZE_BIT = 0"
    proof (cases "q = p @ [i]")
      case True
      then show ?thesis
        using q walk' [OF user_path_butlast [OF q(1)]] ta mem' by simp
    next
      case False
      then have "walk m r q = Some u" "u \<noteq> a"
        using q walk' [OF user_path_butlast [OF q(1)]] fresh [OF user_path_butlast [OF q(1)]] by auto
      then show ?thesis
        using new(3,4) mem' tree_okD(4) [OF ok q(1), of u] by (cases "u = t \<and> j = i"; simp)
    qed
  qed
  show "entry_at m' r q j = entry_at m r q j" if "user_path q" "length q = 3"
  proof (cases "q = p @ [i]")
    case True
    then show ?thesis
      using walk' [OF that(1)] none ta by (simp add: entry_at_def mem')
  next
    case False
    have "u \<noteq> t" if "walk m r q = Some u" for u
      using tree_okD(3) [OF ok \<open>user_path q\<close> user_path_butlast [OF p(1)] that] p \<open>length q = 3\<close>
      by (auto simp: user_path_def)
    then show ?thesis
      using walk' [OF that(1)] False fresh [OF that(1)] by (auto simp: entry_at_def mem' split: option.splits)
  qed
qed

text \<open>The tables of \<open>m'\<close> extend those of \<open>m\<close>, and every leaf entry is as before.\<close>

definition extends :: "addr \<Rightarrow> machine \<Rightarrow> machine \<Rightarrow> bool" where
  "extends r m m' \<longleftrightarrow>
     frames_ok m' \<and> tree_ok r m' \<and> cr3 m' = cr3 m \<and> roots m' = roots m \<and> touches r m' \<subseteq> touches r m \<and>
     (\<forall>q t. user_path q \<and> walk m r q = Some t \<longrightarrow> walk m' r q = Some t) \<and>
     (\<forall>q j. user_path q \<and> length q = 3 \<longrightarrow> entry_at m' r q j = entry_at m r q j) \<and>
     (\<forall>x. x \<notin> touches r m \<longrightarrow> mem m' x = mem m x)"

lemma extends_refl: "frames_ok m \<Longrightarrow> tree_ok r m \<Longrightarrow> extends r m m"
  by (simp add: extends_def)

lemma extends_trans: "extends r m m1 \<Longrightarrow> extends r m1 m2 \<Longrightarrow> extends r m m2"
  unfolding extends_def by (auto 0 3)

lemma walk_cong: "mem m' = mem m \<Longrightarrow> walk m' r p = walk m r p"
  by (induction p arbitrary: r) simp_all

lemma tree_ok_frames: "tree_ok r m \<Longrightarrow> mem m' = mem m \<Longrightarrow> pmm_frames (phys m') = pmm_frames (phys m) \<Longrightarrow> tree_ok r m'"
  unfolding tree_ok_def by (simp only: walk_cong [of m' m])

lemma get_next_table_ok:
  assumes ok: "frames_ok m" "tree_ok r m" and cpu: "cpu < MAX_CPUS" and p: "user_path (p @ [i])" "walk m r p = Some t"
    and run: "get_next_table cpu True t i m = (res, m')"
  shows "extends r m m'" "res = Some u \<Longrightarrow> walk m' r (p @ [i]) = Some u" "res = None \<Longrightarrow> exhausted cpu (phys m')"
proof -
  obtain a m1 where alloc: "alloc_frame cpu m = (a, m1)"
    by (rule prod.exhaust)
  note m1 = alloc_frame_ok [OF ok(1) cpu alloc]
  define s where "s = snd (pmm_alloc_page cpu (phys m))"
  have m1_eq: "m1 = m\<lparr>phys := s\<rparr>"
    using alloc by (simp add: alloc_frame_def s_def case_prod_unfold Let_def)
  consider (present) "mem m t i AND PRESENT \<noteq> 0" "res = Some (frame_of (mem m t i))" "m' = m"
    | (full) "mem m t i AND PRESENT = 0" "a = 0" "res = None" "m' = m1"
    | (new) "mem m t i AND PRESENT = 0" "a \<noteq> 0" "res = Some a" "m' = store t i (of_nat a OR 7) (clear_frame a m1)"
  proof -
    have "(res, m') = (if mem m t i AND PRESENT \<noteq> 0 then (Some (frame_of (mem m t i)), m)
        else if a = 0 then (None, m1) else (Some a, store t i (of_nat a OR 7) (clear_frame a m1)))"
      unfolding run [symmetric] get_next_table_def alloc low_flags(4) by (simp only: simp_thms if_False Let_def prod.case)
    then show thesis
      using that by (cases "mem m t i AND PRESENT = 0"; cases "a = 0") (simp_all only: simp_thms if_True if_False prod.inject)
  qed
  then have "extends r m m' \<and> (res = Some u \<longrightarrow> walk m' r (p @ [i]) = Some u) \<and> (res = None \<longrightarrow> exhausted cpu (phys m'))"
  proof cases
    case present
    then show ?thesis
      using extends_refl [OF ok] p(2) by (auto simp: walk_snoc)
  next
    case full
    note fr = m1(5) [OF full(2)]
    have "tree_ok r m1"
      using tree_ok_frames [OF ok(2) m1(2)] fr by simp
    then show ?thesis
      using full m1(1-4) fr by (simp add: extends_def touches_def entry_at_def walk_cong [of m1 m] split: option.split)
  next
    case new
    note a = m1(6) [OF new(2)]
    have "mset_distinct (pmm_frames (phys m))"
      using ok(1) pmm_pages.avail_distinct by (auto simp: frames_ok_def)
    then have a': "a mod 4096 = 0" "a < 2 ^ 52" "a div 4096 \<in># pmm_frames (phys m)"
        "set_mset (pmm_frames s) \<subseteq> set_mset (pmm_frames (phys m))" "a div 4096 \<notin># pmm_frames s"
      using a m1_eq by auto
    have m': "m' = store t i (of_nat a OR 7) (clear_frame a (m\<lparr>phys := s\<rparr>))"
      using new(4) m1_eq by simp
    note tab = add_table [OF ok(2) p new(1) a', folded m']
    have fields: "phys m' = s" "cr3 m' = cr3 m" "roots m' = roots m"
      by (simp_all add: m' store_def clear_frame_def)
    have none: "walk m r (p @ [i]) = None"
      using p(2) new(1) by (simp add: walk_snoc)
    have "touches r m' \<subseteq> touches r m"
      using tab(1) a'(3,4) fields(1) by (auto simp: touches_def split: if_splits)
    moreover have "mem m' x = mem m x" if "x \<notin> touches r m" for x
      using that a'(3) p user_path_butlast [OF p(1)] by (auto simp: m' store_def clear_frame_def touches_def)
    moreover have "frames_ok m'"
      using m1(1) fields(1) by (simp add: frames_ok_def m1_eq)
    ultimately have "extends r m m'"
      unfolding extends_def using fields tab none by (auto split: if_splits)
    then show ?thesis
      using new(3) tab(1) [OF p(1)] by simp
  qed
  then show "extends r m m'" "res = Some u \<Longrightarrow> walk m' r (p @ [i]) = Some u" "res = None \<Longrightarrow> exhausted cpu (phys m')"
    by simp_all
qed

text \<open>The descent through the levels.\<close>

fun descend :: "nat \<Rightarrow> bool \<Rightarrow> addr \<Rightarrow> nat list \<Rightarrow> machine \<Rightarrow> addr option \<times> machine" where
  "descend cpu create t [] m = (Some t, m)"
| "descend cpu create t (i # is) m =
    (case get_next_table cpu create t i m of (None, m) \<Rightarrow> (None, m) | (Some u, m) \<Rightarrow> descend cpu create u is m)"

lemma descend_ok:
  assumes "frames_ok m" "tree_ok r m" and "cpu < MAX_CPUS" and "user_path (p @ is)" "walk m r p = Some t"
    and "descend cpu True t is m = (res, m')"
  shows "extends r m m' \<and> (res = Some u \<longrightarrow> walk m' r (p @ is) = Some u) \<and> (res = None \<longrightarrow> exhausted cpu (phys m'))"
  using assms
proof (induction "is" arbitrary: p t m)
  case Nil
  then show ?case
    using extends_refl [of m r] by auto
next
  case (Cons i "is")
  obtain x m1 where step: "get_next_table cpu True t i m = (x, m1)"
    by (rule prod.exhaust)
  have pi: "user_path (p @ [i])"
    using Cons.prems(4) by (cases p) (auto simp: user_path_def)
  note one = get_next_table_ok [OF Cons.prems(1-3) pi Cons.prems(5) step]
  show ?case
  proof (cases x)
    case None
    then show ?thesis
      using Cons.prems(6) step one by simp
  next
    case (Some v)
    have m1: "frames_ok m1" "tree_ok r m1" "user_path ((p @ [i]) @ is)" "walk m1 r (p @ [i]) = Some v" "descend cpu True v is m1 = (res, m')"
      using one Cons.prems(4,6) step Some by (simp_all add: extends_def)
    show ?thesis
      using Cons.IH [OF m1(1,2) Cons.prems(3) m1(3-5)] extends_trans [OF one(1)] by simp
  qed
qed

lemma descend_False:
  "descend cpu False t p m = (walk m t p, m)"
  by (induction p arbitrary: t) (simp_all add: get_next_table_def)

section \<open>Leaf entries\<close>

lemma set_leaf:
  fixes e :: "64 word" and i :: nat
  assumes ok: "tree_ok r m" and q: "user_path q" "length q = 3" "walk m r q = Some t"
  defines "m' \<equiv> store t i e m"
  shows "user_path p \<Longrightarrow> walk m' r p = walk m r p" "tree_ok r m'"
    "user_path p \<Longrightarrow> length p = 3 \<Longrightarrow> entry_at m' r p j = (if p = q \<and> j = i then e else entry_at m r p j)"
proof -
  have mem': "mem m' u = (if u = t then (mem m t)(i := e) else mem m u)" for u
    by (simp add: m'_def store_def)
  have upper: "u \<noteq> t" if "user_path (p @ [j])" "walk m r p = Some u" for p j u
    using tree_okD(3) [OF ok user_path_butlast [OF that(1)] q(1) that(2)] q(2,3) that(1) by (auto simp: user_path_def)
  show walk': "walk m' r p = walk m r p" if "user_path p" for p
    using that
  proof (induction p rule: rev_induct)
    case (snoc j p)
    show ?case
      using snoc.IH [OF user_path_butlast [OF snoc.prems]] upper [OF snoc.prems] mem'
      by (auto simp: walk_snoc split: option.split)
  qed simp
  have phys: "phys m' = phys m"
    by (simp add: m'_def store_def)
  show "tree_ok r m'"
    unfolding tree_ok_def phys
  proof (intro conjI allI impI; elim conjE)
    fix p j u
    assume "user_path (p @ [j])" "walk m' r p = Some u"
    then show "mem m' u j = 0 \<or> mem m' u j AND 7 = 7 \<and> mem m' u j AND PAGE_SIZE_BIT = 0"
      using walk' [OF user_path_butlast] upper [of p j u] tree_okD(4) [OF ok, of p j u] mem' by simp
  qed (use walk' tree_okD(1-3) [OF ok] in simp_all)
  show "entry_at m' r p j = (if p = q \<and> j = i then e else entry_at m r p j)" if "user_path p" "length p = 3"
    using walk' [OF that(1)] tree_okD(3) [OF ok that(1) q(1), of t] q(3)
    by (cases "walk m r p"; cases "p = q") (auto simp: entry_at_def mem')
qed

definition page_path :: "addr \<Rightarrow> nat list" where
  "page_path v = [table_index 3 v, table_index 2 v, table_index 1 v]"

definition page_entry :: "addr \<Rightarrow> addr \<Rightarrow> machine \<Rightarrow> 64 word" where
  "page_entry r v m = entry_at m r (page_path v) (table_index 0 v)"

lemma table_index_top: "user_range v 1 \<Longrightarrow> table_index 3 v = v div 2 ^ 39 \<and> 1 \<le> v div 2 ^ 39 \<and> v div 2 ^ 39 < 256"
  by (auto simp: user_range_def USER_BEGIN_def USER_END_def table_index_def)

lemma page_path_user [simp]: "user_range v 1 \<Longrightarrow> user_path (page_path v)" "length (page_path v) = 3"
  using table_index_top [of v] by (auto simp: user_path_def page_path_def table_index_def)

lemma page_number:
  assumes "user_range v 1"
  shows "v div 4096 = ((table_index 3 v * 512 + table_index 2 v) * 512 + table_index 1 v) * 512 + table_index 0 v"
proof -
  have "v div 4096 = v div 2 ^ 21 * 512 + table_index 0 v" "v div 2 ^ 21 = v div 2 ^ 30 * 512 + table_index 1 v"
      "v div 2 ^ 30 = v div 2 ^ 39 * 512 + table_index 2 v"
    using div_mult_mod_eq [of "v div 4096" 512] div_mult_mod_eq [of "v div 2 ^ 21" 512] div_mult_mod_eq [of "v div 2 ^ 30" 512]
    by (simp_all add: table_index_def div_mult2_eq [symmetric])
  then show ?thesis
    using table_index_top [OF assms] by simp
qed

lemma same_page:
  assumes "user_range v 1" "user_range w 1"
  shows "page_path v = page_path w \<and> table_index 0 v = table_index 0 w \<longleftrightarrow> v div 4096 = w div 4096"
proof
  assume "v div 4096 = w div 4096"
  then have "v div (4096 * 2 ^ k) = w div (4096 * 2 ^ k)" for k
    by (simp add: div_mult2_eq)
  from this [of 0] this [of 9] this [of 18] this [of 27]
  show "page_path v = page_path w \<and> table_index 0 v = table_index 0 w"
    by (simp add: page_path_def table_index_def)
qed (simp add: page_number [OF assms(1)] page_number [OF assms(2)] page_path_def)

lemma vmm_map_descend:
  assumes "user_range virt PAGE_SIZE" and "virt mod 4096 = 0" and "p mod 4096 = 0"
  shows "vmm_map cpu virt p flags m =
    (case descend cpu True (active_root cpu m) (page_path virt) m of
       (None, m) \<Rightarrow> m
     | (Some pt, m) \<Rightarrow> store pt (table_index 0 virt) (of_nat p OR flags) m)"
proof -
  have "p div 4096 * 4096 = p"
    using assms(3) by auto
  then show ?thesis
    using assms by (simp add: vmm_map_def page_path_def split: prod.splits option.splits)
qed

lemma user_range_page: "user_range v PAGE_SIZE \<Longrightarrow> user_range v 1"
  by (auto simp: user_range_def PAGE_SIZE_def)

text \<open>A mapping call, on the active address space.\<close>

lemma vmm_map_ok:
  fixes flags :: "64 word"
  assumes ok: "frames_ok m" "tree_ok (active_root cpu m) m" and cpu: "cpu < MAX_CPUS"
    and virt: "user_range virt PAGE_SIZE" "virt mod 4096 = 0" and p: "p mod 4096 = 0"
  defines "r \<equiv> active_root cpu m" and "m' \<equiv> vmm_map cpu virt p flags m"
  obtains mapped where "frames_ok m'" "tree_ok r m'" "cr3 m' = cr3 m" "roots m' = roots m"
    "\<And>v. user_range v 1 \<Longrightarrow>
       page_entry r v m' = (if mapped \<and> v div 4096 = virt div 4096 then of_nat p OR flags else page_entry r v m)"
    "\<not> mapped \<Longrightarrow> exhausted cpu (phys m')" "\<And>x. x \<notin> touches r m \<Longrightarrow> mem m' x = mem m x" "touches r m' \<subseteq> touches r m"
proof -
  obtain res m1 where desc: "descend cpu True r (page_path virt) m = (res, m1)"
    by (rule prod.exhaust)
  have m': "m' = (case res of None \<Rightarrow> m1 | Some pt \<Rightarrow> store pt (table_index 0 virt) (of_nat p OR flags) m1)"
    using desc vmm_map_descend [OF virt p, of cpu flags m] by (simp add: m'_def r_def split: option.split)
  have path: "user_path ([] @ page_path virt)" "user_range virt 1"
    using virt user_range_page by simp_all
  note d = descend_ok [OF ok(1) ok(2) [folded r_def] cpu path(1) _ desc]
  then have ext: "extends r m m1"
    by simp
  then have leaves: "page_entry r v m1 = page_entry r v m" if "user_range v 1" for v
    using that by (simp add: page_entry_def extends_def)
  show thesis
  proof (cases res)
    case None
    then show ?thesis
      using that [of False] ext leaves d m' by (simp add: extends_def)
  next
    case (Some pt)
    have pt: "walk m1 r (page_path virt) = Some pt" and m1: "tree_ok r m1"
      using d Some ext by (simp_all add: extends_def)
    have m'': "m' = store pt (table_index 0 virt) (of_nat p OR flags) m1"
      using m' Some by simp
    note leaf = set_leaf [OF m1 page_path_user(1) [OF path(2)] page_path_user(2) pt,
        where i = "table_index 0 virt" and e = "of_nat p OR flags", folded m'']
    have fields: "phys m' = phys m1" "cr3 m' = cr3 m1" "roots m' = roots m1"
      by (simp_all add: m'' store_def)
    have touch: "touches r m' \<subseteq> touches r m1"
      using leaf(1) fields(1) by (auto simp: touches_def)
    have "page_entry r v m' = (if v div 4096 = virt div 4096 then of_nat p OR flags else page_entry r v m)" if "user_range v 1" for v
      using leaf(3) [OF page_path_user(1) [OF that] page_path_user(2)] same_page [OF that path(2)] leaves [OF that]
      by (simp add: page_entry_def)
    moreover have "mem m' x = mem m x" if "x \<notin> touches r m" for x
    proof -
      have "x \<notin> touches r m1"
        using that ext by (auto simp: extends_def)
      then have "x \<noteq> pt"
        using pt page_path_user(1) [OF path(2)] by (auto simp: touches_def)
      then show ?thesis
        using that ext by (simp add: extends_def m'' store_def)
    qed
    ultimately show ?thesis
      using that [of True] leaf(2) ext fields touch by (simp add: extends_def frames_ok_def) blast
  qed
qed

lemma get_phys_user:
  assumes ok: "tree_ok (active_root cpu m) m" and virt: "user_range virt 1"
  shows "get_phys cpu virt m =
    (let e = page_entry (active_root cpu m) virt m in
     if e AND PRESENT \<noteq> 0 then unat (e AND FRAME_MASK OR of_nat (virt mod 4096)) else 0)"
proof -
  let ?r = "active_root cpu m"
  have small: "mem m pd (table_index 1 virt) AND PAGE_SIZE_BIT = 0" if "walk m ?r [table_index 3 virt, table_index 2 virt] = Some pd" for pd
  proof -
    have "user_path ([table_index 3 virt, table_index 2 virt] @ [table_index 1 virt])"
      using page_path_user(1) [OF virt] by (simp add: page_path_def)
    from tree_okD(4) [OF ok this that] show ?thesis
      by auto
  qed
  show ?thesis
  proof (cases "walk m ?r [table_index 3 virt, table_index 2 virt]")
    case None
    then show ?thesis
      by (auto simp: get_phys_def get_next_table_def page_entry_def entry_at_def page_path_def Let_def split: if_splits)
  next
    case (Some pd)
    then show ?thesis
      using small [OF Some]
      by (auto simp: get_phys_def get_next_table_def page_entry_def entry_at_def page_path_def Let_def split: if_splits)
  qed
qed

lemma vmm_unmap_ok:
  assumes ok: "tree_ok (active_root cpu m) m" and "cr3 m cpu mod 4096 = 0" and virt: "user_range virt PAGE_SIZE" "virt mod 4096 = 0"
  defines "r \<equiv> active_root cpu m" and "m' \<equiv> vmm_unmap cpu virt m"
  shows "tree_ok r m'" "user_range v 1 \<Longrightarrow> page_entry r v m' = (if v div 4096 = virt div 4096 then 0 else page_entry r v m)"
    "phys m' = phys m" "cr3 m' = cr3 m" "x \<notin> touches r m \<Longrightarrow> mem m' x = mem m x"
proof -
  have root: "get_active_page_table cpu m = r"
    using assms(2) by (auto simp: r_def active_root_def get_active_page_table_def)
  have path: "user_path (page_path virt)" "user_range virt 1"
    using virt user_range_page by simp_all
  have small: "mem m pd (table_index 1 virt) AND PAGE_SIZE_BIT = 0" if "walk m r [table_index 3 virt, table_index 2 virt] = Some pd" for pd
    using tree_okD(4) [OF ok [folded r_def], of "[table_index 3 virt, table_index 2 virt]" "table_index 1 virt" pd] path(1) that
    by (auto simp: page_path_def)
  have m': "m' = (case walk m r (page_path virt) of None \<Rightarrow> m | Some pt \<Rightarrow> store pt (table_index 0 virt) 0 m)"
    using virt small unfolding m'_def vmm_unmap_def root page_path_def by (auto simp: get_next_table_def)
  have "tree_ok r m' \<and> (user_range v 1 \<longrightarrow> page_entry r v m' = (if v div 4096 = virt div 4096 then 0 else page_entry r v m)) \<and>
      (x \<notin> touches r m \<longrightarrow> mem m' x = mem m x)"
  proof (cases "walk m r (page_path virt)")
    case None
    have "page_entry r v m = 0" if "user_range v 1" "v div 4096 = virt div 4096"
      using same_page [OF that(1) path(2)] that(2) None by (simp add: page_entry_def entry_at_def)
    then show ?thesis
      using ok m' None by (simp add: r_def)
  next
    case (Some pt)
    then have m'': "m' = store pt (table_index 0 virt) 0 m"
      using m' by simp
    note leaf = set_leaf [OF ok [folded r_def] path(1) page_path_user(2) Some, where i = "table_index 0 virt" and e = 0, folded m'']
    have "page_entry r v m' = (if v div 4096 = virt div 4096 then 0 else page_entry r v m)" if "user_range v 1"
      using leaf(3) [OF page_path_user(1) [OF that] page_path_user(2)] same_page [OF that path(2)] by (simp add: page_entry_def)
    moreover have "mem m' x = mem m x" if "x \<notin> touches r m"
      using that Some path(1) by (auto simp: m'' store_def touches_def)
    ultimately show ?thesis
      using leaf(2) by simp
  qed
  then show "tree_ok r m'" "user_range v 1 \<Longrightarrow> page_entry r v m' = (if v div 4096 = virt div 4096 then 0 else page_entry r v m)"
    "x \<notin> touches r m \<Longrightarrow> mem m' x = mem m x"
    by blast+
  show "phys m' = phys m" "cr3 m' = cr3 m"
    by (simp_all add: m' store_def split: option.split)
qed

lemma vmm_protect_ok:
  assumes ok: "tree_ok (active_root cpu m) m" and virt: "user_range virt PAGE_SIZE" "virt mod 4096 = 0"
    and run: "vmm_protect cpu virt flags m = (changed, m')"
  defines "r \<equiv> active_root cpu m"
  shows "tree_ok r m'" "changed \<longleftrightarrow> page_entry r virt m AND PRESENT \<noteq> 0"
    "user_range v 1 \<Longrightarrow> page_entry r v m' =
       (if changed \<and> v div 4096 = virt div 4096 then page_entry r virt m AND NOT PERMISSION_MASK OR flags AND PERMISSION_MASK
        else page_entry r v m)"
proof -
  have path: "user_path (page_path virt)" "user_range virt 1"
    using virt user_range_page by simp_all
  have small: "mem m pd (table_index 1 virt) AND PAGE_SIZE_BIT = 0" if "walk m r [table_index 3 virt, table_index 2 virt] = Some pd" for pd
    using tree_okD(4) [OF ok [folded r_def], of "[table_index 3 virt, table_index 2 virt]" "table_index 1 virt" pd] path(1) that
    by (auto simp: page_path_def)
  let ?e = "page_entry r virt m"
  have step: "(changed, m') = (case walk m r (page_path virt) of None \<Rightarrow> (False, m)
      | Some pt \<Rightarrow> if ?e AND PRESENT = 0 then (False, m)
          else (True, store pt (table_index 0 virt) (?e AND NOT PERMISSION_MASK OR flags AND PERMISSION_MASK) m))"
    using virt small unfolding run [symmetric] vmm_protect_def page_path_def page_entry_def entry_at_def r_def [symmetric]
    by (auto simp: get_next_table_def Let_def)
  have "tree_ok r m' \<and> (changed \<longleftrightarrow> ?e AND PRESENT \<noteq> 0) \<and> (user_range v 1 \<longrightarrow> page_entry r v m' =
       (if changed \<and> v div 4096 = virt div 4096 then ?e AND NOT PERMISSION_MASK OR flags AND PERMISSION_MASK else page_entry r v m))"
  proof (cases "walk m r (page_path virt)")
    case None
    then show ?thesis
      using step ok by (simp add: r_def page_entry_def entry_at_def)
  next
    case (Some pt)
    note leaf = set_leaf [OF ok [folded r_def] path(1) page_path_user(2) Some, where i = "table_index 0 virt"]
    have "page_entry r v (store pt (table_index 0 virt) e m) = (if v div 4096 = virt div 4096 then e else page_entry r v m)"
      if "user_range v 1" for e
      using leaf(3) [OF page_path_user(1) [OF that] page_path_user(2)] same_page [OF that path(2)] by (simp add: page_entry_def)
    then show ?thesis
      using step Some ok leaf(2) by (cases "?e AND PRESENT = 0") (simp_all add: r_def)
  qed
  then show "tree_ok r m'" "changed \<longleftrightarrow> ?e AND PRESENT \<noteq> 0" "user_range v 1 \<Longrightarrow> page_entry r v m' =
       (if changed \<and> v div 4096 = virt div 4096 then ?e AND NOT PERMISSION_MASK OR flags AND PERMISSION_MASK else page_entry r v m)"
    by blast+
qed

section \<open>Access to user memory\<close>

lemma physical_address:
  assumes "k < 4096"
  shows "unat (e AND FRAME_MASK OR of_nat k) = frame_of e + k" "frame_of e mod 4096 = 0"
proof -
  let ?x = "e AND FRAME_MASK" and ?w = "e AND FRAME_MASK OR of_nat k :: 64 word"
  have k: "take_bit 12 (of_nat k :: 64 word) = of_nat k"
    using assms by (simp add: take_bit_of_nat take_bit_nat_eq_self)
  have small: "unat z mod 2 ^ 64 = unat z" for z :: "64 word"
    using unsigned_less [of z, where 'a = nat] by simp
  have low: "\<not> bit (of_nat k :: 64 word) n" if "12 \<le> n" for n
    using that by (subst k [symmetric]) (simp add: bit_take_bit_iff)
  have x: "take_bit 12 ?x = 0"
    by (intro bit_word_eqI) (auto simp: bit_take_bit_iff bit_and_iff bit_FRAME_MASK)
  have "take_bit 12 ?w = of_nat k"
    using x k by simp
  moreover have "drop_bit 12 ?w = drop_bit 12 ?x"
    using low by (intro bit_word_eqI) (auto simp: bit_drop_bit_eq bit_or_iff)
  ultimately have "unat (take_bit 12 ?w) = unat (of_nat k :: 64 word)" "unat (drop_bit 12 ?w) = unat (drop_bit 12 ?x)"
      "unat (take_bit 12 ?x) = 0"
    using x by simp_all
  then have "unat ?w mod 4096 = k" "unat ?w div 4096 = unat ?x div 4096" "unat ?x mod 4096 = 0"
    using assms small by (simp_all only: unsigned_take_bit_eq unsigned_drop_bit_eq)
      (simp_all add: take_bit_eq_mod drop_bit_eq_div unsigned_of_nat)
  then show "unat ?w = frame_of e + k" "frame_of e mod 4096 = 0"
    by (simp_all add: frame_of_def) (metis add.right_neutral div_mult_mod_eq)
qed

lemma bit_get_byte: "bit (get_byte w k) n \<longleftrightarrow> n < 8 \<and> bit w (8 * k + n)"
  by (simp add: get_byte_def bit_simps)

lemma get_set_byte: "k < 8 \<Longrightarrow> j < 8 \<Longrightarrow> get_byte (set_byte w k b) j = (if j = k then b else get_byte w j)"
proof (rule bit_word_eqI)
  fix n
  assume n: "n < LENGTH(8)" and kj: "k < 8" "j < 8"
  have "\<not> (8 * k \<le> 8 * j + n \<and> 8 * j + n - 8 * k < 8)" if "j \<noteq> k"
    using that n by (cases "j < k") auto
  then show "bit (get_byte (set_byte w k b) j) n = bit (if j = k then b else get_byte w j) n"
    using n kj by (auto simp: bit_get_byte set_byte_def bit_simps dest: bit_imp_le_length)
qed

lemma byte_at_put: "byte_at c (put_byte a b m) = (if c = a then b else byte_at c m)"
proof (cases "c div 4096 = a div 4096 \<and> c mod 4096 div 8 = a mod 4096 div 8")
  case True
  have split: "x = x div 4096 * 4096 + (x mod 4096 div 8 * 8 + x mod 8)" for x :: nat
    using div_mult_mod_eq [of x 4096] div_mult_mod_eq [of "x mod 4096" 8] by (simp add: mod_mod_cancel)
  have "c mod 8 = a mod 8 \<longleftrightarrow> c = a"
    using True split [of c] split [of a] by auto
  then show ?thesis
    using True by (simp add: byte_at_def put_byte_def store_def Let_def get_set_byte)
next
  case False
  then have "c \<noteq> a"
    by auto
  then show ?thesis
    using False by (auto simp: byte_at_def put_byte_def store_def Let_def)
qed

text \<open>The physical address behind a user address, if user code may access it.\<close>

definition required :: "bool \<Rightarrow> 64 word" where
  "required wr = 5 OR (if wr then 2 else 0)"

definition user_phys :: "addr \<Rightarrow> bool \<Rightarrow> addr \<Rightarrow> machine \<Rightarrow> addr option" where
  "user_phys r wr v m =
    (let e = page_entry r v m in
     if user_range v 1 \<and> e AND required wr = required wr then Some (frame_of e + v mod 4096) else None)"

definition runs_on :: "nat \<Rightarrow> addr \<Rightarrow> machine \<Rightarrow> bool" where
  "runs_on cpu r m \<longleftrightarrow> cr3 m cpu = r \<and> r mod 4096 = 0 \<and> r < 2 ^ 52"

lemma required_values: "required True = 7" "required False = 5"
  by (simp_all add: required_def)

lemma required_present: "e AND 7 = 7 \<Longrightarrow> e AND required wr = required wr" "e AND 7 = 7 \<Longrightarrow> e AND PRESENT \<noteq> 0" "0 AND required wr \<noteq> required wr"
proof -
  show "e AND required wr = required wr" if "e AND 7 = 7"
  proof -
    have "required wr = 7 AND required wr"
      by (cases wr) (simp_all add: required_values)
    then show ?thesis
      using that by (metis and.assoc)
  qed
  show "e AND PRESENT \<noteq> 0" if "e AND 7 = 7"
  proof
    assume "e AND PRESENT = 0"
    then have "e AND 7 AND PRESENT = 0"
      by (simp add: PRESENT_def)
    then have "(e AND 7) AND PRESENT = 0"
      by (simp only: and.assoc)
    then show False
      using that by (simp add: low_flags(5))
  qed
  show "0 AND required wr \<noteq> required wr"
    by (cases wr) (simp_all add: required_values)
qed

lemma user_phys_loop_step:
  assumes ok: "tree_ok r m" and p: "user_path (p @ [table_index level v])" "walk m r p = Some t" and "0 < level"
  shows "user_phys_loop (required wr) level t v m =
    (case walk m r (p @ [table_index level v]) of None \<Rightarrow> 0 | Some u \<Rightarrow> user_phys_loop (required wr) (level - 1) u v m)"
proof -
  let ?e = "mem m t (table_index level v)"
  have "(128 :: 64 word) = PAGE_SIZE_BIT"
    by (simp add: PAGE_SIZE_BIT_def push_bit_eq_mult)
  moreover have "?e = 0 \<or> ?e AND 7 = 7 \<and> ?e AND PAGE_SIZE_BIT = 0"
    using tree_okD(4) [OF ok p] .
  ultimately show ?thesis
    using assms(4) p(2) required_present(1) [of ?e wr] required_present(2) [of ?e] required_present(3) [of wr]
    by (subst user_phys_loop.simps) (auto simp: walk_snoc Let_def)
qed

lemma get_user_phys_eq:
  assumes ok: "tree_ok r m" and on: "runs_on cpu r m"
  shows "get_user_phys cpu v wr m = (case user_phys r wr v m of None \<Rightarrow> 0 | Some p \<Rightarrow> p)"
proof (cases "user_range v 1")
  case True
  let ?i = "\<lambda>l. table_index l v"
  have path: "user_path ([?i 3, ?i 2] @ [?i 1])" "user_path ([?i 3] @ [?i 2])" "user_path ([] @ [?i 3])"
    using page_path_user(1) [OF True] by (auto simp: page_path_def user_path_def)
  have root: "frame_of (of_nat (get_active_page_table cpu m)) = r"
    using on entry_parts(3) [of r 0] by (simp add: runs_on_def get_active_page_table_def)
  have mask: "x AND FRAME_MASK AND NOT (mask 12) = x AND FRAME_MASK" for x :: "64 word"
    by (intro bit_word_eqI) (auto simp: bit_simps bit_FRAME_MASK)
  have leaf: "user_phys_loop (required wr) 0 t v m =
      (let e = mem m t (?i 0) in if e AND required wr = required wr then frame_of e + v mod 4096 else 0)" for t
    using physical_address(1) [of "v mod 4096"] by (subst user_phys_loop.simps) (simp add: Let_def mask)
  have three: "user_phys_loop (required wr) 3 r v m =
      (case walk m r [?i 3, ?i 2, ?i 1] of None \<Rightarrow> 0 | Some t \<Rightarrow> user_phys_loop (required wr) 0 t v m)"
    using user_phys_loop_step [OF ok path(3)] user_phys_loop_step [OF ok path(2)] user_phys_loop_step [OF ok path(1)]
      walk_snoc [of m r "[?i 3]" "?i 2"] walk_snoc [of m r "[?i 3, ?i 2]" "?i 1"]
    by (auto split: option.split)
  show ?thesis
    using True three leaf required_present(3) [of wr] root
    by (auto simp: get_user_phys_def user_phys_def page_entry_def entry_at_def page_path_def required_def [symmetric] Let_def split: option.splits)
qed (simp add: get_user_phys_def user_phys_def Let_def)

text \<open>User pages are not page tables, and not the frame at address 0.\<close>

definition leaves_ok :: "addr \<Rightarrow> machine \<Rightarrow> bool" where
  "leaves_ok r m \<longleftrightarrow>
     (\<forall>v. user_range v 1 \<and> page_entry r v m AND required False = required False \<longrightarrow>
        frame_of (page_entry r v m) \<noteq> 0 \<and> (\<forall>p. user_path p \<longrightarrow> walk m r p \<noteq> Some (frame_of (page_entry r v m))))"

lemma user_phys_weaken:
  assumes "user_phys r True v m = Some p"
  shows "user_phys r False v m = Some p"
proof -
  have "e AND required False = required False" if "e AND required True = required True" for e :: "64 word"
  proof -
    have "required False = required True AND required False"
      by (simp add: required_values)
    then show ?thesis
      using that by (metis and.assoc)
  qed
  then show ?thesis
    using assms by (auto simp: user_phys_def Let_def split: if_splits)
qed

lemma user_phys_page:
  assumes "leaves_ok r m" and "user_phys r wr v m = Some p"
  shows "p \<noteq> 0" "p mod 4096 = v mod 4096" "user_path q \<Longrightarrow> walk m r q \<noteq> Some (p div 4096 * 4096)" "user_range v 1"
proof -
  let ?e = "page_entry r v m"
  have p: "p = frame_of ?e + v mod 4096" and v: "user_range v 1"
    using assms(2) by (auto simp: user_phys_def Let_def split: if_splits)
  have "user_phys r False v m = Some p"
    using assms(2) user_phys_weaken by (cases wr) auto
  then have "?e AND required False = required False"
    by (auto simp: user_phys_def Let_def split: if_splits)
  then have leaf: "frame_of ?e \<noteq> 0" "\<And>q. user_path q \<Longrightarrow> walk m r q \<noteq> Some (frame_of ?e)"
    using assms(1) v by (auto simp: leaves_ok_def)
  have frame: "frame_of ?e mod 4096 = 0"
    using physical_address(2) [of 0] by simp
  then have "p div 4096 * 4096 = frame_of ?e"
    by (auto simp: p)
  then show "p \<noteq> 0" "p mod 4096 = v mod 4096" "user_path q \<Longrightarrow> walk m r q \<noteq> Some (p div 4096 * 4096)" "user_range v 1"
    using leaf v frame by (auto simp: p)
qed

lemma within_page:
  assumes "a mod 4096 + k < (4096 :: nat)"
  shows "(a + k) div 4096 = a div 4096" "(a + k) mod 4096 = a mod 4096 + k"
proof -
  have "(4096 * q + s) div 4096 = q \<and> (4096 * q + s) mod 4096 = s" if "s < 4096" for q s :: nat
    using that by simp
  from this [OF assms, of "a div 4096"]
  have "(4096 * (a div 4096) + (a mod 4096 + k)) div 4096 = a div 4096" "(4096 * (a div 4096) + (a mod 4096 + k)) mod 4096 = a mod 4096 + k"
    by blast+
  moreover have "4096 * (a div 4096) + (a mod 4096 + k) = a + k"
    by simp
  ultimately show "(a + k) div 4096 = a div 4096" "(a + k) mod 4096 = a mod 4096 + k"
    by (simp_all only:)
qed

lemma user_phys_offset:
  assumes "user_range (a + k) 1" "user_range a 1" and "a mod 4096 + k < 4096"
  shows "user_phys r wr (a + k) m = map_option (\<lambda>p. p + k) (user_phys r wr a m)"
proof -
  show ?thesis
    using assms within_page [OF assms(3)] same_page [OF assms(1,2)] by (auto simp: user_phys_def page_entry_def Let_def)
qed

lemma write_bytes_byte:
  "byte_at c (write_bytes a bs m) = (if a \<le> c \<and> c < a + length bs then bs ! (c - a) else byte_at c m)"
  by (induction bs arbitrary: a m) (auto simp: byte_at_put nth_Cons' Suc_le_eq)

lemma write_bytes_frame:
  assumes "a mod 4096 + length bs \<le> 4096" and "t \<noteq> a div 4096 * 4096"
  shows "mem (write_bytes a bs m) t = mem m t"
  using assms
proof (induction bs arbitrary: a m)
  case (Cons b bs)
  have "mem (put_byte a b m) t = mem m t"
    using Cons.prems(2) by (simp add: put_byte_def store_def Let_def)
  moreover have "mem (write_bytes (a + 1) bs (put_byte a b m)) t = mem (put_byte a b m) t"
  proof (cases "bs = []")
    case False
    then have "a mod 4096 + 1 < 4096"
      using Cons.prems(1) by (cases bs) auto
    then show ?thesis
      using Cons.IH [of "a + 1"] Cons.prems within_page [of a 1] by simp
  qed simp
  ultimately show ?case
    by simp
qed simp

lemma write_bytes_fields [simp]: "phys (write_bytes a bs m) = phys m" "cr3 (write_bytes a bs m) = cr3 m"
  by (induction bs arbitrary: a m) (simp_all add: put_byte_def store_def Let_def)

text \<open>A change of one frame that is not a table changes no translation.\<close>

lemma data_change:
  assumes "\<And>u. u \<noteq> t \<Longrightarrow> mem m' u = mem m u" and "\<And>p. user_path p \<Longrightarrow> walk m r p \<noteq> Some t"
  shows "user_path p \<Longrightarrow> walk m' r p = walk m r p" "user_range v 1 \<Longrightarrow> page_entry r v m' = page_entry r v m"
proof -
  show walk': "walk m' r p = walk m r p" if "user_path p" for p
    using that
  proof (induction p rule: rev_induct)
    case (snoc i p)
    note p = user_path_butlast [OF snoc.prems]
    show ?case
      using snoc.IH [OF p] assms(2) [OF p] assms(1) by (cases "walk m r p") (auto simp: walk_snoc)
  qed simp
  show "page_entry r v m' = page_entry r v m" if "user_range v 1"
    using walk' [OF page_path_user(1) [OF that]] assms(2) [OF page_path_user(1) [OF that]] assms(1)
    by (cases "walk m r (page_path v)") (auto simp: page_entry_def entry_at_def)
qed

definition user_ok :: "nat \<Rightarrow> addr \<Rightarrow> machine \<Rightarrow> bool" where
  "user_ok cpu r m \<longleftrightarrow> tree_ok r m \<and> leaves_ok r m \<and> runs_on cpu r m"

text \<open>The two states have the same page tables.\<close>

definition same_tables :: "addr \<Rightarrow> machine \<Rightarrow> machine \<Rightarrow> bool" where
  "same_tables r m m' \<longleftrightarrow>
     phys m' = phys m \<and> cr3 m' = cr3 m \<and> (\<forall>p. user_path p \<longrightarrow> walk m' r p = walk m r p) \<and>
     (\<forall>p t. user_path p \<and> walk m r p = Some t \<longrightarrow> mem m' t = mem m t)"

lemma same_tables_page: "same_tables r m m' \<Longrightarrow> user_range v 1 \<Longrightarrow> page_entry r v m' = page_entry r v m"
  using page_path_user(1) [of v] by (cases "walk m r (page_path v)") (force simp: same_tables_def page_entry_def entry_at_def)+

lemma same_tables_phys: "same_tables r m m' \<Longrightarrow> user_phys r wr v m' = user_phys r wr v m"
  using same_tables_page [of r m m' v] by (auto simp: user_phys_def Let_def)

lemma same_tables_ok:
  assumes "same_tables r m m'" and "user_ok cpu r m"
  shows "user_ok cpu r m'"
proof -
  have walk': "walk m' r p = walk m r p" if "user_path p" for p
    using assms(1) that by (simp add: same_tables_def)
  have tree: "tree_ok r m" and leaves: "leaves_ok r m" and runs: "runs_on cpu r m"
    using assms(2) by (simp_all add: user_ok_def)
  have phys: "phys m' = phys m"
    using assms(1) by (simp add: same_tables_def)
  have "tree_ok r m'"
    unfolding tree_ok_def phys
  proof (intro conjI allI impI; elim conjE)
    fix p i t
    assume p: "user_path (p @ [i])" "walk m' r p = Some t"
    then have "walk m r p = Some t" "mem m' t = mem m t"
      using walk' [OF user_path_butlast [OF p(1)]] assms(1) user_path_butlast [OF p(1)] by (auto simp: same_tables_def)
    then show "mem m' t i = 0 \<or> mem m' t i AND 7 = 7 \<and> mem m' t i AND PAGE_SIZE_BIT = 0"
      using tree_okD(4) [OF tree p(1)] by simp
  qed (use walk' tree_okD(1-3) [OF tree] in simp_all)
  moreover have "leaves_ok r m'"
    using leaves walk' same_tables_page [OF assms(1)] by (auto simp: leaves_ok_def)
  ultimately show ?thesis
    using runs assms(1) by (simp add: user_ok_def runs_on_def same_tables_def)
qed

lemma same_tables_trans: "same_tables r m m1 \<Longrightarrow> same_tables r m1 m2 \<Longrightarrow> same_tables r m m2"
  by (auto simp: same_tables_def)

lemma write_chunk:
  assumes ok: "user_ok cpu r m" and p: "user_phys r True a m = Some p" and len: "a mod 4096 + length bs \<le> 4096"
  shows "same_tables r m (write_bytes p bs m)"
proof -
  have page: "p mod 4096 = a mod 4096" "\<And>q. user_path q \<Longrightarrow> walk m r q \<noteq> Some (p div 4096 * 4096)"
    using user_phys_page [OF _ p] ok by (auto simp: user_ok_def)
  then have frame: "mem (write_bytes p bs m) u = mem m u" if "u \<noteq> p div 4096 * 4096" for u
    using write_bytes_frame [of p bs u m] len that by simp
  have "mem (write_bytes p bs m) t = mem m t" if "user_path q" "walk m r q = Some t" for q t
    using frame [of t] page(2) [OF that(1)] that(2) by auto
  then show ?thesis
    using data_change(1) [OF frame page(2)] by (auto simp: same_tables_def)
qed

lemma user_range_sub: "user_range a n \<Longrightarrow> k < n \<Longrightarrow> user_range (a + k) 1"
  by (auto simp: user_range_def)

lemma chunk_phys:
  assumes "user_phys r wr a m = Some p" and "k < 4096 - a mod 4096" and "user_range (a + k) 1"
  shows "user_phys r wr (a + k) m = Some (p + k)"
proof -
  have "user_range a 1"
    using assms(1) by (auto simp: user_phys_def Let_def split: if_splits)
  then show ?thesis
    using user_phys_offset [OF assms(3)] assms(1,2) by simp
qed

lemma accessible_loop_iff:
  assumes ok: "user_ok cpu r m" and "user_range a n \<or> n = 0"
  shows "accessible_loop cpu a n wr m \<longleftrightarrow> (\<forall>k<n. user_phys r wr (a + k) m \<noteq> None)"
  using assms(2)
proof (induction n arbitrary: a rule: less_induct)
  case (less n)
  show ?case
  proof (cases "n = 0")
    case False
    let ?c = "min n (4096 - a mod 4096)"
    have c: "0 < ?c" "?c \<le> n"
      using False by simp_all
    have range: "user_range a n"
      using less.prems False by simp
    have get: "get_user_phys cpu a wr m = 0 \<longleftrightarrow> user_phys r wr a m = None"
      using get_user_phys_eq [of r m cpu a wr] ok user_phys_page(1) [of r m wr a]
      by (cases "user_phys r wr a m") (auto simp: user_ok_def)
    have head: "user_phys r wr (a + k) m \<noteq> None" if "user_phys r wr a m \<noteq> None" "k < ?c" for k
      using that chunk_phys [of r wr a m _ k] user_range_sub [OF range, of k] by fastforce
    have rest: "accessible_loop cpu (a + ?c) (n - ?c) wr m \<longleftrightarrow> (\<forall>k<n - ?c. user_phys r wr (a + ?c + k) m \<noteq> None)"
      using c False range by (intro less.IH) (auto simp: user_range_def)
    have step: "accessible_loop cpu a n wr m \<longleftrightarrow> user_phys r wr a m \<noteq> None \<and> accessible_loop cpu (a + ?c) (n - ?c) wr m"
      using False get by (subst accessible_loop.simps) (simp add: Let_def)
    show ?thesis
    proof
      assume "accessible_loop cpu a n wr m"
      then have *: "user_phys r wr a m \<noteq> None" "\<forall>k<n - ?c. user_phys r wr (a + ?c + k) m \<noteq> None"
        using step rest by blast+
      show "\<forall>k<n. user_phys r wr (a + k) m \<noteq> None"
      proof (intro allI impI)
        fix k
        assume "k < n"
        then show "user_phys r wr (a + k) m \<noteq> None"
          using head [OF *(1), of k] *(2) [rule_format, of "k - ?c"] by (cases "k < ?c") (auto simp: add.assoc)
      qed
    next
      assume all: "\<forall>k<n. user_phys r wr (a + k) m \<noteq> None"
      then have "user_phys r wr a m \<noteq> None"
        using False by (metis add.right_neutral gr0I)
      moreover have "user_phys r wr (a + ?c + k) m \<noteq> None" if "k < n - ?c" for k
        using all [rule_format, of "?c + k"] that by (simp add: add.assoc)
      ultimately show "accessible_loop cpu a n wr m"
        using step rest by blast
    qed
  qed (simp add: accessible_loop.simps)
qed

lemma accessible_iff:
  assumes "user_ok cpu r m"
  shows "accessible cpu a n wr m \<longleftrightarrow> n = 0 \<or> user_range a n \<and> (\<forall>k<n. user_phys r wr (a + k) m \<noteq> None)"
  using accessible_loop_iff [OF assms, of a n wr] by (auto simp: accessible_def)

text \<open>What a copy to user memory changes: exactly the bytes behind the range, which read back as the data if no
  two of the addresses share a byte.\<close>

definition copied :: "addr \<Rightarrow> addr \<Rightarrow> 8 word list \<Rightarrow> machine \<Rightarrow> machine \<Rightarrow> bool" where
  "copied r a data m m' \<longleftrightarrow>
     same_tables r m m' \<and>
     (\<forall>x. (\<forall>k<length data. user_phys r True (a + k) m \<noteq> Some x) \<longrightarrow> byte_at x m' = byte_at x m) \<and>
     (inj_on (\<lambda>k. user_phys r True (a + k) m) {..<length data} \<longrightarrow>
        (\<forall>k<length data. \<forall>x. user_phys r True (a + k) m = Some x \<longrightarrow> byte_at x m' = data ! k))"

lemma copied_chunk:
  assumes ok: "user_ok cpu r m" and p: "user_phys r True a m = Some p" and c: "c \<le> length data" "c \<le> 4096 - a mod 4096" "0 < c"
    and range: "user_range a (length data)"
    and rest: "copied r (a + c) (drop c data) (write_bytes p (take c data) m) m'"
  shows "copied r a data m m'"
proof -
  let ?m = "write_bytes p (take c data) m"
  let ?u = "\<lambda>k. user_phys r True (a + k) m"
  have same: "same_tables r m ?m"
    using c by (intro write_chunk [OF ok p]) simp
  have rest_u: "user_phys r True (a + c + k) ?m = ?u (c + k)" for k
    using same_tables_phys [OF same] by (simp add: add.assoc)
  have head: "?u k = Some (p + k)" if "k < c" for k
    using chunk_phys [OF p, of k] user_range_sub [OF range, of k] that c by simp
  have bytes: "byte_at x ?m = (if p \<le> x \<and> x < p + c then data ! (x - p) else byte_at x m)" for x
    using c(1) by (auto simp: write_bytes_byte)
  have "byte_at x m' = byte_at x m" if "\<forall>k<length data. ?u k \<noteq> Some x" for x
  proof -
    have "\<not> (p \<le> x \<and> x < p + c)"
    proof
      assume x: "p \<le> x \<and> x < p + c"
      then have "?u (x - p) = Some x" "x - p < length data"
        using head [of "x - p"] c(1) by auto
      then show False
        using that by blast
    qed
    moreover have "\<forall>k<length (drop c data). user_phys r True (a + c + k) ?m \<noteq> Some x"
      using that by (auto simp: rest_u)
    moreover from this have "byte_at x m' = byte_at x ?m"
      using rest unfolding copied_def by blast
    ultimately show ?thesis
      using bytes [of x] by auto
  qed
  moreover have "byte_at x m' = data ! k" if inj: "inj_on ?u {..<length data}" and k: "k < length data" "?u k = Some x" for k x
  proof (cases "k < c")
    case True
    have "?u (c + j) \<noteq> Some x" if "j < length data - c" for j
    proof -
      have "c + j < length data"
        using that by simp
      then show ?thesis
        using inj_onD [OF inj, of k "c + j"] k True by auto
    qed
    then have "\<forall>j<length (drop c data). user_phys r True (a + c + j) ?m \<noteq> Some x"
      unfolding rest_u by simp
    then have "byte_at x m' = byte_at x ?m"
      using rest unfolding copied_def by blast
    then show ?thesis
      using bytes [of x] head [OF True] k(2) True by simp
  next
    case False
    have "inj_on (\<lambda>j. user_phys r True (a + c + j) ?m) {..<length (drop c data)}"
    proof (rule inj_onI)
      fix x y
      assume xy: "x \<in> {..<length (drop c data)}" "y \<in> {..<length (drop c data)}"
        and eq: "user_phys r True (a + c + x) ?m = user_phys r True (a + c + y) ?m"
      then have "c + x \<in> {..<length data}" "c + y \<in> {..<length data}"
        by auto
      then show "x = y"
        using inj_onD [OF inj eq [unfolded rest_u]] by simp
    qed
    then have all: "\<forall>j<length (drop c data). \<forall>x. ?u (c + j) = Some x \<longrightarrow> byte_at x m' = drop c data ! j"
      using rest unfolding copied_def rest_u by blast
    show ?thesis
      using all [rule_format, of "k - c" x] k False c(1) by simp
  qed
  ultimately show ?thesis
    using same_tables_trans [OF same] rest unfolding copied_def by blast
qed

lemma copy_out_loop_ok:
  assumes "user_ok cpu r m" and "data = [] \<or> user_range a (length data)" and "\<forall>k<length data. user_phys r True (a + k) m \<noteq> None"
  shows "copied r a data m (copy_out_loop cpu a data m)"
  using assms
proof (induction cpu a data m rule: copy_out_loop.induct)
  case (1 cpu a data m)
  show ?case
  proof (cases "data = []")
    case True
    then show ?thesis
      by (simp add: copy_out_loop.simps copied_def same_tables_def)
  next
    case False
    define c where "c = min (length data) (4096 - a mod 4096)"
    have c: "c \<le> length data" "c \<le> 4096 - a mod 4096" "0 < c"
      using False by (simp_all add: c_def)
    have range: "user_range a (length data)"
      using "1.prems"(2) False by simp
    obtain p where p: "user_phys r True a m = Some p"
      using "1.prems"(3) False by (metis add.right_neutral length_greater_0_conv not_None_eq)
    then have get: "get_user_phys cpu a True m = p"
      using get_user_phys_eq [of r m cpu a True] "1.prems"(1) by (simp add: user_ok_def)
    let ?m = "write_bytes p (take c data) m"
    have same: "same_tables r m ?m"
      using c by (intro write_chunk [OF "1.prems"(1) p]) simp
    have "copied r (a + c) (drop c data) ?m (copy_out_loop cpu (a + c) (drop c data) ?m)"
    proof (rule "1.IH" [OF False get [symmetric] c_def])
      show "user_ok cpu r ?m"
        by (rule same_tables_ok [OF same "1.prems"(1)])
      show "drop c data = [] \<or> user_range (a + c) (length (drop c data))"
        using range c by (auto simp: user_range_def)
      show "\<forall>k<length (drop c data). user_phys r True (a + c + k) ?m \<noteq> None"
        using "1.prems"(3) by (simp add: same_tables_phys [OF same] add.assoc)
    qed
    moreover have "copy_out_loop cpu a data m = copy_out_loop cpu (a + c) (drop c data) ?m"
      using False get by (subst copy_out_loop.simps) (simp add: Let_def c_def)
    ultimately show ?thesis
      using copied_chunk [OF "1.prems"(1) p c range] by simp
  qed
qed

lemma copy_in_loop_ok:
  assumes "user_ok cpu r m" and "n = 0 \<or> user_range a n" and "\<forall>k<n. user_phys r False (a + k) m \<noteq> None"
  shows "copy_in_loop cpu a n m = map (\<lambda>k. byte_at (the (user_phys r False (a + k) m)) m) [0..<n]"
  using assms
proof (induction cpu a n m rule: copy_in_loop.induct)
  case (1 cpu a n m)
  let ?u = "\<lambda>k. user_phys r False (a + k) m"
  show ?case
  proof (cases "n = 0")
    case True
    then show ?thesis
      by (simp add: copy_in_loop.simps)
  next
    case False
    define c where "c = min n (4096 - a mod 4096)"
    have c: "c \<le> n" "c \<le> 4096 - a mod 4096" "0 < c"
      using False by (simp_all add: c_def)
    have range: "user_range a n"
      using "1.prems"(2) False by simp
    obtain p where p: "user_phys r False a m = Some p"
      using "1.prems"(3) False by (metis add.right_neutral gr0I not_None_eq)
    then have get: "get_user_phys cpu a False m = p"
      using get_user_phys_eq [of r m cpu a False] "1.prems"(1) by (simp add: user_ok_def)
    have "copy_in_loop cpu (a + c) (n - c) m = map (\<lambda>k. byte_at (the (user_phys r False (a + c + k) m)) m) [0..<n - c]"
    proof (rule "1.IH" [OF False get [symmetric] c_def "1.prems"(1)])
      show "n - c = 0 \<or> user_range (a + c) (n - c)"
        using range c by (auto simp: user_range_def)
      show "\<forall>k<n - c. user_phys r False (a + c + k) m \<noteq> None"
        using "1.prems"(3) by (simp add: add.assoc)
    qed
    moreover have "read_bytes p c m = map (\<lambda>k. byte_at (the (?u k)) m) [0..<c]"
      using chunk_phys [OF p] user_range_sub [OF range] c by (auto simp: read_bytes_def)
    moreover have "[0..<n] = [0..<c] @ map (\<lambda>k. c + k) [0..<n - c]"
      using c(1) upt_add_eq_append [of 0 c "n - c"] map_add_upt [of c "n - c"] by (simp add: add.commute)
    ultimately show ?thesis
      using False get by (subst copy_in_loop.simps) (simp add: Let_def c_def [symmetric] add.assoc)
  qed
qed

section \<open>Properties\<close>

text \<open>C33. \<open>vmm::map\<close> refines the update of a map from pages to entries.  For a page aligned user address it
  either installs the entry at that page and changes no other translation of the address space, although it
  may allocate up to three tables, or it changes no translation at all, which happens only when neither the
  buddy allocator nor the cache of the processor has a page left.  The tables stay a tree, disjoint from the free frames, and no frame outside
  that tree and the free frames is written.\<close>

theorem vmm_map_refines:
  assumes "frames_ok m" and "tree_ok (active_root cpu m) m" and "cpu < MAX_CPUS"
    and "user_range virt PAGE_SIZE" and "virt mod 4096 = 0" and "p mod 4096 = 0"
    and "r = active_root cpu m" and "m' = vmm_map cpu virt p flags m"
  shows "frames_ok m' \<and> tree_ok r m' \<and> active_root cpu m' = r \<and>
    (\<exists>mapped. (\<forall>v. user_range v 1 \<longrightarrow>
        page_entry r v m' = (if mapped \<and> v div 4096 = virt div 4096 then of_nat p OR flags else page_entry r v m)) \<and>
      (mapped \<or> exhausted cpu (phys m'))) \<and>
    (\<forall>x. x \<notin> touches r m \<longrightarrow> mem m' x = mem m x)"
proof -
  obtain mapped where "frames_ok m'" "tree_ok r m'" "cr3 m' = cr3 m" "roots m' = roots m"
    "\<And>v. user_range v 1 \<Longrightarrow>
       page_entry r v m' = (if mapped \<and> v div 4096 = virt div 4096 then of_nat p OR flags else page_entry r v m)"
    "\<not> mapped \<Longrightarrow> exhausted cpu (phys m')" "\<And>x. x \<notin> touches r m \<Longrightarrow> mem m' x = mem m x"
    "touches r m' \<subseteq> touches r m"
    by (rule vmm_map_ok [OF assms(1-6), of flags, folded assms(7) assms(8)]) (rule that; assumption)
  then show ?thesis
    unfolding assms(7) by (auto simp: active_root_def)
qed

text \<open>C34. \<open>copy_to_user\<close> succeeds exactly when the range is empty or every byte of it lies in a page that user
  code may write.  It then changes only the bytes behind the range, neither page tables nor any other
  memory, and if no two of the addresses share a byte \<open>copy_from_user\<close> reads the data back; otherwise it changes
  nothing.\<close>

theorem copy_to_user_exact:
  assumes "user_ok cpu r m" and "copy_to_user cpu dest data m = (success, m')"
  shows "(success \<longleftrightarrow> data = [] \<or> user_range dest (length data) \<and> (\<forall>k<length data. user_phys r True (dest + k) m \<noteq> None)) \<and>
    same_tables r m m' \<and>
    (\<forall>x. success \<and> (\<exists>k<length data. user_phys r True (dest + k) m = Some x) \<or> byte_at x m' = byte_at x m) \<and>
    (success \<and> inj_on (\<lambda>k. user_phys r True (dest + k) m) {..<length data} \<longrightarrow>
       copy_from_user cpu dest (length data) m' = Some data)"
proof (cases "accessible cpu dest (length data) True m")
  case False
  then show ?thesis
    using assms accessible_iff [OF assms(1), of dest "length data" True] by (auto simp: copy_to_user_def same_tables_def)
next
  case True
  then have acc: "data = [] \<or> user_range dest (length data) \<and> (\<forall>k<length data. user_phys r True (dest + k) m \<noteq> None)"
    using accessible_iff [OF assms(1)] by auto
  have run: "success" "m' = copy_out_loop cpu dest data m"
    using assms(2) True by (simp_all add: copy_to_user_def)
  have copied: "copied r dest data m m'"
    unfolding run(2) using acc by (intro copy_out_loop_ok [OF assms(1)]) auto
  then have same: "same_tables r m m'"
    by (simp add: copied_def)
  note ok' = same_tables_ok [OF same assms(1)]
  have read: "user_phys r False (dest + k) m' = user_phys r True (dest + k) m" if k: "k < length data" for k
  proof -
    obtain x where x: "user_phys r True (dest + k) m = Some x"
      using acc k by fastforce
    then show ?thesis
      using same_tables_phys [OF same] user_phys_weaken [OF x] by simp
  qed
  have "copy_from_user cpu dest (length data) m' = Some data" if inj: "inj_on (\<lambda>k. user_phys r True (dest + k) m) {..<length data}"
  proof -
    have data: "byte_at (the (user_phys r False (dest + k) m')) m' = data ! k" if k: "k < length data" for k
    proof -
      obtain x where x: "user_phys r True (dest + k) m = Some x"
        using acc k by fastforce
      then show ?thesis
        using copied inj k read [OF k] by (simp add: copied_def)
    qed
    have all: "length data = 0 \<or> user_range dest (length data)" "\<forall>k<length data. user_phys r False (dest + k) m' \<noteq> None"
      using acc read by auto
    then have "accessible cpu dest (length data) False m'"
      using accessible_iff [OF ok', of dest "length data" False] by auto
    moreover have "copy_in_loop cpu dest (length data) m' = data"
      unfolding copy_in_loop_ok [OF ok' all] by (rule nth_equalityI) (simp_all add: data)
    ultimately show ?thesis
      by (simp add: copy_from_user_def)
  qed
  moreover have "success \<and> (\<exists>k<length data. user_phys r True (dest + k) m = Some x) \<or> byte_at x m' = byte_at x m" for x
    using copied run(1) by (auto simp: copied_def)
  ultimately show ?thesis
    using acc run(1) same by simp
qed

text \<open>A machine with one user page at the first user address, for the examples.\<close>

definition demo_machine :: machine where
  "demo_machine =
    \<lparr>phys = small_machine,
     mem = (\<lambda>t i. if t = 0x100000 \<and> i = 1 then 0x101007 else if t = 0x101000 \<and> i = 0 then 0x102007
       else if t = 0x102000 \<and> i = 0 then 0x103007 else if t = 0x103000 \<and> i = 0 then 0x104007 else 0),
     cr3 = (\<lambda>_. 0x100000), roots = (\<lambda>_. 0), g_pml4 = 0\<rparr>"

lemma small_machine_arena: "pmm_arena small_machine \<subseteq> {2..<8}"
proof -
  have "buddy_base (g_buddy small_machine) = 8192" "buddy_total (g_buddy small_machine) = 6"
    by code_simp+
  then show ?thesis
    by (simp add: pmm_arena_def arena_frames_def PAGE_SIZE_def)
qed

lemma demo_walk:
  "user_path p \<Longrightarrow> walk demo_machine 0x100000 p =
    (if p = [] then Some 0x100000 else if p = [1] then Some 0x101000 else if p = [1, 0] then Some 0x102000
     else if p = [1, 0, 0] then Some 0x103000 else None)"
proof -
  have frames: "frame_of 0x101007 = 0x101000" "frame_of 0x102007 = 0x102000" "frame_of 0x103007 = 0x103000"
    by (simp_all add: frame_of_def FRAME_MASK_def)
  assume "user_path p"
  then consider "p = []" | i where "p = [i]" | i j where "p = [i, j]" | i j k where "p = [i, j, k]"
    by (cases p; cases "tl p"; cases "tl (tl p)"; cases "tl (tl (tl p))") (auto simp: user_path_def)
  then show ?thesis
    by cases (auto simp: demo_machine_def PRESENT_def frames)
qed

lemma demo_machine_ok: "frames_ok demo_machine" "tree_ok 0x100000 demo_machine"
proof -
  have inv: "pmm_inv (phys demo_machine)" "pmm_arena (phys demo_machine) \<subseteq> {2..<8}"
    using small_machine_inv small_machine_arena by (simp_all add: demo_machine_def)
  then show "frames_ok demo_machine"
    by (auto simp: frames_ok_def)
  have free: "f < 8" if "f \<in># pmm_frames (phys demo_machine)" for f
    using that inv pmm_pages.avail_distinct [OF inv(1)] by auto
  show "tree_ok 0x100000 demo_machine"
    unfolding tree_ok_def
  proof (intro conjI allI impI; elim conjE)
    fix p t
    assume "user_path p" "walk demo_machine 0x100000 p = Some t"
    then have "t \<in> {0x100000, 0x101000, 0x102000, 0x103000}"
      by (auto simp: demo_walk split: if_splits)
    then show "t mod 4096 = 0" "t div 4096 \<notin># pmm_frames (phys demo_machine)"
      using free [of "t div 4096"] by auto
  next
    fix p q t
    assume "user_path p" "user_path q" "walk demo_machine 0x100000 p = Some t" "walk demo_machine 0x100000 q = Some t"
    then show "p = q"
      by (auto simp: demo_walk split: if_splits)
  next
    fix p i t
    show "mem demo_machine t i = 0 \<or> mem demo_machine t i AND 7 = 7 \<and> mem demo_machine t i AND PAGE_SIZE_BIT = 0"
      by (auto simp: demo_machine_def PAGE_SIZE_BIT_def push_bit_eq_mult)
  qed
qed

lemma demo_entries:
  "page_entry 0x100000 0x8000000000 demo_machine = 0x104007" "page_entry 0x100000 0x8000200000 demo_machine = 0"
proof -
  have paths: "page_path 0x8000000000 = [1, 0, 0]" "page_path 0x8000200000 = [1, 0, 1]" "table_index 0 0x8000000000 = 0"
    by (simp_all add: page_path_def table_index_def)
  have walks: "walk demo_machine 0x100000 [1, 0, 0] = Some 0x103000" "walk demo_machine 0x100000 [1, 0, 1] = None"
    using demo_walk [of "[1, 0, 0]"] demo_walk [of "[1, 0, 1]"] by (simp_all add: user_path_def del: walk.simps)
  have leaf: "mem demo_machine 0x103000 0 = 0x104007"
    by (simp add: demo_machine_def)
  show "page_entry 0x100000 0x8000000000 demo_machine = 0x104007" "page_entry 0x100000 0x8000200000 demo_machine = 0"
    unfolding page_entry_def entry_at_def paths walks by (simp_all add: leaf)
qed

theorem vmm_map_refines_witness:
  "\<exists>mapped. page_entry 0x100000 0x8000000000 (vmm_map 0 0x8000200000 0x7000 7 demo_machine) = 0x104007 \<and>
    page_entry 0x100000 0x8000200000 (vmm_map 0 0x8000200000 0x7000 7 demo_machine) = (if mapped then 0x7007 else 0)"
proof -
  have root: "active_root 0 demo_machine = 0x100000"
    by (simp add: active_root_def demo_machine_def)
  obtain mapped where "\<forall>v. user_range v 1 \<longrightarrow> page_entry 0x100000 v (vmm_map 0 0x8000200000 0x7000 7 demo_machine) =
      (if mapped \<and> v div 4096 = 0x8000200000 div 4096 then of_nat 0x7000 OR 7 else page_entry 0x100000 v demo_machine)"
    using vmm_map_refines [OF demo_machine_ok(1) demo_machine_ok(2) [folded root] _ _ _ _ root [symmetric] refl,
        of "0x8000200000" "0x7000" 7]
    by (auto simp: MAX_CPUS_def user_range_def USER_BEGIN_def USER_END_def PAGE_SIZE_def)
  from this [rule_format, of "0x8000000000"] this [rule_format, of "0x8000200000"] show ?thesis
    by (intro exI [of _ mapped]) (simp add: demo_entries user_range_def USER_BEGIN_def USER_END_def)
qed

lemma demo_user_ok: "user_ok 0 0x100000 demo_machine"
proof -
  have "frame_of (page_entry 0x100000 v demo_machine) = 0x104000"
    if "page_entry 0x100000 v demo_machine AND required False = required False" "user_range v 1" for v
  proof -
    have "walk demo_machine 0x100000 (page_path v) = Some 0x103000"
      using that demo_walk [OF page_path_user(1) [OF that(2)]] required_present(3) [of False]
      by (auto simp: page_entry_def entry_at_def page_path_def split: if_splits)
    moreover have "frame_of 0x104007 = 0x104000"
      by (simp add: frame_of_def FRAME_MASK_def)
    ultimately show ?thesis
      using that(1) required_present(3) [of False] by (auto simp: page_entry_def entry_at_def demo_machine_def split: if_splits)
  qed
  then have "leaves_ok 0x100000 demo_machine"
    by (auto simp: leaves_ok_def demo_walk split: if_splits)
  then show ?thesis
    using demo_machine_ok(2) by (simp add: user_ok_def runs_on_def) (simp add: demo_machine_def)
qed

theorem copy_to_user_exact_witness:
  "fst (copy_to_user 0 0x8000000ffe [1, 2] demo_machine) \<and> \<not> fst (copy_to_user 0 0x8000000ffe [1, 2, 3] demo_machine) \<and>
    copy_from_user 0 0x8000000ffe 2 (snd (copy_to_user 0 0x8000000ffe [1, 2] demo_machine)) = Some [1, 2]"
proof -
  have paths: "page_path 0x8000000ffe = [1, 0, 0]" "page_path 0x8000000fff = [1, 0, 0]" "page_path 0x8000001000 = [1, 0, 0]"
      "table_index 0 0x8000000ffe = 0" "table_index 0 0x8000000fff = 0" "table_index 0 0x8000001000 = 1"
    by (simp_all add: page_path_def table_index_def)
  have pt: "walk demo_machine 0x100000 [1, 0, 0] = Some 0x103000"
    using demo_walk [of "[1, 0, 0]"] by (simp add: user_path_def del: walk.simps)
  have leaf: "mem demo_machine 0x103000 0 = 0x104007" "mem demo_machine 0x103000 (Suc 0) = 0"
    by (simp_all add: demo_machine_def)
  have frame: "frame_of 0x104007 = 0x104000"
    by (simp add: frame_of_def FRAME_MASK_def)
  have u: "user_phys 0x100000 True 0x8000000ffe demo_machine = Some 0x104ffe"
      "user_phys 0x100000 True 0x8000000fff demo_machine = Some 0x104fff" "user_phys 0x100000 True 0x8000001000 demo_machine = None"
    unfolding user_phys_def page_entry_def entry_at_def paths pt
    by (simp_all add: leaf frame required_values user_range_def USER_BEGIN_def USER_END_def)
  have range: "user_range 0x8000000ffe 2"
    by (simp add: user_range_def USER_BEGIN_def USER_END_def)
  have two: "k = 0 \<or> k = 1" if "k < 2" for k :: nat
    using that by auto
  obtain ok m' where run: "copy_to_user 0 0x8000000ffe [1, 2] demo_machine = (ok, m')"
    by (rule prod.exhaust)
  obtain ok3 m3 where run3: "copy_to_user 0 0x8000000ffe [1, 2, 3] demo_machine = (ok3, m3)"
    by (rule prod.exhaust)
  have all: "\<forall>k<2. user_phys 0x100000 True (0x8000000ffe + k) demo_machine \<noteq> None"
      "inj_on (\<lambda>k. user_phys 0x100000 True (0x8000000ffe + k) demo_machine) {..<2}"
    using u by (auto dest!: two simp: inj_on_def)
  have "ok \<and> copy_from_user 0 0x8000000ffe 2 m' = Some [1, 2]"
    using copy_to_user_exact [OF demo_user_ok run] all range by (simp add: numeral_2_eq_2)
  moreover have "\<not> ok3"
    using copy_to_user_exact [OF demo_user_ok run3] u(3) by auto
  ultimately show ?thesis
    using run run3 by simp
qed

end
