(* ===== verification/Elf.thy ===== *)
theory Elf
  imports Vmm
begin

text \<open>Executables (src/src/kernel/process/elf_validate.cpp, elf.cpp, elf.hpp): the check of the headers and the
  loading of the segments into a new address space, for the amd64 build.  The packed headers are decoded
  from the bytes of the file; numbers are little-endian.\<close>

unbundle bit_operations_syntax

section \<open>Headers\<close>

record elf64_ehdr =
  e_ident :: "8 word list"
  e_type :: nat
  e_machine :: nat
  e_version :: nat
  e_entry :: nat
  e_phoff :: nat
  e_shoff :: nat
  e_flags :: nat
  e_ehsize :: nat
  e_phentsize :: nat
  e_phnum :: nat
  e_shentsize :: nat
  e_shnum :: nat
  e_shstrndx :: nat

record elf64_phdr =
  p_type :: nat
  p_flags :: "32 word"
  p_offset :: nat
  p_vaddr :: nat
  p_paddr :: nat
  p_filesz :: nat
  p_memsz :: nat
  p_align :: nat

fun le_number :: "8 word list \<Rightarrow> nat" where
  "le_number [] = 0"
| "le_number (b # bs) = unat b + 256 * le_number bs"

definition field :: "8 word list \<Rightarrow> nat \<Rightarrow> nat \<Rightarrow> nat" where
  "field data off n = le_number (take n (drop off data))"

definition SIZEOF_EHDR :: nat where
  "SIZEOF_EHDR = 64"

definition SIZEOF_PHDR :: nat where
  "SIZEOF_PHDR = 56"

definition read_ehdr :: "8 word list \<Rightarrow> elf64_ehdr" where
  "read_ehdr d =
    \<lparr>e_ident = take 16 d, e_type = field d 16 2, e_machine = field d 18 2, e_version = field d 20 4, e_entry = field d 24 8,
     e_phoff = field d 32 8, e_shoff = field d 40 8, e_flags = field d 48 4, e_ehsize = field d 52 2,
     e_phentsize = field d 54 2, e_phnum = field d 56 2, e_shentsize = field d 58 2, e_shnum = field d 60 2,
     e_shstrndx = field d 62 2\<rparr>"

definition read_phdr :: "8 word list \<Rightarrow> nat \<Rightarrow> elf64_phdr" where
  "read_phdr d off =
    \<lparr>p_type = field d off 4, p_flags = of_nat (field d (off + 4) 4), p_offset = field d (off + 8) 8,
     p_vaddr = field d (off + 16) 8, p_paddr = field d (off + 24) 8, p_filesz = field d (off + 32) 8,
     p_memsz = field d (off + 40) 8, p_align = field d (off + 48) 8\<rparr>"

definition read_phdrs :: "8 word list \<Rightarrow> elf64_phdr list" where
  "read_phdrs d = map (\<lambda>i. read_phdr d (e_phoff (read_ehdr d) + i * SIZEOF_PHDR)) [0..<e_phnum (read_ehdr d)]"

definition ELFMAG :: "8 word list" where
  "ELFMAG = [0x7F, 0x45, 0x4C, 0x46]"

definition PT_LOAD :: nat where
  "PT_LOAD = 1"

section \<open>Validation\<close>

definition ehdr_ok :: "8 word list \<Rightarrow> nat \<Rightarrow> bool" where
  "ehdr_ok d arch \<longleftrightarrow>
    (let h = read_ehdr d; n = length d in
     \<not> (e_ident h ! 0 \<noteq> ELFMAG ! 0 \<or> e_ident h ! 1 \<noteq> ELFMAG ! 1 \<or> e_ident h ! 2 \<noteq> ELFMAG ! 2 \<or> e_ident h ! 3 \<noteq> ELFMAG ! 3 \<or>
        e_ident h ! 4 \<noteq> 2 \<or> e_ident h ! 5 \<noteq> 1 \<or> e_ident h ! 6 \<noteq> 1 \<or> e_version h \<noteq> 1 \<or> e_type h \<noteq> 2 \<or>
        e_machine h \<noteq> arch \<or> e_ehsize h \<noteq> SIZEOF_EHDR \<or> e_phentsize h \<noteq> SIZEOF_PHDR \<or> e_phnum h = 0 \<or>
        e_phnum h > 128 \<or> e_phoff h > n \<or> e_phnum h > (n - e_phoff h) div SIZEOF_PHDR))"

definition seg_rejected :: "nat \<Rightarrow> elf64_phdr \<Rightarrow> bool" where
  "seg_rejected n p \<longleftrightarrow>
     p_filesz p > p_memsz p \<or> p_offset p > n \<or> p_filesz p > n - p_offset p \<or>
     p_vaddr p < USER_BEGIN \<or> p_vaddr p \<ge> USER_END \<or>
     p_memsz p > USER_END - p_vaddr p \<or> p_flags p AND NOT 7 \<noteq> 0 \<or> p_flags p AND 3 = 3"

definition seg_misaligned :: "elf64_phdr \<Rightarrow> bool" where
  "seg_misaligned p \<longleftrightarrow>
     p_align p > 1 \<and> (p_align p AND (p_align p - 1) \<noteq> 0 \<or> p_vaddr p mod p_align p \<noteq> p_offset p mod p_align p)"

definition page_begin :: "elf64_phdr \<Rightarrow> addr" where
  "page_begin p = p_vaddr p div 4096 * 4096"

definition page_end :: "elf64_phdr \<Rightarrow> addr" where
  "page_end p = wadd 64 (wadd 64 (p_vaddr p) (p_memsz p)) 4095 div 4096 * 4096"

definition loadable :: "elf64_phdr \<Rightarrow> bool" where
  "loadable p \<longleftrightarrow> p_type p = PT_LOAD \<and> p_memsz p \<noteq> 0"

definition overlaps_earlier :: "elf64_phdr list \<Rightarrow> elf64_phdr \<Rightarrow> bool" where
  "overlaps_earlier earlier p \<longleftrightarrow>
     (\<exists>q\<in>set earlier. loadable q \<and> page_begin p < page_end q \<and> page_begin q < page_end p)"

text \<open>The loop over the program headers: \<open>earlier\<close> are those before the current one.\<close>

fun validate_loop :: "nat \<Rightarrow> nat \<Rightarrow> elf64_phdr list \<Rightarrow> elf64_phdr list \<Rightarrow> bool \<Rightarrow> bool" where
  "validate_loop n entry earlier [] executable_entry = executable_entry"
| "validate_loop n entry earlier (p # ps) executable_entry =
    (if p_type p \<noteq> PT_LOAD then validate_loop n entry (earlier @ [p]) ps executable_entry
     else if p_memsz p = 0 then
       if p_filesz p \<noteq> 0 then False else validate_loop n entry (earlier @ [p]) ps executable_entry
     else if seg_rejected n p then False
     else if seg_misaligned p then False
     else
       let executable_entry =
             (executable_entry \<or> p_flags p AND 1 \<noteq> 0 \<and> entry \<ge> p_vaddr p \<and> entry - p_vaddr p < p_filesz p)
       in if overlaps_earlier earlier p then False
          else validate_loop n entry (earlier @ [p]) ps executable_entry)"

definition elf_validate :: "8 word list option \<Rightarrow> nat \<Rightarrow> bool" where
  "elf_validate data arch =
    (case data of
       None \<Rightarrow> False
     | Some d \<Rightarrow>
         if length d < SIZEOF_EHDR then False
         else if \<not> ehdr_ok d arch then False
         else validate_loop (length d) (e_entry (read_ehdr d)) [] (read_phdrs d) False)"

section \<open>Loading\<close>

definition seg_flags :: "elf64_phdr \<Rightarrow> 64 word" where
  "seg_flags p =
    (let flags = PRESENT OR USER;
         flags = (if p_flags p AND 2 \<noteq> 0 then flags OR WRITABLE else flags)
     in if p_flags p AND 1 = 0 then flags OR NO_EXECUTE else flags)"

text \<open>The loop over the \<open>n\<close> pages from page \<open>p\<close> on of a segment.\<close>

primrec load_pages :: "nat \<Rightarrow> nat \<Rightarrow> 8 word list \<Rightarrow> elf64_phdr \<Rightarrow> nat \<Rightarrow> machine \<Rightarrow> bool \<times> machine" where
  "load_pages 0 cpu d ph p m = (True, m)"
| "load_pages (Suc n) cpu d ph p m =
    (let page_base = page_begin ph; lead_in = p_vaddr ph - page_base;
         (frame, m) = alloc_frame cpu m
     in if frame = 0 then (False, m)
        else
          let m = clear_frame frame m;
              page_start = (if p = 0 then 0 else p * PAGE_SIZE - lead_in);
              frame_off = (if p = 0 then lead_in else 0);
              m = (if page_start < p_filesz ph then
                     let avail = p_filesz ph - page_start; room = PAGE_SIZE - frame_off;
                         chunk = (if avail < room then avail else room)
                     in write_bytes (frame + frame_off) (take chunk (drop (p_offset ph + page_start) d)) m
                   else m);
              address = page_base + p * PAGE_SIZE;
              m = vmm_map cpu address frame (seg_flags ph) m
          in if get_phys cpu address m \<noteq> frame then (False, free_frame cpu frame m)
             else load_pages n cpu d ph (p + 1) m)"

definition pages_needed :: "elf64_phdr \<Rightarrow> nat" where
  "pages_needed ph = (p_vaddr ph - page_begin ph + p_memsz ph + PAGE_SIZE - 1) div PAGE_SIZE"

fun load_segments :: "nat \<Rightarrow> 8 word list \<Rightarrow> elf64_phdr list \<Rightarrow> machine \<Rightarrow> bool \<times> machine" where
  "load_segments cpu d [] m = (True, m)"
| "load_segments cpu d (ph # phs) m =
    (if loadable ph then
       case load_pages (pages_needed ph) cpu d ph 0 m of
         (ok, m) \<Rightarrow> if ok then load_segments cpu d phs m else (False, m)
     else load_segments cpu d phs m)"

definition elf_load :: "nat \<Rightarrow> addr \<Rightarrow> 8 word list option \<Rightarrow> machine \<Rightarrow> addr \<times> machine" where
  "elf_load cpu pml4 data m =
    (if pml4 = 0 \<or> \<not> elf_validate data 62 then (0, m)
     else
       let d = the data;
           previous = get_active_page_table cpu m;
           (ok, m) = load_segments cpu d (read_phdrs d) (vmm_switch_to cpu pml4 m);
           m = vmm_switch_to cpu previous m
       in (if ok then e_entry (read_ehdr d) else 0, m))"

section \<open>What a valid file promises\<close>

definition apart :: "elf64_phdr \<Rightarrow> elf64_phdr \<Rightarrow> bool" where
  "apart q p \<longleftrightarrow> loadable q \<and> loadable p \<longrightarrow> page_end q \<le> page_begin p \<or> page_end p \<le> page_begin q"

definition entry_in :: "nat \<Rightarrow> elf64_phdr \<Rightarrow> bool" where
  "entry_in entry p \<longleftrightarrow> loadable p \<and> p_flags p AND 1 \<noteq> 0 \<and> p_vaddr p \<le> entry \<and> entry < p_vaddr p + p_filesz p"

lemma apart_earlier: "loadable p \<Longrightarrow> \<not> overlaps_earlier earlier p \<longleftrightarrow> (\<forall>q\<in>set earlier. apart q p)"
  by (auto simp: overlaps_earlier_def apart_def not_less)

lemma validate_loop_step:
  assumes "validate_loop n entry earlier (p # ps) ex"
  shows "(loadable p \<longrightarrow> \<not> seg_rejected n p \<and> \<not> overlaps_earlier earlier p) \<and>
    validate_loop n entry (earlier @ [p]) ps (ex \<or> entry_in entry p)"
proof (cases "loadable p")
  case True
  have "p_vaddr p \<le> entry \<and> entry < p_vaddr p + p_filesz p \<longleftrightarrow> entry \<ge> p_vaddr p \<and> entry - p_vaddr p < p_filesz p"
    by auto
  then show ?thesis
    using assms True by (auto simp: loadable_def entry_in_def Let_def split: if_splits)
next
  case False
  then show ?thesis
    using assms by (auto simp: loadable_def entry_in_def split: if_splits)
qed

lemma validate_loop_ok:
  "validate_loop n entry earlier ps ex \<Longrightarrow>
    (\<forall>p\<in>set ps. loadable p \<longrightarrow> \<not> seg_rejected n p) \<and> sorted_wrt apart ps \<and> (\<forall>q\<in>set earlier. \<forall>p\<in>set ps. apart q p) \<and>
    (ex \<or> (\<exists>p\<in>set ps. entry_in entry p))"
proof (induction ps arbitrary: earlier ex)
  case (Cons p ps)
  note step = validate_loop_step [OF Cons.prems]
  have "\<forall>q\<in>set earlier. apart q p"
    using step apart_earlier [of p earlier] by (cases "loadable p") (auto simp: apart_def)
  then show ?case
    using step Cons.IH [of "earlier @ [p]" "ex \<or> entry_in entry p"] by auto
qed simp

text \<open>The facts about a segment of a valid file that the loader relies on.\<close>

definition seg_ok :: "nat \<Rightarrow> elf64_phdr \<Rightarrow> bool" where
  "seg_ok n p \<longleftrightarrow>
     p_filesz p \<le> p_memsz p \<and> p_offset p + p_filesz p \<le> n \<and> USER_BEGIN \<le> p_vaddr p \<and> p_vaddr p + p_memsz p \<le> USER_END \<and>
     \<not> (p_flags p AND 1 \<noteq> 0 \<and> p_flags p AND 2 \<noteq> 0)"

lemma write_execute:
  fixes f :: "32 word"
  assumes "f AND 3 \<noteq> 3"
  shows "\<not> (f AND 1 \<noteq> 0 \<and> f AND 2 \<noteq> 0)"
proof
  have bits: "f AND 1 = of_bool (bit f 0)" "f AND 2 = of_bool (bit f 1) * 2"
    by (rule bit_word_eqI; auto simp: bit_simps)+
  have three: "(3 :: 32 word) = mask 2"
    by (simp add: mask_eq_exp_minus_1)
  assume "f AND 1 \<noteq> 0 \<and> f AND 2 \<noteq> 0"
  then have "bit f 0" "bit f 1"
    using bits by (cases "bit f 1"; cases "bit f 0"; simp)+
  then have "f AND 3 = 3"
    unfolding three by (intro bit_word_eqI) (auto simp: bit_simps less_2_cases_iff)
  then show False
    using assms by simp
qed

lemma seg_rejected_ok: "loadable p \<Longrightarrow> \<not> seg_rejected n p \<Longrightarrow> seg_ok n p"
  using write_execute [of "p_flags p"] by (auto simp: seg_rejected_def seg_ok_def USER_END_def)

lemma page_range:
  assumes "seg_ok n p" and "loadable p"
  shows "page_end p = page_begin p + pages_needed p * 4096" "USER_BEGIN \<le> page_begin p" "page_end p \<le> USER_END"
    "page_begin p \<le> p_vaddr p" "p_vaddr p - page_begin p < 4096" "p_vaddr p + p_memsz p \<le> page_end p" "page_begin p mod 4096 = 0"
proof -
  define c where "c = p_vaddr p div 4096"
  define l where "l = p_vaddr p mod 4096"
  have v: "p_vaddr p = 4096 * c + l" "l < 4096"
    by (simp_all add: c_def l_def)
  have b: "page_begin p = 4096 * c"
    by (simp add: page_begin_def c_def)
  have user: "USER_BEGIN \<le> p_vaddr p" "p_vaddr p + p_memsz p \<le> USER_END"
    using assms(1) by (simp_all add: seg_ok_def)
  have e: "page_end p = (4096 * c + (l + p_memsz p + 4095)) div 4096 * 4096"
    using user v by (simp add: page_end_def wadd_small USER_END_def add.assoc)
  then have e': "page_end p = 4096 * (c + (l + p_memsz p + 4095) div 4096)"
    by simp
  show "page_end p = page_begin p + pages_needed p * 4096"
    by (simp add: e' b pages_needed_def v(1) PAGE_SIZE_def algebra_simps)
  show "USER_BEGIN \<le> page_begin p" "page_begin p \<le> p_vaddr p" "p_vaddr p - page_begin p < 4096" "page_begin p mod 4096 = 0"
    using user v b by (auto simp: USER_BEGIN_def)
  have "x \<le> (x + 4095) div 4096 * 4096" for x :: nat
    using div_mult_mod_eq [of "x + 4095" 4096] mod_less_divisor [of 4096 "x + 4095"] by linarith
  from this [of "4096 * c + (l + p_memsz p)"] show "p_vaddr p + p_memsz p \<le> page_end p"
    by (simp add: e v(1) add.assoc)
  have "4096 * c + (l + p_memsz p) \<le> 4096 * 0x800000000"
    using user(2) v by (simp add: USER_END_def)
  then have "4096 * c + (l + p_memsz p + 4095) < 4096 * (0x800000000 + 1)"
    by simp
  then have "(4096 * c + (l + p_memsz p + 4095)) div 4096 < 0x800000000 + 1"
    by (simp only: less_mult_imp_div_less mult.commute)
  then show "page_end p \<le> USER_END"
    unfolding e by (simp add: USER_END_def)
qed

lemma validated:
  assumes "elf_validate (Some d) arch"
  shows "\<forall>p\<in>set (read_phdrs d). loadable p \<longrightarrow> seg_ok (length d) p" "sorted_wrt apart (read_phdrs d)"
    "\<exists>p\<in>set (read_phdrs d). entry_in (e_entry (read_ehdr d)) p" "ehdr_ok d arch" "SIZEOF_EHDR \<le> length d"
  using assms validate_loop_ok [of "length d" "e_entry (read_ehdr d)" "[]" "read_phdrs d" False] seg_rejected_ok
  by (auto simp: elf_validate_def split: if_splits)

section \<open>The image in memory\<close>

text \<open>The byte that belongs at the address \<open>v\<close> of a page of a segment.\<close>

definition image_at :: "8 word list \<Rightarrow> elf64_phdr \<Rightarrow> addr \<Rightarrow> 8 word" where
  "image_at d ph v = (if p_vaddr ph \<le> v \<and> v < p_vaddr ph + p_filesz ph then d ! (p_offset ph + (v - p_vaddr ph)) else 0)"

lemma fresh_data:
  assumes ok: "tree_ok r m" and a: "a div 4096 \<in># pmm_frames (phys m)" "a div 4096 \<notin># pmm_frames (phys m')"
    and frames: "set_mset (pmm_frames (phys m')) \<subseteq> set_mset (pmm_frames (phys m))" and mem: "\<forall>u. u \<noteq> a \<longrightarrow> mem m' u = mem m u"
  shows "tree_ok r m'" "user_range v 1 \<Longrightarrow> page_entry r v m' = page_entry r v m" "touches r m' \<subseteq> touches r m" "a \<notin> touches r m'"
    "a \<in> touches r m"
proof -
  have table: "walk m r p \<noteq> Some a" if "user_path p" for p
    using tree_okD(2) [OF ok that] a(1) by blast
  have same: "user_path p \<Longrightarrow> walk m' r p = walk m r p" "user_range v 1 \<Longrightarrow> page_entry r v m' = page_entry r v m" for p v
    using data_change [of a m' m r] mem table by blast+
  show "page_entry r v m' = page_entry r v m" if "user_range v 1"
    using that by (rule same(2))
  show "tree_ok r m'"
    unfolding tree_ok_def
  proof (intro conjI allI impI; elim conjE)
    fix p t
    assume "user_path p" "walk m' r p = Some t"
    then show "t mod 4096 = 0" "t div 4096 \<notin># pmm_frames (phys m')"
      using same(1) tree_okD(1,2) [OF ok] frames by (auto dest!: subsetD)
  next
    fix p i t
    assume p: "user_path (p @ [i])" "walk m' r p = Some t"
    then have "walk m r p = Some t"
      using same(1) [OF user_path_butlast] by simp
    then show "mem m' t i = 0 \<or> mem m' t i AND 7 = 7 \<and> mem m' t i AND PAGE_SIZE_BIT = 0"
      using tree_okD(4) [OF ok p(1)] mem table [OF user_path_butlast [OF p(1)]] by auto
  qed (use same(1) tree_okD(3) [OF ok] in simp)
  show "touches r m' \<subseteq> touches r m"
    using same(1) frames by (auto simp: touches_def)
  show "a \<notin> touches r m'"
    using same(1) table a(2) by (auto simp: touches_def)
  show "a \<in> touches r m"
    using a(1) by (simp add: touches_def)
qed

lemma byte_in_frame: "a mod 4096 = 0 \<Longrightarrow> k < 4096 \<Longrightarrow> byte_at (a + k) m = get_byte (mem m a (k div 8)) (k mod 8)"
proof -
  assume a: "a mod 4096 = 0" and k: "k < 4096"
  then have "(a + k) div 4096 = a div 4096" "(a + k) mod 4096 = k"
    using within_page [of a k] by simp_all
  moreover have "(a + k) mod 8 = (a + k) mod 4096 mod 8"
    by (simp add: mod_mod_cancel)
  moreover have "a div 4096 * 4096 = a"
    using a by auto
  ultimately show ?thesis
    by (simp add: byte_at_def)
qed

text \<open>The frame of page \<open>p\<close> of a segment after it is filled.\<close>

definition fill :: "8 word list \<Rightarrow> elf64_phdr \<Rightarrow> nat \<Rightarrow> addr \<Rightarrow> machine \<Rightarrow> machine" where
  "fill d ph p frame m =
    (let lead_in = p_vaddr ph - page_begin ph;
         m = clear_frame frame m;
         page_start = (if p = 0 then 0 else p * PAGE_SIZE - lead_in);
         frame_off = (if p = 0 then lead_in else 0)
     in if page_start < p_filesz ph then
          let avail = p_filesz ph - page_start; room = PAGE_SIZE - frame_off;
              chunk = (if avail < room then avail else room)
          in write_bytes (frame + frame_off) (take chunk (drop (p_offset ph + page_start) d)) m
        else m)"

lemma fill_byte:
  assumes ok: "seg_ok (length d) ph" "loadable ph" and a: "a mod 4096 = 0" and k: "k < 4096"
  shows "byte_at (a + k) (fill d ph p a m) = image_at d ph (page_begin ph + p * 4096 + k)"
proof -
  define l where "l = p_vaddr ph - page_begin ph"
  define start where "start = (if p = 0 then 0 else p * 4096 - l)"
  define off where "off = (if p = 0 then l else 0)"
  define chunk where "chunk = (if p_filesz ph - start < 4096 - off then p_filesz ph - start else 4096 - off)"
  have l: "l < 4096" "p_vaddr ph = page_begin ph + l"
    using page_range [OF ok] by (simp_all add: l_def)
  have size: "p_offset ph + p_filesz ph \<le> length d"
    using ok(1) by (simp add: seg_ok_def)
  have zero: "byte_at (a + k) (clear_frame a m) = 0"
    using byte_in_frame [OF a k] by (simp add: clear_frame_def get_byte_def)
  have m': "fill d ph p a m = (if start < p_filesz ph
      then write_bytes (a + off) (take chunk (drop (p_offset ph + start) d)) (clear_frame a m) else clear_frame a m)"
    unfolding fill_def Let_def start_def off_def chunk_def l_def PAGE_SIZE_def by (rule refl)
  have pos: "page_begin ph + p * 4096 + k = p_vaddr ph + (start + (k - off))" if "off \<le> k"
    using that l by (auto simp: start_def off_def)
  show ?thesis
  proof (cases "off \<le> k \<and> start + (k - off) < p_filesz ph")
    case True
    then have in_chunk: "k - off < chunk" "start < p_filesz ph"
      using k by (auto simp: chunk_def)
    then have "k < off + chunk"
      using True by simp
    moreover have "length (take chunk (drop (p_offset ph + start) d)) = chunk"
      using size in_chunk(2) by (simp add: chunk_def)
    ultimately have "byte_at (a + k) (fill d ph p a m) = d ! (p_offset ph + start + (k - off))"
      using in_chunk True size by (simp add: m' write_bytes_byte)
    moreover have "image_at d ph (p_vaddr ph + x) = d ! (p_offset ph + x)" if "x < p_filesz ph" for x
      using that by (simp add: image_at_def)
    ultimately show ?thesis
      using True pos by (simp only: add.assoc)
  next
    case False
    have "\<not> (p_vaddr ph \<le> page_begin ph + p * 4096 + k \<and> page_begin ph + p * 4096 + k < p_vaddr ph + p_filesz ph)"
      using False pos l by (cases "off \<le> k") (auto simp: off_def split: if_splits)
    then have image: "image_at d ph (page_begin ph + p * 4096 + k) = 0"
      by (simp only: image_at_def if_False)
    have "\<not> (a + off \<le> a + k \<and> a + k < a + off + length (take chunk (drop (p_offset ph + start) d)))"
      using False by (auto simp: chunk_def)
    then have "byte_at (a + k) (write_bytes (a + off) (take chunk (drop (p_offset ph + start) d)) (clear_frame a m)) = 0"
      unfolding write_bytes_byte zero by (simp only: if_False)
    then show ?thesis
      unfolding image m' using zero by (simp split: if_split)
  qed
qed

lemma fill_frame:
  assumes ok: "seg_ok (length d) ph" "loadable ph" and a: "a mod 4096 = 0"
  shows "u \<noteq> a \<Longrightarrow> mem (fill d ph p a m) u = mem m u" "phys (fill d ph p a m) = phys m" "cr3 (fill d ph p a m) = cr3 m"
proof -
  have l: "p_vaddr ph - page_begin ph < 4096"
    using page_range [OF ok] by simp
  define off where "off = (if p = 0 then p_vaddr ph - page_begin ph else 0)"
  have off: "off < 4096" "(a + off) div 4096 * 4096 = a" "(a + off) mod 4096 = off"
    using l a within_page [of a off] by (auto simp: off_def)
  have chunk: "mem (write_bytes (a + off) (take n xs) m') u = mem m' u" if "u \<noteq> a" "n \<le> 4096 - off" for n xs m'
    using write_bytes_frame [of "a + off" "take n xs" u m'] off that by simp
  have clear: "mem (clear_frame a m) u = mem m u" if "u \<noteq> a"
    using that by (simp add: clear_frame_def)
  show "mem (fill d ph p a m) u = mem m u" if "u \<noteq> a"
    using chunk [OF that] clear [OF that] by (simp add: fill_def Let_def PAGE_SIZE_def flip: off_def)
  show "phys (fill d ph p a m) = phys m" "cr3 (fill d ph p a m) = cr3 m"
    by (simp_all add: fill_def Let_def clear_frame_def)
qed

section \<open>Loading\<close>

text \<open>The page at \<open>v\<close> holds its part of the segment \<open>ph\<close>, in a frame that is neither free nor a table.\<close>

definition page_loaded :: "8 word list \<Rightarrow> addr \<Rightarrow> machine \<Rightarrow> elf64_phdr \<Rightarrow> addr \<Rightarrow> bool" where
  "page_loaded d r m ph v \<longleftrightarrow>
     (\<exists>f. page_entry r v m = of_nat f OR seg_flags ph \<and> f mod 4096 = 0 \<and> 0 < f \<and> f < 2 ^ 52 \<and> f \<notin> touches r m \<and>
        (\<forall>k<4096. byte_at (f + k) m = image_at d ph (v + k)))"

definition loading :: "nat \<Rightarrow> addr \<Rightarrow> 8 word list \<Rightarrow> (elf64_phdr \<times> addr) set \<Rightarrow> machine \<Rightarrow> bool" where
  "loading cpu r d L m \<longleftrightarrow>
     frames_ok m \<and> tree_ok r m \<and> cr3 m cpu = r \<and> r mod 4096 = 0 \<and>
     (\<forall>(ph, v)\<in>L. user_range v PAGE_SIZE \<and> v mod 4096 = 0 \<and> page_loaded d r m ph v) \<and>
     (\<forall>v. user_range v 1 \<and> (\<forall>(ph, w)\<in>L. v div 4096 \<noteq> w div 4096) \<longrightarrow> page_entry r v m = 0)"

lemma seg_flags_parts: "seg_flags ph AND FRAME_MASK = 0" "seg_flags ph AND PRESENT = 1" "seg_flags ph AND USER = 4"
  "seg_flags ph AND WRITABLE = (if p_flags ph AND 2 \<noteq> 0 then 2 else 0)"
  "seg_flags ph AND NO_EXECUTE = (if p_flags ph AND 1 = 0 then NO_EXECUTE else 0)"
  by (simp_all add: seg_flags_def PRESENT_def USER_def WRITABLE_def NO_EXECUTE_def FRAME_MASK_def push_bit_eq_mult Let_def)

lemma page_loaded_keeps:
  assumes "page_loaded d r m ph v" and "page_entry r v m' = page_entry r v m" and "touches r m' \<subseteq> touches r m"
    and "\<And>x. x \<notin> touches r m \<Longrightarrow> mem m' x = mem m x"
  shows "page_loaded d r m' ph v"
proof -
  obtain f where f: "page_entry r v m = of_nat f OR seg_flags ph" "f mod 4096 = 0" "0 < f" "f < 2 ^ 52" "f \<notin> touches r m"
      "\<forall>k<4096. byte_at (f + k) m = image_at d ph (v + k)"
    using assms(1) by (auto simp: page_loaded_def)
  have "byte_at (f + k) m' = byte_at (f + k) m" if "k < 4096" for k
    using byte_in_frame [OF f(2) that] assms(4) [OF f(5)] by simp
  then show ?thesis
    unfolding page_loaded_def using f assms(2,3) by (intro exI [of _ f]) auto
qed

lemma load_pages_Suc:
  "load_pages (Suc n) cpu d ph p m =
    (case alloc_frame cpu m of (a, m1) \<Rightarrow>
       if a = 0 then (False, m1)
       else
         let v = page_begin ph + p * PAGE_SIZE; m3 = vmm_map cpu v a (seg_flags ph) (fill d ph p a m1)
         in if get_phys cpu v m3 \<noteq> a then (False, free_frame cpu a m3) else load_pages n cpu d ph (p + 1) m3)"
  unfolding load_pages.simps fill_def Let_def by (rule refl)

lemma page_in_range:
  assumes "seg_ok n ph" and "loadable ph" and "p < pages_needed ph"
  shows "user_range (page_begin ph + p * PAGE_SIZE) PAGE_SIZE" "(page_begin ph + p * PAGE_SIZE) mod 4096 = 0"
proof -
  have "p * 4096 + 4096 \<le> pages_needed ph * 4096"
    using assms(3) by simp
  then have "page_begin ph + p * 4096 + 4096 \<le> page_end ph"
    unfolding page_range(1) [OF assms(1,2)] by linarith
  then show "user_range (page_begin ph + p * PAGE_SIZE) PAGE_SIZE"
    using page_range(2,3) [OF assms(1,2)] by (simp add: user_range_def PAGE_SIZE_def)
  show "(page_begin ph + p * PAGE_SIZE) mod 4096 = 0"
    using page_range(7) [OF assms(1,2)] by (simp add: PAGE_SIZE_def)
qed

lemma loadingD:
  assumes "loading cpu r d L m"
  shows "frames_ok m" "tree_ok r m" "cr3 m cpu = r" "r mod 4096 = 0"
    "(ph, v) \<in> L \<Longrightarrow> user_range v PAGE_SIZE" "(ph, v) \<in> L \<Longrightarrow> v mod 4096 = 0" "(ph, v) \<in> L \<Longrightarrow> page_loaded d r m ph v"
    "user_range v 1 \<Longrightarrow> \<forall>(q, w)\<in>L. v div 4096 \<noteq> w div 4096 \<Longrightarrow> page_entry r v m = 0"
  using assms by (fastforce simp: loading_def)+

text \<open>One page of a segment: allocated, filled and mapped, if the tables for it can be had.\<close>

lemma page_attempt:
  assumes inv: "loading cpu r d L m" and cpu: "cpu < MAX_CPUS" and ph: "seg_ok (length d) ph" "loadable ph" "p < pages_needed ph"
    and v: "v = page_begin ph + p * PAGE_SIZE" and alloc: "alloc_frame cpu m = (a, m1)" "a \<noteq> 0"
    and m3: "m3 = vmm_map cpu v a (seg_flags ph) (fill d ph p a m1)"
  obtains mapped where "frames_ok m3" "tree_ok r m3" "cr3 m3 = cr3 m"
    "\<And>u. user_range u 1 \<Longrightarrow>
       page_entry r u m3 = (if mapped \<and> u div 4096 = v div 4096 then of_nat a OR seg_flags ph else page_entry r u m)"
    "\<not> mapped \<Longrightarrow> exhausted cpu (phys m3)" "\<And>x. x \<notin> touches r m \<Longrightarrow> mem m3 x = mem m x" "touches r m3 \<subseteq> touches r m"
    "a \<notin> touches r m3" "\<And>k. k < 4096 \<Longrightarrow> byte_at (a + k) m3 = image_at d ph (v + k)" "a mod 4096 = 0" "a < 2 ^ 52"
proof -
  note ok = loadingD(1-4) [OF inv]
  note m1 = alloc_frame_ok [OF ok(1) cpu alloc(1)]
  note a = m1(6) [OF alloc(2)]
  have range: "user_range v PAGE_SIZE" "v mod 4096 = 0"
    using page_in_range [OF ph] v by simp_all
  define m2 where "m2 = fill d ph p a m1"
  note fr = fill_frame [OF ph(1,2), where a = a and p = p and m = m1, folded m2_def]
  have m2: "phys m2 = phys m1" "cr3 m2 = cr3 m" "\<forall>u. u \<noteq> a \<longrightarrow> mem m2 u = mem m u"
    using fr a m1(2,3) by simp_all
  have distinct: "a div 4096 \<in># pmm_frames (phys m)" "a div 4096 \<notin># pmm_frames (phys m2)"
      "set_mset (pmm_frames (phys m2)) \<subseteq> set_mset (pmm_frames (phys m))"
    using a m2(1) pmm_pages.avail_distinct [of "phys m"] ok(1) by (auto simp: frames_ok_def)
  note fresh = fresh_data [OF ok(2) distinct m2(3)]
  have root: "active_root cpu m2 = r"
    using ok(3,4) m2(2) by (auto simp: active_root_def)
  have ok2: "frames_ok m2" "tree_ok (active_root cpu m2) m2"
    using m1(1) m2(1) fresh(1) root by (simp_all add: frames_ok_def)
  have m3': "m3 = vmm_map cpu v a (seg_flags ph) m2" and aligned: "a mod 4096 = 0"
    using m3 m2_def a by simp_all
  obtain mapped where map: "frames_ok m3" "tree_ok r m3" "cr3 m3 = cr3 m2" "roots m3 = roots m2"
    "\<And>u. user_range u 1 \<Longrightarrow>
       page_entry r u m3 = (if mapped \<and> u div 4096 = v div 4096 then of_nat a OR seg_flags ph else page_entry r u m2)"
    "\<not> mapped \<Longrightarrow> exhausted cpu (phys m3)"
    "\<And>x. x \<notin> touches r m2 \<Longrightarrow> mem m3 x = mem m2 x" "touches r m3 \<subseteq> touches r m2"
    by (rule vmm_map_ok [OF ok2 cpu range(1,2) aligned, of "seg_flags ph", folded m3', unfolded root]) (rule that; assumption)
  have entry: "page_entry r u m3 = (if mapped \<and> u div 4096 = v div 4096 then of_nat a OR seg_flags ph else page_entry r u m)"
    if "user_range u 1" for u
    using map(5) [OF that] fresh(2) [OF that] by simp
  have untouched: "mem m3 x = mem m x" if "x \<notin> touches r m" for x
  proof -
    have "x \<noteq> a" "x \<notin> touches r m2"
      using that fresh(3,5) by auto
    then show ?thesis
      using map(7) m2(3) by simp
  qed
  have bytes: "byte_at (a + k) m3 = image_at d ph (v + k)" if "k < 4096" for k
  proof -
    have "byte_at (a + k) m3 = byte_at (a + k) m2"
      using byte_in_frame [OF aligned that] map(7) [OF fresh(4)] by simp
    then show ?thesis
      using fill_byte [OF ph(1,2) aligned that, of p m1] by (simp add: m2_def v PAGE_SIZE_def)
  qed
  have "cr3 m3 = cr3 m" "touches r m3 \<subseteq> touches r m" "a \<notin> touches r m3" "a < 2 ^ 52"
    using map(3,8) m2(2) fresh(3,4) a by auto
  then show thesis
    using that [OF map(1,2) _ entry map(6) untouched _ _ bytes aligned] by blast
qed

lemma attempt_root:
  assumes "loading cpu r d L m" and "cr3 m3 = cr3 m"
  shows "active_root cpu m3 = r"
  using loadingD(3,4) [OF assms(1)] assms(2) by (auto simp: active_root_def)

lemma load_page_step:
  assumes inv: "loading cpu r d L m" and cpu: "cpu < MAX_CPUS" and ph: "seg_ok (length d) ph" "loadable ph" "p < pages_needed ph"
    and new: "\<forall>(q, w)\<in>L. v div 4096 \<noteq> w div 4096" and v: "v = page_begin ph + p * PAGE_SIZE"
    and alloc: "alloc_frame cpu m = (a, m1)" "a \<noteq> 0"
    and m3: "m3 = vmm_map cpu v a (seg_flags ph) (fill d ph p a m1)" "get_phys cpu v m3 = a"
  shows "loading cpu r d (insert (ph, v) L) m3"
proof -
  obtain mapped where map: "frames_ok m3" "tree_ok r m3" "cr3 m3 = cr3 m"
    "\<And>u. user_range u 1 \<Longrightarrow>
       page_entry r u m3 = (if mapped \<and> u div 4096 = v div 4096 then of_nat a OR seg_flags ph else page_entry r u m)"
    "\<And>x. x \<notin> touches r m \<Longrightarrow> mem m3 x = mem m x" "touches r m3 \<subseteq> touches r m"
    "a \<notin> touches r m3" "\<And>k. k < 4096 \<Longrightarrow> byte_at (a + k) m3 = image_at d ph (v + k)" "a mod 4096 = 0" "a < 2 ^ 52"
    by (rule page_attempt [OF inv cpu ph v alloc m3(1)]) (rule that; assumption)
  have range: "user_range v PAGE_SIZE" "v mod 4096 = 0" "user_range v 1"
    using page_in_range [OF ph] v user_range_page by simp_all
  have "mapped"
  proof (rule ccontr)
    assume "\<not> mapped"
    then have "page_entry r v m3 = 0"
      using map(4) [OF range(3)] loadingD(8) [OF inv range(3) new] by simp
    then have "get_phys cpu v m3 = 0"
      using get_phys_user [of cpu m3 v] map(2) attempt_root [OF inv map(3)] range(3) by simp
    then show False
      using m3(2) alloc(2) by simp
  qed
  then have entry: "page_entry r u m3 = (if u div 4096 = v div 4096 then of_nat a OR seg_flags ph else page_entry r u m)"
    if "user_range u 1" for u
    using map(4) [OF that] by simp
  have np: "page_loaded d r m3 ph v"
    unfolding page_loaded_def using entry [OF range(3)] map(7-10) alloc(2) by (intro exI [of _ a]) simp
  have op: "page_loaded d r m3 q w" if "(q, w) \<in> L" for q w
  proof (rule page_loaded_keeps [OF loadingD(7) [OF inv that] _ map(6) map(5)])
    have "user_range w 1" "v div 4096 \<noteq> w div 4096"
      using loadingD(5) [OF inv that] user_range_page new that by auto
    then show "page_entry r w m3 = page_entry r w m"
      using entry by simp
  qed
  have zero: "page_entry r u m3 = 0" if "user_range u 1" "\<forall>(q, w)\<in>insert (ph, v) L. u div 4096 \<noteq> w div 4096" for u
    using entry [OF that(1)] loadingD(8) [OF inv that(1)] that(2) by simp
  have ranges: "user_range w PAGE_SIZE \<and> w mod 4096 = 0" if "(q, w) \<in> L" for q w
    using loadingD(5,6) [OF inv that] by blast
  have pages: "\<forall>(q, w)\<in>insert (ph, v) L. user_range w PAGE_SIZE \<and> w mod 4096 = 0 \<and> page_loaded d r m3 q w"
    using np op ranges range(1,2) by auto
  have rest: "\<forall>u. user_range u 1 \<and> (\<forall>(q, w)\<in>insert (ph, v) L. u div 4096 \<noteq> w div 4096) \<longrightarrow> page_entry r u m3 = 0"
    using zero by blast
  have "cr3 m3 cpu = r"
    using map(3) loadingD(3) [OF inv] by simp
  then show ?thesis
    unfolding loading_def using map(1,2) loadingD(4) [OF inv] pages rest by (intro conjI)
qed

text \<open>The load of a page fails only when memory is exhausted.\<close>

lemma map_fails_exhausted:
  assumes inv: "loading cpu r d L m" and cpu: "cpu < MAX_CPUS" and ph: "seg_ok (length d) ph" "loadable ph" "p < pages_needed ph"
    and v: "v = page_begin ph + p * PAGE_SIZE" and alloc: "alloc_frame cpu m = (a, m1)" "a \<noteq> 0"
    and m3: "m3 = vmm_map cpu v a (seg_flags ph) (fill d ph p a m1)" "get_phys cpu v m3 \<noteq> a"
  shows "exhausted cpu (phys m3)"
proof -
  obtain mapped where map: "tree_ok r m3" "cr3 m3 = cr3 m"
    "\<And>u. user_range u 1 \<Longrightarrow>
       page_entry r u m3 = (if mapped \<and> u div 4096 = v div 4096 then of_nat a OR seg_flags ph else page_entry r u m)"
    "\<not> mapped \<Longrightarrow> exhausted cpu (phys m3)" "a mod 4096 = 0" "a < 2 ^ 52"
    by (rule page_attempt [OF inv cpu ph v alloc m3(1)]) (rule that; assumption)
  have range: "v mod 4096 = 0" "user_range v 1"
    using page_in_range [OF ph] v user_range_page by simp_all
  have "\<not> mapped"
  proof
    assume "mapped"
    then have "page_entry r v m3 = of_nat a OR seg_flags ph"
      using map(3) [OF range(2)] by simp
    moreover note entry_parts [OF map(5,6) seg_flags_parts(1) [of ph]]
    ultimately have "get_phys cpu v m3 = a"
      using get_phys_user [of cpu m3 v] map(1) attempt_root [OF inv map(2)] range low_flags(1) seg_flags_parts(2) [of ph]
      by (simp add: frame_of_def Let_def)
    then show False
      using m3(2) by simp
  qed
  then show ?thesis
    by (rule map(4))
qed

definition seg_pages :: "elf64_phdr \<Rightarrow> nat \<Rightarrow> nat \<Rightarrow> (elf64_phdr \<times> addr) set" where
  "seg_pages ph p n = (\<lambda>q. (ph, page_begin ph + q * PAGE_SIZE)) ` {p..<p + n}"

lemma seg_pages_step:
  assumes "seg_ok n ph" "loadable ph" and "\<forall>(q, w)\<in>L. \<forall>(q', v)\<in>seg_pages ph p (Suc k). v div 4096 \<noteq> w div 4096"
    and v: "v = page_begin ph + p * PAGE_SIZE"
  shows "\<forall>(q, w)\<in>L. v div 4096 \<noteq> w div 4096" "seg_pages ph p (Suc k) = insert (ph, v) (seg_pages ph (p + 1) k)"
    "\<forall>(q, w)\<in>insert (ph, v) L. \<forall>(q', u)\<in>seg_pages ph (p + 1) k. u div 4096 \<noteq> w div 4096"
proof -
  show pages: "seg_pages ph p (Suc k) = insert (ph, v) (seg_pages ph (p + 1) k)"
    by (auto simp: seg_pages_def v image_iff not_less_eq_eq Suc_le_eq le_less)
  show "\<forall>(q, w)\<in>L. v div 4096 \<noteq> w div 4096"
    using assms(3) unfolding pages by auto
  have base: "page_begin ph = page_begin ph div 4096 * 4096"
    using page_range(7) [OF assms(1,2)] by auto
  have "(page_begin ph + q * PAGE_SIZE) div 4096 = page_begin ph div 4096 + q" for q
    by (subst base) (simp add: PAGE_SIZE_def)
  then show "\<forall>(q, w)\<in>insert (ph, v) L. \<forall>(q', u)\<in>seg_pages ph (p + 1) k. u div 4096 \<noteq> w div 4096"
    using assms(3) unfolding pages by (auto simp: v seg_pages_def)
qed

lemma load_pages_ok:
  assumes "loading cpu r d L m" and "cpu < MAX_CPUS" and "seg_ok (length d) ph" "loadable ph" and "p + n \<le> pages_needed ph"
    and "\<forall>(q, w)\<in>L. \<forall>(q', v)\<in>seg_pages ph p n. v div 4096 \<noteq> w div 4096" and "load_pages n cpu d ph p m = (True, m')"
  shows "loading cpu r d (L \<union> seg_pages ph p n) m'"
  using assms
proof (induction n arbitrary: p L m)
  case 0
  then show ?case
    by (simp add: seg_pages_def)
next
  case (Suc n)
  define v where "v = page_begin ph + p * PAGE_SIZE"
  obtain a m1 where alloc: "alloc_frame cpu m = (a, m1)"
    by (rule prod.exhaust)
  define m3 where "m3 = vmm_map cpu v a (seg_flags ph) (fill d ph p a m1)"
  have "a \<noteq> 0 \<and> get_phys cpu v m3 = a \<and> load_pages n cpu d ph (p + 1) m3 = (True, m')"
    using Suc.prems(7) unfolding load_pages_Suc alloc Let_def v_def [symmetric] prod.case m3_def [symmetric]
    by (auto split: if_splits)
  then have run: "a \<noteq> 0" "get_phys cpu v m3 = a" "load_pages n cpu d ph (p + 1) m3 = (True, m')"
    by blast+
  have bound: "p < pages_needed ph"
    using Suc.prems(5) by simp
  note step = seg_pages_step [OF Suc.prems(3,4,6) v_def]
  from Suc.IH [OF load_page_step [OF Suc.prems(1-4) bound step(1) v_def alloc run(1) m3_def run(2)] Suc.prems(2-4) _ step(3) run(3)] Suc.prems(5)
  show ?case
    unfolding step(2) by simp
qed

lemma seg_pages_range:
  assumes "seg_ok n ph" "loadable ph" and "(q, w) \<in> seg_pages ph 0 (pages_needed ph)"
  shows "q = ph" "page_begin ph \<le> w" "w + 4096 \<le> page_end ph"
proof -
  obtain i where i: "i < pages_needed ph" "w = page_begin ph + i * 4096" "q = ph"
    using assms(3) by (auto simp: seg_pages_def PAGE_SIZE_def)
  then have "i * 4096 + 4096 \<le> pages_needed ph * 4096"
    by simp
  then show "q = ph" "page_begin ph \<le> w" "w + 4096 \<le> page_end ph"
    using i page_range(1) [OF assms(1,2)] by simp_all
qed

lemma seg_pages_separate:
  assumes ok: "seg_ok n ph" "loadable ph"
    and L: "\<forall>(q, w)\<in>L. \<forall>ph\<in>set (ph # phs). loadable ph \<longrightarrow> w + 4096 \<le> page_begin ph \<or> page_end ph \<le> w"
    and phs: "sorted_wrt apart (ph # phs)"
  shows "\<forall>(q, w)\<in>L. \<forall>(q', v)\<in>seg_pages ph 0 (pages_needed ph). v div 4096 \<noteq> w div 4096"
    "\<forall>(q, w)\<in>L \<union> seg_pages ph 0 (pages_needed ph). \<forall>ph\<in>set phs. loadable ph \<longrightarrow> w + 4096 \<le> page_begin ph \<or> page_end ph \<le> w"
proof -
  let ?P = "seg_pages ph 0 (pages_needed ph)"
  have "v div 4096 \<noteq> w div 4096" if "(q, w) \<in> L" "(q', v) \<in> ?P" for q w q' v
  proof -
    have "page_begin ph \<le> v" "v + 4096 \<le> page_end ph" "w + 4096 \<le> page_begin ph \<or> page_end ph \<le> w"
      using seg_pages_range [OF ok that(2)] L that(1) ok(2) by auto
    then have "w + 4096 \<le> v \<or> v + 4096 \<le> w"
      by linarith
    then show ?thesis
      by auto
  qed
  then show "\<forall>(q, w)\<in>L. \<forall>(q', v)\<in>?P. v div 4096 \<noteq> w div 4096"
    by auto
  show "\<forall>(q, w)\<in>L \<union> ?P. \<forall>ph\<in>set phs. loadable ph \<longrightarrow> w + 4096 \<le> page_begin ph \<or> page_end ph \<le> w"
    using L phs ok(2) seg_pages_range [OF ok] by (fastforce simp: apart_def)
qed

lemma load_segments_ok:
  assumes "loading cpu r d L m" and "cpu < MAX_CPUS" and "\<forall>ph\<in>set phs. loadable ph \<longrightarrow> seg_ok (length d) ph" and "sorted_wrt apart phs"
    and "\<forall>(q, w)\<in>L. \<forall>ph\<in>set phs. loadable ph \<longrightarrow> w + 4096 \<le> page_begin ph \<or> page_end ph \<le> w"
    and "load_segments cpu d phs m = (True, m')"
  shows "loading cpu r d (L \<union> (\<Union>ph\<in>{ph\<in>set phs. loadable ph}. seg_pages ph 0 (pages_needed ph))) m'"
  using assms
proof (induction phs arbitrary: L m)
  case (Cons ph phs)
  show ?case
  proof (cases "loadable ph")
    case False
    then have eq: "{q \<in> set (ph # phs). loadable q} = {q \<in> set phs. loadable q}"
      by auto
    have "\<forall>(q, w)\<in>L. \<forall>ph\<in>set phs. loadable ph \<longrightarrow> w + 4096 \<le> page_begin ph \<or> page_end ph \<le> w"
      using Cons.prems(5) by auto
    from Cons.IH [OF Cons.prems(1,2) _ _ this] show ?thesis
      unfolding eq using Cons.prems(3,4,6) False by simp
  next
    case True
    have ok: "seg_ok (length d) ph"
      using Cons.prems(3) True by simp
    obtain m1 where run: "load_pages (pages_needed ph) cpu d ph 0 m = (True, m1)" "load_segments cpu d phs m1 = (True, m')"
      using Cons.prems(6) True by (auto split: prod.splits if_splits)
    let ?P = "seg_pages ph 0 (pages_needed ph)"
    note sep = seg_pages_separate [OF ok True Cons.prems(5,4)]
    from Cons.IH [OF load_pages_ok [OF Cons.prems(1,2) ok True _ sep(1) run(1)] Cons.prems(2) _ _ sep(2) run(2)]
    have "loading cpu r d (L \<union> ?P \<union> (\<Union>ph\<in>{ph \<in> set phs. loadable ph}. seg_pages ph 0 (pages_needed ph))) m'"
      using Cons.prems(3,4) by simp
    moreover have "L \<union> ?P \<union> (\<Union>ph\<in>{ph \<in> set phs. loadable ph}. seg_pages ph 0 (pages_needed ph)) =
        L \<union> (\<Union>ph\<in>{q \<in> set (ph # phs). loadable q}. seg_pages ph 0 (pages_needed ph))"
      using True by auto
    ultimately show ?thesis
      by simp
  qed
qed simp

text \<open>No page can be had from the buddy allocator.\<close>

lemma free_frame_exhausted: "exhausted cpu s \<Longrightarrow> free_frames (g_buddy (pmm_free_page cpu a s)) = {#}"
  by (simp add: exhausted_def pmm_free_page_def PCPU_CACHE_SIZE_def Let_def)

lemma load_pages_fails:
  assumes "loading cpu r d L m" and "cpu < MAX_CPUS" and "seg_ok (length d) ph" "loadable ph" and "p + n \<le> pages_needed ph"
    and "\<forall>(q, w)\<in>L. \<forall>(q', v)\<in>seg_pages ph p n. v div 4096 \<noteq> w div 4096" and "load_pages n cpu d ph p m = (False, m')"
  shows "free_frames (g_buddy (phys m')) = {#}"
  using assms
proof (induction n arbitrary: p L m)
  case (Suc n)
  define v where "v = page_begin ph + p * PAGE_SIZE"
  obtain a m1 where alloc: "alloc_frame cpu m = (a, m1)"
    by (rule prod.exhaust)
  define m3 where "m3 = vmm_map cpu v a (seg_flags ph) (fill d ph p a m1)"
  have bound: "p < pages_needed ph"
    using Suc.prems(5) by simp
  consider "a = 0" "m' = m1" | "a \<noteq> 0" "get_phys cpu v m3 \<noteq> a" "m' = free_frame cpu a m3"
    | "a \<noteq> 0" "get_phys cpu v m3 = a" "load_pages n cpu d ph (p + 1) m3 = (False, m')"
    using Suc.prems(7) unfolding load_pages_Suc alloc Let_def v_def [symmetric] prod.case m3_def [symmetric]
    by (auto split: if_splits)
  then show ?case
  proof cases
    case 1
    then show ?thesis
      using alloc_frame_ok(5) [OF loadingD(1) [OF Suc.prems(1)] Suc.prems(2) alloc] by (simp add: exhausted_def)
  next
    case 2
    have "exhausted cpu (phys m3)"
      by (rule map_fails_exhausted [OF Suc.prems(1-4) bound v_def alloc 2(1) m3_def 2(2)])
    then show ?thesis
      using free_frame_exhausted 2(3) by (simp add: free_frame_def)
  next
    case 3
    note step = seg_pages_step [OF Suc.prems(3,4,6) v_def]
    show ?thesis
      using Suc.IH [OF load_page_step [OF Suc.prems(1-4) bound step(1) v_def alloc 3(1) m3_def 3(2)] Suc.prems(2-4) _ step(3) 3(3)]
        Suc.prems(5) by simp
  qed
qed simp

lemma load_segments_fails:
  assumes "loading cpu r d L m" and "cpu < MAX_CPUS" and "\<forall>ph\<in>set phs. loadable ph \<longrightarrow> seg_ok (length d) ph" and "sorted_wrt apart phs"
    and "\<forall>(q, w)\<in>L. \<forall>ph\<in>set phs. loadable ph \<longrightarrow> w + 4096 \<le> page_begin ph \<or> page_end ph \<le> w"
    and "load_segments cpu d phs m = (False, m')"
  shows "free_frames (g_buddy (phys m')) = {#}"
  using assms
proof (induction phs arbitrary: L m)
  case (Cons ph phs)
  show ?case
  proof (cases "loadable ph")
    case False
    have "\<forall>(q, w)\<in>L. \<forall>ph\<in>set phs. loadable ph \<longrightarrow> w + 4096 \<le> page_begin ph \<or> page_end ph \<le> w"
      using Cons.prems(5) by auto
    from Cons.IH [OF Cons.prems(1,2) _ _ this] show ?thesis
      using Cons.prems(3,4,6) False by simp
  next
    case True
    have ok: "seg_ok (length d) ph"
      using Cons.prems(3) True by simp
    note sep = seg_pages_separate [OF ok True Cons.prems(5,4)]
    obtain fine m1 where first: "load_pages (pages_needed ph) cpu d ph 0 m = (fine, m1)"
      by (rule prod.exhaust)
    show ?thesis
    proof (cases fine)
      case True
      then show ?thesis
        using Cons.IH [OF load_pages_ok [OF Cons.prems(1,2) ok \<open>loadable ph\<close> _ sep(1)] Cons.prems(2) _ _ sep(2)] first Cons.prems(3,4,6)
          \<open>loadable ph\<close> by simp
    next
      case False
      then show ?thesis
        using load_pages_fails [OF Cons.prems(1,2) ok True _ sep(1)] first Cons.prems(6) True by simp
    qed
  qed
qed simp

lemma loaded_image:
  assumes inv: "loading cpu r d (\<Union>ph\<in>{ph\<in>set phs. loadable ph}. seg_pages ph 0 (pages_needed ph)) m"
    and ok: "\<forall>ph\<in>set phs. loadable ph \<longrightarrow> seg_ok (length d) ph"
  shows "ph \<in> set phs \<Longrightarrow> loadable ph \<Longrightarrow> page_begin ph \<le> v \<Longrightarrow> v < page_end ph \<Longrightarrow>
      \<exists>f. page_entry r v m = of_nat f OR seg_flags ph \<and> f mod 4096 = 0 \<and> byte_at (f + v mod 4096) m = image_at d ph v"
    "user_range v 1 \<Longrightarrow> \<not> (\<exists>ph\<in>set phs. loadable ph \<and> page_begin ph \<le> v \<and> v < page_end ph) \<Longrightarrow> page_entry r v m = 0"
proof -
  let ?L = "\<Union>ph\<in>{ph\<in>set phs. loadable ph}. seg_pages ph 0 (pages_needed ph)"
  show "\<exists>f. page_entry r v m = of_nat f OR seg_flags ph \<and> f mod 4096 = 0 \<and> byte_at (f + v mod 4096) m = image_at d ph v"
    if ph: "ph \<in> set phs" "loadable ph" and v: "page_begin ph \<le> v" "v < page_end ph"
  proof -
    have seg: "seg_ok (length d) ph"
      using ok ph by blast
    define w where "w = v div 4096 * 4096"
    obtain b where b: "page_begin ph = b * 4096"
      using page_range(7) [OF seg ph(2)] by (metis mod_0_imp_dvd dvd_def mult.commute)
    have "v < (b + pages_needed ph) * 4096" "b * 4096 \<le> v"
      using v unfolding page_range(1) [OF seg ph(2)] b by (simp_all add: add_mult_distrib)
    then have "v div 4096 < b + pages_needed ph" "b \<le> v div 4096"
      by (simp_all add: less_mult_imp_div_less less_eq_div_iff_mult_less_eq)
    then have "v div 4096 = b + (v div 4096 - b)" "v div 4096 - b < pages_needed ph"
      by simp_all
    then have "w = page_begin ph + (v div 4096 - b) * PAGE_SIZE" "v div 4096 - b < pages_needed ph"
      unfolding w_def b PAGE_SIZE_def by (metis add_mult_distrib, blast)
    then have mem: "(ph, w) \<in> ?L"
      using ph by (auto simp: seg_pages_def)
    obtain f where f: "page_entry r w m = of_nat f OR seg_flags ph" "f mod 4096 = 0" "\<forall>k<4096. byte_at (f + k) m = image_at d ph (w + k)"
      using loadingD(7) [OF inv mem] by (auto simp: page_loaded_def)
    have "user_range w 1" "user_range v 1"
      using user_range_page [OF loadingD(5) [OF inv mem]] page_range(2,3) [OF seg ph(2)] v by (auto simp: user_range_def)
    then have "page_entry r v m = page_entry r w m"
      using same_page [of v w] by (simp add: page_entry_def w_def)
    moreover have "w + v mod 4096 = v"
      by (simp add: w_def)
    ultimately show ?thesis
      using f by (intro exI [of _ f]) (metis mod_less_divisor zero_less_numeral)
  qed
  show "page_entry r v m = 0" if v: "user_range v 1" "\<not> (\<exists>ph\<in>set phs. loadable ph \<and> page_begin ph \<le> v \<and> v < page_end ph)"
  proof (rule loadingD(8) [OF inv v(1)])
    have "v div 4096 \<noteq> w div 4096" if "(q, w) \<in> ?L" for q w
    proof
      assume eq: "v div 4096 = w div 4096"
      obtain ph where ph: "ph \<in> set phs" "loadable ph" "(q, w) \<in> seg_pages ph 0 (pages_needed ph)"
        using \<open>(q, w) \<in> ?L\<close> by blast
      have "w = w div 4096 * 4096"
        using loadingD(6) [OF inv \<open>(q, w) \<in> ?L\<close>] by auto
      then have "w \<le> v" "v < w + 4096"
        using eq div_mult_mod_eq [of v 4096] mod_less_divisor [of 4096 v] by linarith+
      then show False
        using v(2) ph seg_pages_range [OF _ ph(2,3)] ok by force
    qed
    then show "\<forall>(q, w)\<in>?L. v div 4096 \<noteq> w div 4096"
      by blast
  qed
qed

section \<open>Properties\<close>

text \<open>C36. A file that passes \<open>validate\<close> is safe to load: its program headers lie within the file; every loadable
  segment takes its bytes from the file, lies within the user part of the address space without wrapping
  around, and is never both writable and executable; no two of them share a page; and the entry point lies
  in the file bytes of an executable segment.\<close>

theorem elf_validate_safe:
  assumes "elf_validate (Some d) arch"
  shows "e_phoff (read_ehdr d) + e_phnum (read_ehdr d) * SIZEOF_PHDR \<le> length d \<and> e_machine (read_ehdr d) = arch \<and>
    (\<forall>p\<in>set (read_phdrs d). loadable p \<longrightarrow>
       p_filesz p \<le> p_memsz p \<and> p_offset p + p_filesz p \<le> length d \<and>
       USER_BEGIN \<le> p_vaddr p \<and> p_vaddr p + p_memsz p \<le> USER_END \<and> \<not> (p_flags p AND 1 \<noteq> 0 \<and> p_flags p AND 2 \<noteq> 0)) \<and>
    (\<forall>i j. i < j \<and> j < length (read_phdrs d) \<and> loadable (read_phdrs d ! i) \<and> loadable (read_phdrs d ! j) \<longrightarrow>
       page_end (read_phdrs d ! i) \<le> page_begin (read_phdrs d ! j) \<or> page_end (read_phdrs d ! j) \<le> page_begin (read_phdrs d ! i)) \<and>
    (\<exists>p\<in>set (read_phdrs d). loadable p \<and> p_flags p AND 1 \<noteq> 0 \<and>
       p_vaddr p \<le> e_entry (read_ehdr d) \<and> e_entry (read_ehdr d) < p_vaddr p + p_filesz p)"
proof -
  note v = validated [OF assms]
  let ?h = "read_ehdr d"
  have ehdr: "e_phoff ?h \<le> length d" "e_phnum ?h \<le> (length d - e_phoff ?h) div SIZEOF_PHDR" "e_machine ?h = arch"
    using v(4) unfolding ehdr_ok_def Let_def by simp_all
  have "e_phnum ?h * SIZEOF_PHDR \<le> length d - e_phoff ?h"
    using ehdr(2) by (simp add: less_eq_div_iff_mult_less_eq SIZEOF_PHDR_def)
  then have "e_phoff ?h + e_phnum ?h * SIZEOF_PHDR \<le> length d"
    using ehdr(1) by simp
  moreover have "apart (read_phdrs d ! i) (read_phdrs d ! j)" if "i < j" "j < length (read_phdrs d)" for i j
    using sorted_wrt_nth_less [OF v(2) that] .
  ultimately show ?thesis
    using v(1,3) ehdr(3) by (auto simp: seg_ok_def apart_def entry_in_def)
qed

definition demo_elf :: "8 word list" where
  "demo_elf =
    [0x7F, 0x45, 0x4C, 0x46, 2, 1, 1, 0, 0, 0, 0, 0, 0, 0, 0, 0, 2, 0, 0x3E, 0, 1, 0, 0, 0, 0x78, 0, 0, 0, 0x80, 0, 0, 0,
     64, 0, 0, 0, 0, 0, 0, 0, 0, 0, 0, 0, 0, 0, 0, 0, 0, 0, 0, 0, 64, 0, 56, 0, 1, 0, 0, 0, 0, 0, 0, 0,
     1, 0, 0, 0, 5, 0, 0, 0, 0, 0, 0, 0, 0, 0, 0, 0, 0, 0, 0, 0, 0x80, 0, 0, 0, 0, 0, 0, 0, 0, 0, 0, 0,
     124, 0, 0, 0, 0, 0, 0, 0, 0, 0x20, 0, 0, 0, 0, 0, 0, 0, 0x10, 0, 0, 0, 0, 0, 0, 0x90, 0x90, 0x90, 0xC3]"

definition demo_phdr :: elf64_phdr where
  "demo_phdr = \<lparr>p_type = 1, p_flags = 5, p_offset = 0, p_vaddr = 0x8000000000, p_paddr = 0, p_filesz = 124, p_memsz = 0x2000, p_align = 0x1000\<rparr>"

lemma demo_elf_parts: "read_phdrs demo_elf = [demo_phdr]" "e_entry (read_ehdr demo_elf) = 0x8000000078" "length demo_elf = 124"
  "ehdr_ok demo_elf 62"
  by (simp_all add: demo_elf_def read_phdrs_def read_phdr_def read_ehdr_def field_def demo_phdr_def SIZEOF_PHDR_def SIZEOF_EHDR_def
    ehdr_ok_def ELFMAG_def)

lemma demo_elf_valid: "elf_validate (Some demo_elf) 62"
proof -
  have "validate_loop 124 0x8000000078 [] [demo_phdr] False"
    by (simp add: demo_phdr_def seg_rejected_def seg_misaligned_def overlaps_earlier_def USER_BEGIN_def USER_END_def PT_LOAD_def)
  then show ?thesis
    by (simp add: elf_validate_def demo_elf_parts SIZEOF_EHDR_def)
qed

theorem elf_validate_safe_witness:
  "elf_validate (Some demo_elf) 62 \<and> p_vaddr demo_phdr + p_memsz demo_phdr \<le> USER_END \<and>
    e_phoff (read_ehdr demo_elf) + e_phnum (read_ehdr demo_elf) * SIZEOF_PHDR \<le> length demo_elf"
proof -
  have "loadable demo_phdr"
    by (simp add: loadable_def demo_phdr_def PT_LOAD_def)
  then show ?thesis
    using elf_validate_safe [OF demo_elf_valid] demo_elf_valid by (simp add: demo_elf_parts(1))
qed

text \<open>C35. Loading a valid file into a new address space either fails because the buddy allocator has no frame left, or returns
  the entry point and leaves exactly the image there: every page of a segment is mapped with the
  permissions of the segment and holds the file bytes, with zeros before and after them, and no other user
  page is mapped.  The caller's address space is active again in either case.\<close>

theorem elf_load_image:
  assumes "elf_validate (Some d) 62" and "frames_ok m" and "tree_ok r m" and "cpu < MAX_CPUS" and "r \<noteq> 0" and "r mod 4096 = 0"
    and "\<forall>v. user_range v 1 \<longrightarrow> page_entry r v m = 0" and "elf_load cpu r (Some d) m = (entry, m')"
  shows "cr3 m' cpu = cr3 m cpu \<and>
    (entry = 0 \<and> free_frames (g_buddy (phys m')) = {#} \<or>
     entry = e_entry (read_ehdr d) \<and> USER_BEGIN \<le> entry \<and>
     (\<forall>ph v. ph \<in> set (read_phdrs d) \<and> loadable ph \<and> page_begin ph \<le> v \<and> v < page_end ph \<longrightarrow>
        (\<exists>f. page_entry r v m' = of_nat f OR seg_flags ph \<and> f mod 4096 = 0 \<and> byte_at (f + v mod 4096) m' = image_at d ph v)) \<and>
     (\<forall>v. user_range v 1 \<and> \<not> (\<exists>ph\<in>set (read_phdrs d). loadable ph \<and> page_begin ph \<le> v \<and> v < page_end ph) \<longrightarrow>
        page_entry r v m' = 0))"
proof -
  note valid = validated [OF assms(1)]
  obtain fine m1 where run: "load_segments cpu d (read_phdrs d) (vmm_switch_to cpu r m) = (fine, m1)"
    by (rule prod.exhaust)
  have res: "entry = (if fine then e_entry (read_ehdr d) else 0)" "m' = vmm_switch_to cpu (cr3 m cpu) m1"
    using assms(1,5,8) run by (simp_all add: elf_load_def get_active_page_table_def)
  have switch: "tree_ok r (vmm_switch_to cpu x n) = tree_ok r n" "page_entry r v (vmm_switch_to cpu x n) = page_entry r v n"
      "byte_at a (vmm_switch_to cpu x n) = byte_at a n" "frames_ok (vmm_switch_to cpu x n) = frames_ok n" for x n v a
    by (simp_all add: tree_ok_def page_entry_def entry_at_def byte_at_def frames_ok_def vmm_switch_to_def walk_cong [of "n\<lparr>cr3 := _, roots := _\<rparr>" n]
      split: option.split)
  have start: "loading cpu r d {} (vmm_switch_to cpu r m)"
    unfolding loading_def switch using assms(2,3,6,7) by (simp add: vmm_switch_to_def)
  have cr3: "cr3 m' cpu = cr3 m cpu"
    by (simp add: res(2) vmm_switch_to_def)
  show ?thesis
  proof (cases fine)
    case False
    then have "load_segments cpu d (read_phdrs d) (vmm_switch_to cpu r m) = (False, m1)"
      using run by simp
    then have "free_frames (g_buddy (phys m1)) = {#}"
      using load_segments_fails [OF start assms(4) valid(1,2)] by blast
    then show ?thesis
      using cr3 res False by (simp add: vmm_switch_to_def)
  next
    case True
    then have "load_segments cpu d (read_phdrs d) (vmm_switch_to cpu r m) = (True, m1)"
      using run by simp
    then have "loading cpu r d ({} \<union> (\<Union>ph\<in>{ph\<in>set (read_phdrs d). loadable ph}. seg_pages ph 0 (pages_needed ph))) m1"
      using load_segments_ok [OF start assms(4) valid(1,2)] by blast
    note image = loaded_image [OF this [unfolded Un_empty_left] valid(1)]
    obtain p where "p \<in> set (read_phdrs d)" "entry_in (e_entry (read_ehdr d)) p"
      using valid(3) by blast
    then have "USER_BEGIN \<le> e_entry (read_ehdr d)"
      using valid(1) by (auto simp: entry_in_def seg_ok_def)
    then show ?thesis
      using cr3 res True image unfolding res(2) switch by auto
  qed
qed

definition blank_machine :: machine where
  "blank_machine = demo_machine\<lparr>mem := (\<lambda>_ _. 0)\<rparr>"

lemma blank_walk: "walk blank_machine r p = (if p = [] then Some r else None)"
  by (cases p) (simp_all add: blank_machine_def)

lemma blank_machine_ok: "frames_ok blank_machine" "tree_ok 0x100000 blank_machine" "page_entry r v blank_machine = 0"
proof -
  have inv: "pmm_inv (phys blank_machine)" "pmm_arena (phys blank_machine) \<subseteq> {2..<8}"
    using small_machine_inv small_machine_arena by (simp_all add: blank_machine_def demo_machine_def)
  then show "frames_ok blank_machine"
    by (auto simp: frames_ok_def)
  have "0x100 \<notin># pmm_frames (phys blank_machine)"
    using inv pmm_pages.avail_distinct [OF inv(1)] by auto
  then show "tree_ok 0x100000 blank_machine"
    by (auto simp: tree_ok_def blank_walk split: if_splits) (simp_all add: blank_machine_def)
  show "page_entry r v blank_machine = 0"
    by (simp add: page_entry_def entry_at_def blank_walk page_path_def del: walk.simps)
qed

theorem elf_load_image_witness:
  "\<exists>entry m'. elf_load 0 0x100000 (Some demo_elf) blank_machine = (entry, m') \<and>
    (free_frames (g_buddy (phys m')) = {#} \<or>
     entry = 0x8000000078 \<and> (\<exists>f. page_entry 0x100000 0x8000000078 m' = of_nat f OR seg_flags demo_phdr \<and> byte_at (f + 0x78) m' = 0x90))"
proof -
  obtain entry m' where run: "elf_load 0 0x100000 (Some demo_elf) blank_machine = (entry, m')"
    by (rule prod.exhaust)
  have phdr: "loadable demo_phdr" "page_begin demo_phdr \<le> 0x8000000078" "0x8000000078 < page_end demo_phdr"
      "demo_phdr \<in> set (read_phdrs demo_elf)"
    by (simp_all add: loadable_def demo_phdr_def PT_LOAD_def page_begin_def page_end_def wadd_def demo_elf_parts(1))
  have byte: "image_at demo_elf demo_phdr 0x8000000078 = 0x90"
    by (simp add: image_at_def demo_phdr_def) (simp add: demo_elf_def)
  have pre: "0 < MAX_CPUS" "(0x100000 :: nat) \<noteq> 0" "(0x100000 :: nat) mod 4096 = 0" "\<forall>v. user_range v 1 \<longrightarrow> page_entry 0x100000 v blank_machine = 0"
    using blank_machine_ok(3) by (simp_all add: MAX_CPUS_def)
  have "entry = 0 \<and> free_frames (g_buddy (phys m')) = {#} \<or>
     entry = 0x8000000078 \<and> (\<exists>f. page_entry 0x100000 0x8000000078 m' = of_nat f OR seg_flags demo_phdr \<and> f mod 4096 = 0 \<and>
       byte_at (f + 0x8000000078 mod 4096) m' = image_at demo_elf demo_phdr 0x8000000078)"
    using elf_load_image [OF demo_elf_valid blank_machine_ok(1,2) pre run] phdr unfolding demo_elf_parts(2) by blast
  then show ?thesis
    using run unfolding byte by auto
qed

end
