(* ===== verification/Threads.thy ===== *)
theory Threads
  imports Dispatch "HOL-Library.Word"
begin

text \<open>Threads as the rest of the kernel sees them (\<open>struct thread\<close> of src/src/include/kernel/scheduler/scheduler.hpp):
  the global thread list, interruptible waits and wake-ups (scheduler.cpp), credentials
  (src/src/kernel/process/credentials.cpp) and the posting of signals (signal.cpp).  A thread is named by
  its address.  Run queues are the business of \<open>Dispatch\<close>; here a wake-up is its effect on the state of the
  thread, which \<open>enqueue_wakes\<close> takes from there.  The lists that the source threads through
  \<open>send_queue_next\<close>, \<open>next_sleeper\<close> and \<open>all_next\<close> are sequences.  Reference counts (\<open>pins\<close>) do not wrap: each
  pin belongs to a thread.\<close>

unbundle bit_operations_syntax

section \<open>Credentials\<close>

record credentials =
  ruid :: nat
  euid :: nat
  suid :: nat
  rgid :: nat
  egid :: nat
  sgid :: nat
  sid :: nat
  pgid :: nat
  capabilities :: "32 word"

definition ROOT_UID :: nat where
  "ROOT_UID = 0"

definition ROOT_GID :: nat where
  "ROOT_GID = 0"

definition CAP_SPAWN_AS :: "32 word" where
  "CAP_SPAWN_AS = 1"

definition CAP_DISPLAY_ADMIN :: "32 word" where
  "CAP_DISPLAY_ADMIN = 2"

definition CAP_INPUT_ADMIN :: "32 word" where
  "CAP_INPUT_ADMIN = 4"

definition CAP_SESSION_ADMIN :: "32 word" where
  "CAP_SESSION_ADMIN = 8"

definition CAP_POWER :: "32 word" where
  "CAP_POWER = 16"

definition CAP_RAW_IO :: "32 word" where
  "CAP_RAW_IO = 32"

definition ROOT_CAPABILITIES :: "32 word" where
  "ROOT_CAPABILITIES = CAP_SPAWN_AS OR CAP_DISPLAY_ADMIN OR CAP_INPUT_ADMIN OR CAP_SESSION_ADMIN OR CAP_POWER"

definition has_capability :: "credentials \<Rightarrow> 32 word \<Rightarrow> bool" where
  "has_capability c cap \<longleftrightarrow> cap \<noteq> 0 \<and> capabilities c AND cap = cap"

definition may_signal :: "credentials \<Rightarrow> nat \<Rightarrow> credentials \<Rightarrow> nat \<Rightarrow> bool" where
  "may_signal caller caller_tid target target_tid \<longleftrightarrow>
     (if caller_tid = target_tid then True
      else if euid caller = ROOT_UID then True
      else euid caller = ruid target \<or> euid caller = euid target)"

definition may_ipc :: "credentials \<Rightarrow> credentials \<Rightarrow> bool" where
  "may_ipc caller target \<longleftrightarrow> euid caller = ROOT_UID \<or> euid target = ROOT_UID \<or> euid caller = euid target"

definition root_credentials :: "nat \<Rightarrow> nat \<Rightarrow> credentials" where
  "root_credentials s p =
    \<lparr>ruid = ROOT_UID, euid = ROOT_UID, suid = ROOT_UID, rgid = ROOT_GID, egid = ROOT_GID, sgid = ROOT_GID,
     sid = s, pgid = p, capabilities = ROOT_CAPABILITIES\<rparr>"

section \<open>State\<close>

type_synonym ptr = nat

datatype ipc_wait_kind = ipc_none | legacy_send | legacy_receive | call | receive_call

record message =
  m_sender :: nat
  m_type :: "32 word"
  m_data :: "64 word list"

record fast_msg =
  f_type :: "64 word"
  f_d0 :: "64 word"
  f_d1 :: "64 word"
  f_d2 :: "64 word"

record tcb =
  t_tid :: nat
  t_state :: thread_state
  t_pml4 :: nat
  t_creds :: credentials
  t_queue :: "ptr list"
  t_queued_msg :: message
  t_has_queued_msg :: bool
  t_caller :: "ptr option"
  t_regs :: "nat \<Rightarrow> 64 word"
  t_waiting :: bool
  t_async_queue :: "nat \<Rightarrow> message"
  t_async_head :: nat
  t_async_tail :: nat
  t_user_entry :: nat
  t_sig_handlers :: "nat \<Rightarrow> nat"
  t_sig_restorers :: "nat \<Rightarrow> nat"
  t_sig_mask :: "32 word"
  t_sig_pending :: "32 word"
  t_exit_code :: int
  t_exited :: bool
  t_process_id :: nat
  t_parent_tid :: nat
  t_wait_target :: int
  t_waiting_for_child :: bool
  t_wake_tick :: nat
  t_interruptible :: bool
  t_pins :: nat
  t_closed :: bool
  t_kind :: ipc_wait_kind
  t_peer :: "ptr option"
  t_queue_count :: nat
  t_result :: int
  t_reply_cancelled :: bool

text \<open>The payload of a request that is being submitted.\<close>

datatype request = Legacy message | Fixed fast_msg

text \<open>Where a thread is: in user mode or in kernel code without a wait, between taking a pin on a peer
  and entering the IPC lock, asleep in one of the waits, at the head of the loop of a wait, or between the release
  of its resources and the publication of its end.\<close>

datatype cont =
    Running_user
  | Sending ptr request
  | Sending_async ptr message
  | Submitted
  | Receiving
  | Receive_sleep
  | Accepting
  | Accept_sleep
  | Wait_child int int
  | Child_sleep int int
  | Tick_sleep
  | Irq_sleep nat
  | Event_sleep
  | Other_sleep
  | Exiting int

record kernel =
  tcbs :: "ptr \<Rightarrow> tcb"
  all_threads :: "ptr list"
  next_tid :: nat
  sleepers :: "ptr list"
  irq_waiters :: "nat \<Rightarrow> ptr option"
  conts :: "ptr \<Rightarrow> cont"

definition upd :: "ptr \<Rightarrow> (tcb \<Rightarrow> tcb) \<Rightarrow> kernel \<Rightarrow> kernel" where
  "upd t f s = s\<lparr>tcbs := (tcbs s)(t := f (tcbs s t))\<rparr>"

definition goto :: "ptr \<Rightarrow> cont \<Rightarrow> kernel \<Rightarrow> kernel" where
  "goto t k s = s\<lparr>conts := (conts s)(t := k)\<rparr>"

lemma tcb_upd_sel [simp]:
  "tcbs (upd t f s) = (tcbs s)(t := f (tcbs s t))" "all_threads (upd t f s) = all_threads s"
  "next_tid (upd t f s) = next_tid s" "sleepers (upd t f s) = sleepers s" "irq_waiters (upd t f s) = irq_waiters s"
  "conts (upd t f s) = conts s"
  by (simp_all add: upd_def)

lemma goto_sel [simp]:
  "tcbs (goto t k s) = tcbs s" "all_threads (goto t k s) = all_threads s" "next_tid (goto t k s) = next_tid s"
  "sleepers (goto t k s) = sleepers s" "irq_waiters (goto t k s) = irq_waiters s" "conts (goto t k s) = (conts s)(t := k)"
  by (simp_all add: goto_def)

section \<open>Thread list\<close>

definition find_thread :: "nat \<Rightarrow> kernel \<Rightarrow> ptr option" where
  "find_thread tid s = find (\<lambda>t. t_tid (tcbs s t) = tid) (all_threads s)"

definition pin :: "ptr \<Rightarrow> kernel \<Rightarrow> kernel" where
  "pin t = upd t (\<lambda>r. r\<lparr>t_pins := t_pins r + 1\<rparr>)"

definition unpin :: "ptr \<Rightarrow> kernel \<Rightarrow> kernel" where
  "unpin t = upd t (\<lambda>r. r\<lparr>t_pins := t_pins r - 1\<rparr>)"

definition pin_thread :: "nat \<Rightarrow> kernel \<Rightarrow> ptr option \<times> kernel" where
  "pin_thread tid s =
    (case find_thread tid s of
       None \<Rightarrow> (None, s)
     | Some t \<Rightarrow>
         if t_state (tcbs s t) = TERMINATED \<or> t_closed (tcbs s t) then (None, s) else (Some t, pin t s))"

definition ipc_send_allowed :: "ptr \<Rightarrow> nat \<Rightarrow> kernel \<Rightarrow> bool \<times> kernel" where
  "ipc_send_allowed caller tid s =
    (case pin_thread tid s of
       (None, s) \<Rightarrow> (True, s)
     | (Some target, s) \<Rightarrow> (may_ipc (t_creds (tcbs s caller)) (t_creds (tcbs s target)), unpin target s))"

section \<open>Waits and wake-ups\<close>

definition KILL_BIT :: "32 word" where
  "KILL_BIT = push_bit 9 1"

definition TERM_BIT :: "32 word" where
  "TERM_BIT = push_bit 15 1"

definition fatal_signal_pending :: "tcb \<Rightarrow> bool" where
  "fatal_signal_pending r \<longleftrightarrow> t_sig_pending r AND (KILL_BIT OR TERM_BIT) AND NOT (t_sig_mask r AND NOT KILL_BIT) \<noteq> 0"

definition begin_interruptible_wait :: "ptr \<Rightarrow> kernel \<Rightarrow> bool \<times> kernel" where
  "begin_interruptible_wait t s =
    (if fatal_signal_pending (tcbs s t) then (False, s)
     else (True, upd t (\<lambda>r. r\<lparr>t_interruptible := True, t_state := BLOCKED\<rparr>) s))"

definition end_interruptible_wait :: "ptr \<Rightarrow> kernel \<Rightarrow> kernel" where
  "end_interruptible_wait t = upd t (\<lambda>r. r\<lparr>t_interruptible := False\<rparr>)"

text \<open>The state of a thread after it has been handed to the dispatcher.\<close>

fun woken :: "thread_state \<Rightarrow> thread_state" where
  "woken BLOCKED = READY"
| "woken READY = READY"
| "woken RUNNING = RUNNING"
| "woken TERMINATED = TERMINATED"

definition add_thread :: "ptr \<Rightarrow> kernel \<Rightarrow> kernel" where
  "add_thread t = upd t (\<lambda>r. r\<lparr>t_state := woken (t_state r)\<rparr>)"

definition unblock :: "ptr \<Rightarrow> kernel \<Rightarrow> kernel" where
  "unblock t s =
    (if t_state (tcbs s t) = TERMINATED then s
     else if t_interruptible (tcbs s t) \<and> t_state (tcbs s t) \<noteq> BLOCKED then s
     else add_thread t s)"

section \<open>Signals\<close>

definition MAX_SIGNALS :: int where
  "MAX_SIGNALS = 32"

definition SIGKILL_VAL :: int where
  "SIGKILL_VAL = 9"

definition SIGTERM_VAL :: int where
  "SIGTERM_VAL = 15"

definition SIG_IGN_VAL :: nat where
  "SIG_IGN_VAL = 1"

text \<open>A request of \<open>sigaction\<close>: the handler and the restorer of the new action.\<close>

definition sys_sigaction :: "ptr \<Rightarrow> int \<Rightarrow> (nat \<times> nat) option \<Rightarrow> kernel \<Rightarrow> int \<times> nat \<times> kernel" where
  "sys_sigaction t signum act s =
    (let old = t_sig_handlers (tcbs s t) (nat signum) in
     if signum < 1 \<or> signum \<ge> MAX_SIGNALS then (-1, 0, s)
     else if signum = 9 \<or> signum = 19 then (-1, 0, s)
     else
       case act of
         None \<Rightarrow> (0, old, s)
       | Some (handler, restorer) \<Rightarrow>
           (0, old, upd t (\<lambda>r. r\<lparr>t_sig_handlers := (t_sig_handlers r)(nat signum := handler),
                                  t_sig_restorers := (t_sig_restorers r)(nat signum := restorer)\<rparr>) s))"

definition post_signal :: "ptr \<Rightarrow> int \<Rightarrow> kernel \<Rightarrow> int \<times> kernel" where
  "post_signal t sig s =
    (if sig < 0 \<or> sig \<ge> MAX_SIGNALS then (-22, s)
     else if t_state (tcbs s t) = TERMINATED then (-3, s)
     else if sig = 0 then (0, s)
     else if (sig = SIGKILL_VAL \<or> sig = SIGTERM_VAL) \<and> t_user_entry (tcbs s t) = 0 then (-1, s)
     else if sig \<noteq> SIGKILL_VAL \<and> t_sig_handlers (tcbs s t) (nat sig) = SIG_IGN_VAL then (0, s)
     else
       let s = upd t (\<lambda>r. r\<lparr>t_sig_pending := t_sig_pending r OR push_bit (nat sig) 1\<rparr>) s
       in (0, if fatal_signal_pending (tcbs s t) \<and> t_interruptible (tcbs s t) \<and> t_state (tcbs s t) = BLOCKED
              then add_thread t s else s))"

definition to_uint32 :: "int \<Rightarrow> nat" where
  "to_uint32 i = nat (i mod 2 ^ 32)"

definition signal_thread :: "ptr \<Rightarrow> int \<Rightarrow> int \<Rightarrow> kernel \<Rightarrow> int \<times> kernel" where
  "signal_thread sender pid sig s =
    (case (if pid = 0 \<or> to_uint32 pid = t_tid (tcbs s sender) then Some sender else find_thread (to_uint32 pid) s) of
       None \<Rightarrow> (-3, s)
     | Some target \<Rightarrow>
         if t_state (tcbs s target) = TERMINATED then (-3, s)
         else if \<not> may_signal (t_creds (tcbs s sender)) (t_tid (tcbs s sender)) (t_creds (tcbs s target)) (t_tid (tcbs s target))
         then (-1, s)
         else post_signal target sig s)"

definition sys_kill :: "ptr \<Rightarrow> int \<Rightarrow> int \<Rightarrow> kernel \<Rightarrow> int \<times> kernel" where
  "sys_kill sender pid sig s = (if sig < 0 \<or> sig \<ge> MAX_SIGNALS then (-1, s) else signal_thread sender pid sig s)"

definition sys_sigprocmask :: "ptr \<Rightarrow> int \<Rightarrow> 32 word option \<Rightarrow> kernel \<Rightarrow> int \<times> 32 word \<times> kernel" where
  "sys_sigprocmask t how new_set s =
    (let old = t_sig_mask (tcbs s t) in
     case new_set of
       None \<Rightarrow> (0, old, s)
     | Some m \<Rightarrow>
         if how = 0 \<or> how = 1 \<or> how = 2 then
           let new = (if how = 0 then old OR m else if how = 1 then old AND NOT m else m)
           in (0, old, upd t (\<lambda>r. r\<lparr>t_sig_mask := new AND NOT (push_bit 9 1 OR push_bit 19 1)\<rparr>) s)
         else (-1, old, s))"

section \<open>Facts\<close>

text \<open>The dispatcher gives a thread the state that \<open>woken\<close> says.\<close>

lemma enqueue_wakes: "th_state (threads (enqueue t d) t) = woken (th_state (threads d t))"
  by (cases "th_state (threads d t)") (auto simp: enqueue_def Let_def queue_locked_sel)

lemma find_threadD: "find_thread i s = Some t \<Longrightarrow> t \<in> set (all_threads s) \<and> t_tid (tcbs s t) = i"
  by (auto simp: find_thread_def find_Some_iff)

lemma unblock_sel [simp]:
  "all_threads (unblock t s) = all_threads s" "conts (unblock t s) = conts s" "next_tid (unblock t s) = next_tid s"
  "sleepers (unblock t s) = sleepers s" "irq_waiters (unblock t s) = irq_waiters s"
  by (simp_all add: unblock_def add_thread_def)

lemma unblock_tcbs: "tcbs (unblock t s) = (tcbs s)(t := (tcbs s t)\<lparr>t_state := woken (t_state (tcbs s t))\<rparr>)"
  by (cases "t_state (tcbs s t)") (auto simp: unblock_def add_thread_def fun_eq_iff)

text \<open>Whatever a thread blocks, a kill signal stays fatal.\<close>

lemma kill_fatal: "bit (t_sig_pending r) 9 \<Longrightarrow> fatal_signal_pending r"
proof -
  have k: "bit KILL_BIT n \<longleftrightarrow> n = 9" for n
    unfolding KILL_BIT_def by (auto simp only: bit_push_bit_iff bit_1_iff) simp_all
  assume "bit (t_sig_pending r) 9"
  then have "bit (t_sig_pending r AND (KILL_BIT OR TERM_BIT) AND NOT (t_sig_mask r AND NOT KILL_BIT)) 9"
    by (simp add: bit_simps k)
  then show ?thesis
    unfolding fatal_signal_pending_def by (metis bit_0_eq bot_apply bot_bool_def)
qed

end
