(* ===== verification/Ipc.thy ===== *)
theory Ipc
  imports Threads
begin

text \<open>Message passing between threads (src/src/kernel/ipc/ipc.cpp): synchronous sends, calls with a reply,
  and asynchronous messages.  Each critical section under the IPC lock is one function.  It either returns
  to the caller or leaves the thread at a point of its kernel code (\<open>cont\<close>), from where it goes on when it
  is dispatched again.  The two loops that complete requests until none is left carry fuel for as many
  rounds as there are requests; \<open>first_request_ends\<close> and \<open>detach_thread_ends\<close> show that this is enough.\<close>

section \<open>Operations\<close>

definition PENDING :: int where
  "PENDING = -115"

definition MAX_PENDING_REQUESTS :: nat where
  "MAX_PENDING_REQUESTS = 64"

definition ASYNC_QUEUE_SIZE :: nat where
  "ASYNC_QUEUE_SIZE = 16"

datatype outcome = Return int | Return_msg message | Return_words fast_msg | Return_child nat int | Next cont

definition ipc_shut :: "ptr \<Rightarrow> kernel \<Rightarrow> bool" where
  "ipc_shut t s \<longleftrightarrow> t_closed (tcbs s t) \<or> t_state (tcbs s t) = TERMINATED"

definition copy_regs :: "tcb \<Rightarrow> fast_msg" where
  "copy_regs r = \<lparr>f_type = t_regs r 0, f_d0 = t_regs r 1, f_d1 = t_regs r 2, f_d2 = t_regs r 3\<rparr>"

definition save_regs :: "fast_msg \<Rightarrow> tcb \<Rightarrow> tcb" where
  "save_regs m r = r\<lparr>t_regs := (t_regs r)(0 := f_type m, 1 := f_d0 m, 2 := f_d1 m, 3 := f_d2 m)\<rparr>"

definition unlink_request :: "ptr \<Rightarrow> ptr \<Rightarrow> kernel \<Rightarrow> kernel" where
  "unlink_request peer sender s =
    (if sender \<in> set (t_queue (tcbs s peer))
     then upd peer (\<lambda>r. r\<lparr>t_queue := remove1 sender (t_queue r), t_queue_count := t_queue_count r - 1\<rparr>) s
     else s)"

definition complete :: "ptr \<Rightarrow> int \<Rightarrow> bool \<Rightarrow> kernel \<Rightarrow> kernel" where
  "complete sender result cancelled s =
    (case t_peer (tcbs s sender) of
       None \<Rightarrow> s
     | Some peer \<Rightarrow>
         let s = (if t_caller (tcbs s peer) = Some sender then
                    let s = upd peer (\<lambda>r. r\<lparr>t_caller := None\<rparr>) s
                    in if cancelled \<and> \<not> ipc_shut peer s then upd peer (\<lambda>r. r\<lparr>t_reply_cancelled := True\<rparr>) s else s
                  else unlink_request peer sender s);
             s = upd sender (\<lambda>r. r\<lparr>t_peer := None, t_has_queued_msg := False, t_result := result\<rparr>) s;
             s = unblock sender s;
             s = unpin peer s
         in unpin sender s)"

fun first_request_loop :: "nat \<Rightarrow> ptr \<Rightarrow> ipc_wait_kind \<Rightarrow> kernel \<Rightarrow> (ptr option \<times> kernel) option" where
  "first_request_loop 0 receiver kind s = None"
| "first_request_loop (Suc n) receiver kind s =
    (case find (\<lambda>u. t_kind (tcbs s u) = kind) (t_queue (tcbs s receiver)) of
       None \<Rightarrow> Some (None, s)
     | Some sender \<Rightarrow>
         if \<not> fatal_signal_pending (tcbs s sender) then Some (Some sender, s)
         else first_request_loop n receiver kind (complete sender (-4) True s))"

definition first_request :: "ptr \<Rightarrow> ipc_wait_kind \<Rightarrow> kernel \<Rightarrow> (ptr option \<times> kernel) option" where
  "first_request receiver kind s = first_request_loop (Suc (length (t_queue (tcbs s receiver)))) receiver kind s"

definition clear_wait :: "ptr \<Rightarrow> kernel \<Rightarrow> kernel" where
  "clear_wait t s = end_interruptible_wait t (upd t (\<lambda>r. r\<lparr>t_kind := ipc_none, t_waiting := False\<rparr>) s)"

fun kind_of :: "request \<Rightarrow> ipc_wait_kind" where
  "kind_of (Legacy m) = legacy_send"
| "kind_of (Fixed m) = call"

definition wanted :: "ipc_wait_kind \<Rightarrow> ipc_wait_kind" where
  "wanted kind = (if kind = call then receive_call else legacy_receive)"

text \<open>\<open>submit\<close> up to the pin on the target, from there to the sleep, and one round of its loop.\<close>

definition submit :: "ptr \<Rightarrow> nat \<Rightarrow> request \<Rightarrow> kernel \<Rightarrow> outcome \<times> kernel" where
  "submit sender tid req s =
    (if t_tid (tcbs s sender) = tid then (Return (-35), s)
     else case pin_thread tid s of
       (None, s) \<Rightarrow> (Return (-3), s)
     | (Some peer, s) \<Rightarrow> (Next (Sending peer req), s))"

fun load_request :: "request \<Rightarrow> tcb \<Rightarrow> tcb" where
  "load_request (Legacy m) r =
    r\<lparr>t_queued_msg := \<lparr>m_sender = t_tid r, m_type = m_type m, m_data = m_data m\<rparr>, t_has_queued_msg := True\<rparr>"
| "load_request (Fixed m) r = save_regs m r"

definition submit_locked :: "ptr \<Rightarrow> ptr \<Rightarrow> request \<Rightarrow> kernel \<Rightarrow> outcome \<times> kernel" where
  "submit_locked sender peer req s =
    (if ipc_shut sender s \<or> ipc_shut peer s then (Return (-32), unpin peer s)
     else if \<not> may_ipc (t_creds (tcbs s sender)) (t_creds (tcbs s peer)) then (Return (-1), unpin peer s)
     else if t_kind (tcbs s sender) \<noteq> ipc_none then (Return (-16), unpin peer s)
     else if t_queue_count (tcbs s peer) \<ge> MAX_PENDING_REQUESTS then (Return (-11), unpin peer s)
     else
       case begin_interruptible_wait sender s of
         (False, s) \<Rightarrow> (Return (-4), unpin peer s)
       | (True, s) \<Rightarrow>
           let s = upd sender (\<lambda>r. r\<lparr>t_kind := kind_of req, t_result := PENDING, t_peer := Some peer\<rparr>) s;
               s = upd sender (load_request req) s;
               s = pin sender s;
               s = upd peer (\<lambda>r. r\<lparr>t_queue := t_queue r @ [sender], t_queue_count := t_queue_count r + 1\<rparr>) s;
               s = (if t_kind (tcbs s peer) = wanted (kind_of req) then unblock peer s else s)
           in (Next Submitted, s))"

definition submit_resume :: "ptr \<Rightarrow> kernel \<Rightarrow> outcome \<times> kernel" where
  "submit_resume sender s =
    (let s = (if fatal_signal_pending (tcbs s sender) \<and> t_peer (tcbs s sender) \<noteq> None then complete sender (-4) True s else s) in
     if t_result (tcbs s sender) \<noteq> PENDING then
       let result = (if fatal_signal_pending (tcbs s sender) then -4 else t_result (tcbs s sender))
       in (if result = 0 \<and> t_kind (tcbs s sender) = call then Return_words (copy_regs (tcbs s sender)) else Return result,
           clear_wait sender s)
     else
       let s = end_interruptible_wait sender s in
       case begin_interruptible_wait sender s of
         (False, s) \<Rightarrow> (Return (-4), clear_wait sender (complete sender (-4) True s))
       | (True, s) \<Rightarrow> (Next Submitted, s))"

definition send_sync :: "ptr \<Rightarrow> nat \<Rightarrow> message \<Rightarrow> kernel \<Rightarrow> outcome \<times> kernel" where
  "send_sync sender tid m s = submit sender tid (Legacy m) s"

definition sys_ipc_call :: "ptr \<Rightarrow> nat \<Rightarrow> fast_msg \<Rightarrow> kernel \<Rightarrow> outcome \<times> kernel" where
  "sys_ipc_call sender tid m s = submit sender tid (Fixed m) s"

definition send_async :: "ptr \<Rightarrow> nat \<Rightarrow> message \<Rightarrow> kernel \<Rightarrow> outcome \<times> kernel" where
  "send_async sender tid m s =
    (case pin_thread tid s of
       (None, s) \<Rightarrow> (Return (-3), s)
     | (Some peer, s) \<Rightarrow> (Next (Sending_async peer m), s))"

definition send_async_locked :: "ptr \<Rightarrow> ptr \<Rightarrow> message \<Rightarrow> kernel \<Rightarrow> outcome \<times> kernel" where
  "send_async_locked sender peer m s =
    (if ipc_shut sender s \<or> ipc_shut peer s then (Return (-32), unpin peer s)
     else if \<not> may_ipc (t_creds (tcbs s sender)) (t_creds (tcbs s peer)) then (Return (-1), unpin peer s)
     else if fatal_signal_pending (tcbs s sender) then (Return (-4), unpin peer s)
     else
       let next = (t_async_tail (tcbs s peer) + 1) mod ASYNC_QUEUE_SIZE in
       if next = t_async_head (tcbs s peer) then (Return (-11), unpin peer s)
       else
         let entry = \<lparr>m_sender = t_tid (tcbs s sender), m_type = m_type m, m_data = m_data m\<rparr>;
             s = upd peer (\<lambda>r. r\<lparr>t_async_queue := (t_async_queue r)(t_async_tail r := entry), t_async_tail := next\<rparr>) s;
             s = (if t_kind (tcbs s peer) = legacy_receive then unblock peer s else s)
         in (Return 0, unpin peer s))"

text \<open>One round of the loop of \<open>receive_sync\<close>, up to its return or its sleep.\<close>

definition receive_sync :: "ptr \<Rightarrow> kernel \<Rightarrow> (outcome \<times> kernel) option" where
  "receive_sync receiver s =
    (if ipc_shut receiver s then Some (Return (-32), s)
     else if fatal_signal_pending (tcbs s receiver) then Some (Return (-4), s)
     else if t_kind (tcbs s receiver) \<noteq> ipc_none then Some (Return (-16), s)
     else if t_async_head (tcbs s receiver) \<noteq> t_async_tail (tcbs s receiver) then
       Some (Return_msg (t_async_queue (tcbs s receiver) (t_async_head (tcbs s receiver))),
             upd receiver (\<lambda>r. r\<lparr>t_async_head := (t_async_head r + 1) mod ASYNC_QUEUE_SIZE\<rparr>) s)
     else
       case first_request receiver legacy_send s of
         None \<Rightarrow> None
       | Some (Some sender, s) \<Rightarrow>
           Some (Return_msg \<lparr>m_sender = t_tid (tcbs s sender), m_type = m_type (t_queued_msg (tcbs s sender)),
                             m_data = m_data (t_queued_msg (tcbs s sender))\<rparr>, complete sender 0 False s)
       | Some (None, s) \<Rightarrow>
           (case begin_interruptible_wait receiver s of
              (False, s) \<Rightarrow> Some (Return (-4), s)
            | (True, s) \<Rightarrow> Some (Next Receive_sleep, upd receiver (\<lambda>r. r\<lparr>t_kind := legacy_receive\<rparr>) s)))"

definition sys_ipc_wait :: "ptr \<Rightarrow> kernel \<Rightarrow> (outcome \<times> kernel) option" where
  "sys_ipc_wait server s =
    (if ipc_shut server s then Some (Return (-32), s)
     else if fatal_signal_pending (tcbs s server) then Some (Return (-4), s)
     else if t_kind (tcbs s server) \<noteq> ipc_none \<or> t_caller (tcbs s server) \<noteq> None then Some (Return (-16), s)
     else if t_reply_cancelled (tcbs s server) then Some (Return (-125), s)
     else
       case first_request server call s of
         None \<Rightarrow> None
       | Some (Some caller, s) \<Rightarrow>
           let s = unlink_request server caller s;
               s = upd server (\<lambda>r. r\<lparr>t_caller := Some caller\<rparr>) s
           in Some (Return_words (copy_regs (tcbs s caller)), s)
       | Some (None, s) \<Rightarrow>
           (case begin_interruptible_wait server s of
              (False, s) \<Rightarrow> Some (Return (-4), s)
            | (True, s) \<Rightarrow> Some (Next Accept_sleep, upd server (\<lambda>r. r\<lparr>t_kind := receive_call, t_waiting := True\<rparr>) s)))"

definition sys_ipc_reply :: "ptr \<Rightarrow> fast_msg \<Rightarrow> kernel \<Rightarrow> int \<times> kernel" where
  "sys_ipc_reply server m s =
    (if ipc_shut server s then (-32, s)
     else if fatal_signal_pending (tcbs s server) then (-4, s)
     else if t_kind (tcbs s server) \<noteq> ipc_none then (-16, s)
     else if t_reply_cancelled (tcbs s server) then (-125, upd server (\<lambda>r. r\<lparr>t_reply_cancelled := False\<rparr>) s)
     else
       case t_caller (tcbs s server) of
         None \<Rightarrow> (-2, s)
       | Some caller \<Rightarrow>
           if fatal_signal_pending (tcbs s caller) then
             (-125, upd server (\<lambda>r. r\<lparr>t_reply_cancelled := False\<rparr>) (complete caller (-4) True s))
           else (0, complete caller 0 False (upd caller (save_regs m) s)))"

fun complete_all :: "nat \<Rightarrow> ptr \<Rightarrow> kernel \<Rightarrow> kernel option" where
  "complete_all 0 owner s = (if t_queue (tcbs s owner) = [] then Some s else None)"
| "complete_all (Suc n) owner s =
    (case t_queue (tcbs s owner) of [] \<Rightarrow> Some s | sender # _ \<Rightarrow> complete_all n owner (complete sender (-32) False s))"

definition detach_thread :: "ptr \<Rightarrow> kernel \<Rightarrow> kernel option" where
  "detach_thread owner s =
    (if t_closed (tcbs s owner) then Some s
     else
       let s = upd owner (\<lambda>r. r\<lparr>t_closed := True\<rparr>) s;
           s = (if t_peer (tcbs s owner) \<noteq> None then complete owner (-4) True s else s)
       in case complete_all (length (t_queue (tcbs s owner))) owner s of
            None \<Rightarrow> None
          | Some s \<Rightarrow>
              let s = (case t_caller (tcbs s owner) of None \<Rightarrow> s | Some caller \<Rightarrow> complete caller (-32) False s);
                  s = upd owner (\<lambda>r. r\<lparr>t_reply_cancelled := False, t_async_head := 0, t_async_tail := 0\<rparr>) s
              in Some (if t_kind (tcbs s owner) = legacy_receive \<or> t_kind (tcbs s owner) = receive_call then unblock owner s else s))"

section \<open>Invariant\<close>

definition settle :: "ptr \<Rightarrow> outcome \<Rightarrow> kernel \<Rightarrow> kernel" where
  "settle t out s = goto t (case out of Next k \<Rightarrow> k | _ \<Rightarrow> Running_user) s"

fun holds_pin :: "ptr \<Rightarrow> cont \<Rightarrow> bool" where
  "holds_pin t (Sending p _) \<longleftrightarrow> t = p"
| "holds_pin t (Sending_async p _) \<longleftrightarrow> t = p"
| "holds_pin t _ \<longleftrightarrow> False"

fun kind_fits :: "cont \<Rightarrow> ipc_wait_kind \<Rightarrow> bool" where
  "kind_fits Submitted k \<longleftrightarrow> k = legacy_send \<or> k = call"
| "kind_fits Receive_sleep k \<longleftrightarrow> k = legacy_receive"
| "kind_fits Accept_sleep k \<longleftrightarrow> k = receive_call"
| "kind_fits _ k \<longleftrightarrow> k = ipc_none"

fun sleeps :: "cont \<Rightarrow> bool" where
  "sleeps Submitted \<longleftrightarrow> True"
| "sleeps Receive_sleep \<longleftrightarrow> True"
| "sleeps Accept_sleep \<longleftrightarrow> True"
| "sleeps (Child_sleep _ _) \<longleftrightarrow> True"
| "sleeps Tick_sleep \<longleftrightarrow> True"
| "sleeps (Irq_sleep _) \<longleftrightarrow> True"
| "sleeps Event_sleep \<longleftrightarrow> True"
| "sleeps _ \<longleftrightarrow> False"

text \<open>A request is in the queue of its peer until it is accepted, and a peer accepts one at a time.\<close>

definition link_ok :: "kernel \<Rightarrow> bool" where
  "link_ok s \<longleftrightarrow>
     (\<forall>t p. t \<in> set (t_queue (tcbs s p)) \<longleftrightarrow> t_peer (tcbs s t) = Some p \<and> t_caller (tcbs s p) \<noteq> Some t) \<and>
     (\<forall>p c. t_caller (tcbs s p) = Some c \<longrightarrow> t_peer (tcbs s c) = Some p \<and> t_kind (tcbs s c) = call) \<and>
     (\<forall>p. distinct (t_queue (tcbs s p)) \<and> t_queue_count (tcbs s p) = length (t_queue (tcbs s p)) \<and>
          length (t_queue (tcbs s p)) \<le> MAX_PENDING_REQUESTS) \<and>
     (\<forall>t p. t_peer (tcbs s t) = Some p \<longrightarrow>
        t \<noteq> p \<and> t \<in> set (all_threads s) \<and> p \<in> set (all_threads s) \<and> \<not> t_closed (tcbs s t) \<and> \<not> t_closed (tcbs s p))"

definition place_ok :: "kernel \<Rightarrow> ptr \<Rightarrow> bool" where
  "place_ok s t \<longleftrightarrow>
     kind_fits (conts s t) (t_kind (tcbs s t)) \<and>
     (t_peer (tcbs s t) \<noteq> None \<longleftrightarrow> conts s t = Submitted \<and> t_result (tcbs s t) = PENDING) \<and>
     (\<forall>p. holds_pin p (conts s t) \<longrightarrow> p \<in> set (all_threads s)) \<and> (\<forall>r. conts s t \<noteq> Sending t r) \<and>
     (t_state (tcbs s t) = TERMINATED \<longrightarrow> t_closed (tcbs s t)) \<and>
     (t_closed (tcbs s t) \<longleftrightarrow> (\<exists>k. conts s t = Exiting k)) \<and>
     t_async_head (tcbs s t) < ASYNC_QUEUE_SIZE \<and> t_async_tail (tcbs s t) < ASYNC_QUEUE_SIZE"

text \<open>A thread is pinned once by each request made to it, once for its own request, and by each thread
  that is about to make a request to it.\<close>

definition pin_count :: "kernel \<Rightarrow> ptr \<Rightarrow> nat" where
  "pin_count s t =
     card {u. t_peer (tcbs s u) = Some t} + (if t_peer (tcbs s t) = None then 0 else 1) +
     card {u \<in> set (all_threads s). holds_pin t (conts s u)}"

definition wake_ok :: "kernel \<Rightarrow> ptr \<Rightarrow> bool" where
  "wake_ok s t \<longleftrightarrow>
     (t_state (tcbs s t) = BLOCKED \<longrightarrow>
        (conts s t = Submitted \<longrightarrow> t_peer (tcbs s t) \<noteq> None) \<and>
        (t_kind (tcbs s t) = legacy_receive \<longrightarrow>
           t_async_head (tcbs s t) = t_async_tail (tcbs s t) \<and> (\<forall>u\<in>set (t_queue (tcbs s t)). t_kind (tcbs s u) \<noteq> legacy_send)) \<and>
        (t_kind (tcbs s t) = receive_call \<longrightarrow>
           t_caller (tcbs s t) = None \<and> (\<forall>u\<in>set (t_queue (tcbs s t)). t_kind (tcbs s u) \<noteq> call)) \<and>
        (sleeps (conts s t) \<longrightarrow> \<not> fatal_signal_pending (tcbs s t))) \<and>
     (sleeps (conts s t) \<longrightarrow> t_interruptible (tcbs s t))"

definition ipc_ok :: "kernel \<Rightarrow> bool" where
  "ipc_ok s \<longleftrightarrow>
     distinct (all_threads s) \<and> link_ok s \<and>
     (\<forall>t\<in>set (all_threads s). place_ok s t \<and> t_pins (tcbs s t) = pin_count s t \<and> wake_ok s t)"

lemma ipc_okD:
  assumes "ipc_ok s"
  shows "distinct (all_threads s)"
    "t \<in> set (t_queue (tcbs s p)) \<longleftrightarrow> t_peer (tcbs s t) = Some p \<and> t_caller (tcbs s p) \<noteq> Some t"
    "t_caller (tcbs s p) = Some c \<Longrightarrow> t_peer (tcbs s c) = Some p \<and> t_kind (tcbs s c) = call"
    "distinct (t_queue (tcbs s p))" "t_queue_count (tcbs s p) = length (t_queue (tcbs s p))"
    "length (t_queue (tcbs s p)) \<le> MAX_PENDING_REQUESTS"
    "t_peer (tcbs s t) = Some p \<Longrightarrow>
      t \<noteq> p \<and> t \<in> set (all_threads s) \<and> p \<in> set (all_threads s) \<and> \<not> t_closed (tcbs s t) \<and> \<not> t_closed (tcbs s p)"
    "t \<in> set (all_threads s) \<Longrightarrow> place_ok s t" "t \<in> set (all_threads s) \<Longrightarrow> t_pins (tcbs s t) = pin_count s t"
    "t \<in> set (all_threads s) \<Longrightarrow> wake_ok s t"
  using assms by (simp_all add: ipc_ok_def link_ok_def)

lemma finite_peers:
  assumes "link_ok s"
  shows "finite {u. t_peer (tcbs s u) = Some t}"
proof -
  have "{u. t_peer (tcbs s u) = Some t} \<subseteq> set (all_threads s)"
    using assms by (auto simp: link_ok_def)
  then show ?thesis
    by (rule finite_subset) simp
qed

section \<open>Completion of a request\<close>

text \<open>The fields that completing the request of \<open>t\<close> at \<open>p\<close> leaves.\<close>

definition after_complete :: "ptr \<Rightarrow> ptr \<Rightarrow> int \<Rightarrow> bool \<Rightarrow> (ptr \<Rightarrow> tcb) \<Rightarrow> ptr \<Rightarrow> tcb" where
  "after_complete t p result cancelled f =
    f(p := (f p)\<lparr>t_caller := (if t_caller (f p) = Some t then None else t_caller (f p)),
                 t_reply_cancelled := (t_reply_cancelled (f p) \<or> t_caller (f p) = Some t \<and> cancelled),
                 t_queue := remove1 t (t_queue (f p)), t_queue_count := length (remove1 t (t_queue (f p))), t_pins := t_pins (f p) - 1\<rparr>,
      t := (f t)\<lparr>t_peer := None, t_has_queued_msg := False, t_result := result, t_state := woken (t_state (f t)), t_pins := t_pins (f t) - 1\<rparr>)"

lemma complete_sel [simp]:
  "all_threads (complete t r c s) = all_threads s" "conts (complete t r c s) = conts s" "next_tid (complete t r c s) = next_tid s"
  "sleepers (complete t r c s) = sleepers s" "irq_waiters (complete t r c s) = irq_waiters s"
  by (simp_all add: complete_def unlink_request_def unpin_def Let_def split: option.splits)

lemma complete_fields:
  assumes "t_peer (tcbs s t) = Some p" and "t \<noteq> p" and "t_queue_count (tcbs s p) = length (t_queue (tcbs s p))"
    and "t_caller (tcbs s p) = Some t \<Longrightarrow> t \<notin> set (t_queue (tcbs s p))" and "c \<Longrightarrow> \<not> ipc_shut p s"
  shows "tcbs (complete t r c s) = after_complete t p r c (tcbs s)"
  using assms
  by (cases "t_caller (tcbs s p) = Some t")
    (auto simp: complete_def after_complete_def unlink_request_def unpin_def unblock_tcbs ipc_shut_def Let_def fun_eq_iff
      remove1_idem length_remove1)

lemma complete_tcbs:
  assumes "ipc_ok s" and "t_peer (tcbs s t) = Some p"
  shows "tcbs (complete t r c s) = after_complete t p r c (tcbs s)"
proof (rule complete_fields [OF assms(2)])
  note d = ipc_okD [OF assms(1)]
  have p: "t \<noteq> p" "p \<in> set (all_threads s)" "\<not> t_closed (tcbs s p)"
    using d(7) [OF assms(2)] by simp_all
  then show "\<not> ipc_shut p s"
    using d(8) [OF p(2)] by (auto simp: place_ok_def ipc_shut_def)
  show "t \<noteq> p"
    by (rule p(1))
qed (use ipc_okD [OF assms(1)] in auto)

lemma pin_count_cong:
  assumes "\<And>u. t_peer (tcbs s' u) = t_peer (tcbs s u)" "all_threads s' = all_threads s"
    "\<And>u. u \<in> set (all_threads s) \<Longrightarrow> holds_pin t (conts s' u) = holds_pin t (conts s u)"
  shows "pin_count s' t = pin_count s t"
proof -
  have "{u \<in> set (all_threads s'). holds_pin t (conts s' u)} = {u \<in> set (all_threads s). holds_pin t (conts s u)}"
    using assms by auto
  then show ?thesis
    by (simp add: pin_count_def assms(1))
qed

lemma pin_count_drop_peer:
  assumes "link_ok s" and "t_peer (tcbs s t) = Some p" and "t \<noteq> p" and "\<And>u. t_peer (tcbs s' u) = (if u = t then None else t_peer (tcbs s u))"
    and "all_threads s' = all_threads s" "conts s' = conts s"
  shows "pin_count s' u = (if u = t \<or> u = p then pin_count s u - 1 else pin_count s u)"
proof -
  have p: "{v. t_peer (tcbs s' v) = Some p} = {v. t_peer (tcbs s v) = Some p} - {t}" "t \<in> {v. t_peer (tcbs s v) = Some p}"
    using assms(2,4) by auto
  have "{v. t_peer (tcbs s' v) = Some u} = {v. t_peer (tcbs s v) = Some u}" if "u \<noteq> p"
    using that assms(2,4) by auto
  moreover have "card {v. t_peer (tcbs s' v) = Some p} = card {v. t_peer (tcbs s v) = Some p} - 1"
    "card {v. t_peer (tcbs s v) = Some p} > 0"
    using p finite_peers [OF assms(1), of p] by (auto simp: card_gt_0_iff)
  ultimately show ?thesis
    using assms(2-6) by (cases "u = p") (auto simp: pin_count_def)
qed

lemma complete_ok:
  assumes ok: "ipc_ok s" and t: "t_peer (tcbs s t) = Some p" and r: "r \<noteq> PENDING"
  shows "ipc_ok (complete t r c s)"
proof -
  note d = ipc_okD [OF ok]
  let ?s = "complete t r c s"
  have tp: "t \<noteq> p" "t \<in> set (all_threads s)" "p \<in> set (all_threads s)"
    using d(7) [OF t] by simp_all
  note f = complete_tcbs [OF ok t, of r c]
  have q: "set (t_queue (tcbs ?s u)) = set (t_queue (tcbs s u)) - (if u = p then {t} else {})" for u
    using tp d(4) [of p] by (simp add: f after_complete_def)
  have peer: "t_peer (tcbs ?s u) = (if u = t then None else t_peer (tcbs s u))" for u
    using tp by (simp add: f after_complete_def)
  have caller: "t_caller (tcbs ?s u) = (if u = p \<and> t_caller (tcbs s p) = Some t then None else t_caller (tcbs s u))" for u
    using tp by (simp add: f after_complete_def)
  have same: "t_kind (tcbs ?s u) = t_kind (tcbs s u)" "t_closed (tcbs ?s u) = t_closed (tcbs s u)"
    "t_async_head (tcbs ?s u) = t_async_head (tcbs s u)" "t_async_tail (tcbs ?s u) = t_async_tail (tcbs s u)"
    "t_interruptible (tcbs ?s u) = t_interruptible (tcbs s u)" "fatal_signal_pending (tcbs ?s u) = fatal_signal_pending (tcbs s u)"
    "t_state (tcbs ?s u) = (if u = t then woken (t_state (tcbs s u)) else t_state (tcbs s u))"
    "t_result (tcbs ?s u) = (if u = t then r else t_result (tcbs s u))"
    "t_pins (tcbs ?s u) = (if u = t \<or> u = p then t_pins (tcbs s u) - 1 else t_pins (tcbs s u))" for u
    using tp by (auto simp: f after_complete_def fatal_signal_pending_def)
  have "link_ok ?s"
    unfolding link_ok_def
  proof (intro conjI allI impI)
    fix u v
    show "u \<in> set (t_queue (tcbs ?s v)) \<longleftrightarrow> t_peer (tcbs ?s u) = Some v \<and> t_caller (tcbs ?s v) \<noteq> Some u"
      using t d(2) [of u v] by (auto simp: q peer caller)
    show "t_peer (tcbs ?s v) = Some u" "t_kind (tcbs ?s v) = call" if "t_caller (tcbs ?s u) = Some v"
      using that t d(3) [of u v] by (auto simp: peer caller same split: if_splits)
  qed (use d(4-7) tp in \<open>auto simp: f after_complete_def length_remove1 le_diff_conv le_SucI split: if_splits\<close>)
  moreover have "place_ok ?s u" if "u \<in> set (all_threads s)" for u
    using d(8) [OF that] r t by (cases "t_state (tcbs s t)") (auto simp: place_ok_def peer same)
  moreover have "t_pins (tcbs ?s u) = pin_count ?s u" if "u \<in> set (all_threads s)" for u
  proof -
    have "pin_count ?s u = (if u = t \<or> u = p then pin_count s u - 1 else pin_count s u)"
      by (rule pin_count_drop_peer [OF _ t tp(1)]) (use ok peer in \<open>auto simp: ipc_ok_def\<close>)
    then show ?thesis
      using d(9) [OF that] by (simp add: same)
  qed
  moreover have "wake_ok ?s u" if "u \<in> set (all_threads s)" for u
    using d(10) [OF that] t by (cases "t_state (tcbs s t)") (auto simp: wake_ok_def peer caller same q)
  ultimately show ?thesis
    using d(1) by (simp add: ipc_ok_def)
qed

section \<open>Selection of a request\<close>

text \<open>What the search for a request may change: requests to \<open>p\<close> whose sender is being killed are
  completed, and nothing else happens to any thread but \<open>p\<close>, of which only the queue and the pins change.\<close>

definition served :: "ptr \<Rightarrow> kernel \<Rightarrow> kernel \<Rightarrow> bool" where
  "served p s s' \<longleftrightarrow>
     conts s' = conts s \<and> all_threads s' = all_threads s \<and> next_tid s' = next_tid s \<and> sleepers s' = sleepers s \<and>
     irq_waiters s' = irq_waiters s \<and>
     (\<forall>v. v \<noteq> p \<and> (\<not> fatal_signal_pending (tcbs s v) \<or> t_peer (tcbs s v) \<noteq> Some p) \<longrightarrow> tcbs s' v = tcbs s v) \<and>
     (\<forall>v. t_state (tcbs s' v) = t_state (tcbs s v) \<or> t_state (tcbs s' v) = woken (t_state (tcbs s v))) \<and>
     (\<exists>q c n. tcbs s' p = (tcbs s p)\<lparr>t_queue := q, t_queue_count := c, t_pins := n\<rparr>)"

lemma served_refl [simp]: "served p s s"
proof -
  have "tcbs s p = (tcbs s p)\<lparr>t_queue := t_queue (tcbs s p), t_queue_count := t_queue_count (tcbs s p), t_pins := t_pins (tcbs s p)\<rparr>"
    by simp
  then show ?thesis
    unfolding served_def by blast
qed

lemma woken_woken [simp]: "woken (woken st) = woken st"
  by (cases st) simp_all

lemma served_trans: "served p s s1 \<Longrightarrow> served p s1 s2 \<Longrightarrow> served p s s2"
proof -
  assume a: "served p s s1" and b: "served p s1 s2"
  have v: "tcbs s2 v = tcbs s v" if "v \<noteq> p" "\<not> fatal_signal_pending (tcbs s v) \<or> t_peer (tcbs s v) \<noteq> Some p" for v
  proof -
    have "tcbs s1 v = tcbs s v"
      using a that unfolding served_def by blast
    moreover have "v \<noteq> p \<and> (\<not> fatal_signal_pending (tcbs s1 v) \<or> t_peer (tcbs s1 v) \<noteq> Some p) \<longrightarrow> tcbs s2 v = tcbs s1 v"
      using b unfolding served_def by blast
    ultimately show ?thesis
      using that by simp
  qed
  have st: "t_state (tcbs s2 v) = t_state (tcbs s v) \<or> t_state (tcbs s2 v) = woken (t_state (tcbs s v))" for v
  proof -
    have "t_state (tcbs s1 v) = t_state (tcbs s v) \<or> t_state (tcbs s1 v) = woken (t_state (tcbs s v))"
      "t_state (tcbs s2 v) = t_state (tcbs s1 v) \<or> t_state (tcbs s2 v) = woken (t_state (tcbs s1 v))"
      using a b unfolding served_def by blast+
    then show ?thesis
      by auto
  qed
  obtain q c n q' c' n' where "tcbs s1 p = (tcbs s p)\<lparr>t_queue := q, t_queue_count := c, t_pins := n\<rparr>"
    "tcbs s2 p = (tcbs s1 p)\<lparr>t_queue := q', t_queue_count := c', t_pins := n'\<rparr>"
    using a b unfolding served_def by blast
  then have p: "tcbs s2 p = (tcbs s p)\<lparr>t_queue := q', t_queue_count := c', t_pins := n'\<rparr>"
    by simp
  show ?thesis
    unfolding served_def using a b v st p by (intro conjI) (auto simp: served_def)
qed

lemma served_complete:
  assumes "ipc_ok s" and "t \<in> set (t_queue (tcbs s p))" and "fatal_signal_pending (tcbs s t)"
  shows "served p s (complete t r c s)"
proof -
  have t: "t_peer (tcbs s t) = Some p" "t_caller (tcbs s p) \<noteq> Some t"
    using assms(2) ipc_okD(2) [OF assms(1)] by blast+
  moreover have "t \<noteq> p"
    using ipc_okD(7) [OF assms(1) t(1)] by simp
  ultimately show ?thesis
    using assms(3) by (auto simp: served_def complete_tcbs [OF assms(1) t(1)] after_complete_def)
qed

lemma find_remove1: "\<not> P u \<Longrightarrow> find P (remove1 u xs) = find P xs"
  by (induction xs) auto

lemma find_cong_set: "(\<And>x. x \<in> set xs \<Longrightarrow> P x = Q x) \<Longrightarrow> find P xs = find Q xs"
  by (induction xs) auto

abbreviation answerable :: "kernel \<Rightarrow> ipc_wait_kind \<Rightarrow> ptr \<Rightarrow> bool" where
  "answerable s k v \<equiv> t_kind (tcbs s v) = k \<and> \<not> fatal_signal_pending (tcbs s v)"

text \<open>The search ends, gives the first request of the kind whose sender is not being killed, and
  leaves no request of the kind behind when there is none.\<close>

lemma first_request_loop_spec:
  assumes "ipc_ok s" and "length (t_queue (tcbs s p)) < n"
  shows "\<exists>s'. first_request_loop n p k s = Some (find (answerable s k) (t_queue (tcbs s p)), s') \<and> ipc_ok s' \<and> served p s s' \<and>
    (find (answerable s k) (t_queue (tcbs s p)) = None \<longrightarrow> (\<forall>u\<in>set (t_queue (tcbs s' p)). t_kind (tcbs s' u) \<noteq> k))"
  using assms
proof (induction n arbitrary: s)
  case 0
  then show ?case by simp
next
  case (Suc n)
  let ?q = "t_queue (tcbs s p)"
  show ?case
  proof (cases "find (\<lambda>u. t_kind (tcbs s u) = k) ?q")
    case None
    then have "\<forall>u\<in>set ?q. t_kind (tcbs s u) \<noteq> k"
      by (auto simp: find_None_iff)
    moreover from this have "find (answerable s k) ?q = None"
      by (auto simp: find_None_iff)
    ultimately show ?thesis
      using None Suc.prems(1) by simp
  next
    case (Some u)
    then obtain i where i: "i < length ?q" "?q ! i = u" "t_kind (tcbs s u) = k" "\<And>j. j < i \<Longrightarrow> t_kind (tcbs s (?q ! j)) \<noteq> k"
      by (auto simp: find_Some_iff)
    then have u: "u \<in> set ?q"
      by auto
    show ?thesis
    proof (cases "fatal_signal_pending (tcbs s u)")
      case False
      then have "find (answerable s k) ?q = Some u"
        using i by (auto simp: find_Some_iff)
      then show ?thesis
        using Some False Suc.prems(1) by simp
    next
      case True
      let ?s = "complete u (-4) True s"
      have pu: "t_peer (tcbs s u) = Some p" "u \<noteq> p"
        using u ipc_okD(2,7) [OF Suc.prems(1)] by blast+
      note f = complete_tcbs [OF Suc.prems(1) pu(1), of "-4" True]
      have ok: "ipc_ok ?s"
        by (rule complete_ok [OF Suc.prems(1) pu(1)]) (simp add: PENDING_def)
      have q: "t_queue (tcbs ?s p) = remove1 u ?q"
        using pu(2) by (simp add: f after_complete_def)
      have ans: "answerable ?s k = answerable s k"
        by (auto simp: f after_complete_def fatal_signal_pending_def fun_eq_iff)
      have "length (t_queue (tcbs ?s p)) = length ?q - 1"
        using u by (simp add: q length_remove1)
      then have "length (t_queue (tcbs ?s p)) < n"
        using Suc.prems(2) length_pos_if_in_set [OF u] by linarith
      then obtain s' where s': "first_request_loop n p k ?s = Some (find (answerable s k) (remove1 u ?q), s')" "ipc_ok s'" "served p ?s s'"
        "find (answerable s k) (remove1 u ?q) = None \<longrightarrow> (\<forall>v\<in>set (t_queue (tcbs s' p)). t_kind (tcbs s' v) \<noteq> k)"
        using Suc.IH [OF ok] by (auto simp: ans q)
      have "find (answerable s k) (remove1 u ?q) = find (answerable s k) ?q"
        by (rule find_remove1) (simp add: True)
      moreover have "served p s s'"
        by (rule served_trans [OF served_complete [OF Suc.prems(1) u True] s'(3)])
      ultimately have "first_request_loop (Suc n) p k s = Some (find (answerable s k) ?q, s')" "served p s s'"
        "find (answerable s k) ?q = None \<longrightarrow> (\<forall>v\<in>set (t_queue (tcbs s' p)). t_kind (tcbs s' v) \<noteq> k)"
        using s'(1,4) Some True by simp_all
      then show ?thesis
        using s'(2) by (intro exI [of _ s'] conjI)
    qed
  qed
qed

lemma first_request_ends:
  assumes "ipc_ok s"
  obtains s' where "first_request p k s = Some (find (answerable s k) (t_queue (tcbs s p)), s')" "ipc_ok s'" "served p s s'"
    "find (answerable s k) (t_queue (tcbs s p)) = None \<longrightarrow> (\<forall>u\<in>set (t_queue (tcbs s' p)). t_kind (tcbs s' u) \<noteq> k)"
proof -
  note spec = first_request_loop_spec [OF assms lessI, of p k]
  obtain s' where "first_request_loop (Suc (length (t_queue (tcbs s p)))) p k s = Some (find (answerable s k) (t_queue (tcbs s p)), s') \<and>
      ipc_ok s' \<and> served p s s' \<and>
      (find (answerable s k) (t_queue (tcbs s p)) = None \<longrightarrow> (\<forall>u\<in>set (t_queue (tcbs s' p)). t_kind (tcbs s' u) \<noteq> k))"
    using spec ..
  then show ?thesis
    by (intro that [of s']) (simp_all add: first_request_def del: first_request_loop.simps)
qed

section \<open>Preservation\<close>

text \<open>A step that changes one thread, but none of the links between threads.\<close>

lemma ipc_ok_local:
  assumes ok: "ipc_ok s" and tcbs: "tcbs s' = (tcbs s)(t := r)" and conts: "conts s' = (conts s)(t := k)"
    and all: "all_threads s' = all_threads s"
    and same: "t_queue r = t_queue (tcbs s t)" "t_queue_count r = t_queue_count (tcbs s t)" "t_caller r = t_caller (tcbs s t)"
      "t_peer r = t_peer (tcbs s t)" "t_pins r = t_pins (tcbs s t)" "\<And>p. holds_pin p k = holds_pin p (conts s t)"
    and closed: "t_closed r = t_closed (tcbs s t) \<or> t_peer r = None \<and> t_queue r = [] \<and> t_caller r = None"
    and kind: "t_kind r = t_kind (tcbs s t) \<or> t_peer r = None"
    and own: "t \<in> set (all_threads s) \<Longrightarrow> place_ok s' t" "t \<in> set (all_threads s) \<Longrightarrow> wake_ok s' t"
  shows "ipc_ok s'"
proof -
  note d = ipc_okD [OF ok]
  have f: "t_queue (tcbs s' u) = t_queue (tcbs s u)" "t_queue_count (tcbs s' u) = t_queue_count (tcbs s u)"
    "t_caller (tcbs s' u) = t_caller (tcbs s u)" "t_peer (tcbs s' u) = t_peer (tcbs s u)" "t_pins (tcbs s' u) = t_pins (tcbs s u)" for u
    using same by (simp_all add: tcbs)
  have kinds: "t_kind (tcbs s' u) = t_kind (tcbs s u)" if "t_peer (tcbs s u) \<noteq> None" for u
    using that kind same(4) by (auto simp: tcbs)
  have cl: "\<not> t_closed (tcbs s' u)" if "\<not> t_closed (tcbs s u)" "t_peer (tcbs s u) \<noteq> None \<or> t_peer (tcbs s v) = Some u" for u v
  proof (cases "u = t \<and> t_closed r \<noteq> t_closed (tcbs s t)")
    case True
    then have "t_peer (tcbs s t) = None" "v \<notin> set (t_queue (tcbs s t))" "t_caller (tcbs s t) \<noteq> Some v"
      using closed same by auto
    then show ?thesis
      using True that d(2) [of v t] by simp
  next
    case False
    then show ?thesis
      using that by (auto simp: tcbs)
  qed
  have "link_ok s'"
    unfolding link_ok_def
  proof (intro conjI allI impI)
    fix u v
    show "t_kind (tcbs s' v) = call" if "t_caller (tcbs s' u) = Some v"
      using that d(3) [of u v] kinds [of v] by (simp add: f)
    assume "t_peer (tcbs s' u) = Some v"
    then show "u \<noteq> v" "u \<in> set (all_threads s')" "v \<in> set (all_threads s')" "\<not> t_closed (tcbs s' u)" "\<not> t_closed (tcbs s' v)"
      using d(7) [of u v] cl [of u v] cl [of v u] by (simp_all add: f all)
  qed (use d(2-7) in \<open>simp_all add: f\<close>)
  moreover have "t_pins (tcbs s' u) = pin_count s' u" if "u \<in> set (all_threads s)" for u
    using d(9) [OF that] pin_count_cong [of s' s u] same(6) by (simp add: f all conts)
  moreover have "place_ok s' u" if "u \<in> set (all_threads s)" for u
  proof (cases "u = t")
    case False
    then have "place_ok s' u = place_ok s u"
      by (simp add: place_ok_def tcbs conts all)
    then show ?thesis
      using d(8) [OF that] by simp
  qed (use own(1) that in simp)
  moreover have "wake_ok s' u" if u: "u \<in> set (all_threads s)" for u
  proof (cases "u = t")
    case False
    have "t_kind (tcbs s' v) = t_kind (tcbs s v)" if "v \<in> set (t_queue (tcbs s u))" for v
      using that kinds [of v] d(2) [of v u] by simp
    then show ?thesis
      using False d(10) [OF u] by (simp add: wake_ok_def tcbs conts)
  qed (use own(2) u in simp)
  ultimately show ?thesis
    using d(1) by (simp add: ipc_ok_def all)
qed

lemma woken_simps [simp]: "woken st \<noteq> BLOCKED" "woken st = TERMINATED \<longleftrightarrow> st = TERMINATED"
  by (cases st; simp)+

lemma unblock_ok:
  assumes "ipc_ok s"
  shows "ipc_ok (unblock t s)"
proof (rule ipc_ok_local [OF assms, where t = t and k = "conts s t"])
  show "tcbs (unblock t s) = (tcbs s)(t := (tcbs s t)\<lparr>t_state := woken (t_state (tcbs s t))\<rparr>)"
    by (rule unblock_tcbs)
  assume "t \<in> set (all_threads s)"
  then show "place_ok (unblock t s) t" "wake_ok (unblock t s) t"
    using ipc_okD(8,10) [OF assms, of t] by (auto simp: place_ok_def wake_ok_def unblock_tcbs)
qed simp_all

text \<open>Taking a pin on a peer and giving it up again.\<close>

lemma link_ok_cong:
  assumes "link_ok s" and "all_threads s' = all_threads s"
    and "\<And>u. t_queue (tcbs s' u) = t_queue (tcbs s u)" "\<And>u. t_queue_count (tcbs s' u) = t_queue_count (tcbs s u)"
    "\<And>u. t_caller (tcbs s' u) = t_caller (tcbs s u)" "\<And>u. t_peer (tcbs s' u) = t_peer (tcbs s u)"
    "\<And>u. t_kind (tcbs s' u) = t_kind (tcbs s u)" "\<And>u. t_closed (tcbs s' u) = t_closed (tcbs s u)"
  shows "link_ok s'"
  using assms by (simp add: link_ok_def)

lemma ipc_ok_pin:
  assumes ok: "ipc_ok s" and t: "t \<in> set (all_threads s)" "p \<in> set (all_threads s)" "\<And>r. k \<noteq> Sending t r" "conts s t = Running_user"
    and k: "\<And>u. holds_pin u k \<longleftrightarrow> u = p" "\<And>x. kind_fits k x \<longleftrightarrow> x = ipc_none" "k \<noteq> Submitted" "\<not> sleeps k" "\<And>e. k \<noteq> Exiting e"
  shows "ipc_ok (goto t k (pin p s))"
proof -
  note d = ipc_okD [OF ok]
  let ?s = "goto t k (pin p s)"
  have hold: "{u \<in> set (all_threads s). holds_pin v (conts ?s u)} =
      (if v = p then insert t {u \<in> set (all_threads s). holds_pin v (conts s u)} else {u \<in> set (all_threads s). holds_pin v (conts s u)})" for v
    by (auto simp: pin_def k(1) t(1,4))
  have "card {u \<in> set (all_threads s). holds_pin v (conts ?s u)} = card {u \<in> set (all_threads s). holds_pin v (conts s u)} + (if v = p then 1 else 0)" for v
    unfolding hold using t(4) by simp
  moreover have peers: "t_peer (tcbs ?s v) = t_peer (tcbs s v)" "all_threads ?s = all_threads s" for v
    by (simp_all add: pin_def)
  ultimately have "pin_count ?s u = pin_count s u + (if u = p then 1 else 0)" for u
    unfolding pin_count_def peers by simp
  then have "t_pins (tcbs ?s u) = pin_count ?s u" if "u \<in> set (all_threads s)" for u
    using d(9) [OF that] by (auto simp: pin_def)
  moreover have "link_ok ?s"
    by (rule link_ok_cong [of s]) (use ok in \<open>simp_all add: ipc_ok_def pin_def\<close>)
  moreover have "place_ok ?s u" if "u \<in> set (all_threads s)" for u
    using d(8) [OF that] t k by (auto simp: place_ok_def pin_def)
  moreover have "wake_ok ?s u" if "u \<in> set (all_threads s)" for u
    using d(10) [OF that] t k by (auto simp: wake_ok_def pin_def fatal_signal_pending_def)
  ultimately show ?thesis
    using d(1) by (simp add: ipc_ok_def pin_def)
qed

lemma ipc_ok_unpin:
  assumes ok: "ipc_ok s" and t: "t \<in> set (all_threads s)" and k: "\<And>u. holds_pin u (conts s t) \<longleftrightarrow> u = p"
  shows "ipc_ok (goto t Running_user (unpin p s))"
proof -
  note d = ipc_okD [OF ok]
  let ?s = "goto t Running_user (unpin p s)"
  have nk: "kind_fits (conts s t) x \<longleftrightarrow> x = ipc_none" "conts s t \<noteq> Submitted" "conts s t \<noteq> Exiting e" for x e
    using k [of p] by (cases "conts s t"; simp)+
  have hold: "{u \<in> set (all_threads s). holds_pin v (conts ?s u)} =
      {u \<in> set (all_threads s). holds_pin v (conts s u)} - (if v = p then {t} else {})" for v
    using t k by (auto simp: unpin_def)
  have t_in: "t \<in> {u \<in> set (all_threads s). holds_pin p (conts s u)}"
    using t k by simp
  then have "card {u \<in> set (all_threads s). holds_pin v (conts ?s u)} = card {u \<in> set (all_threads s). holds_pin v (conts s u)} - (if v = p then 1 else 0)" for v
    unfolding hold by (cases "v = p") (simp_all add: card_Diff_singleton)
  moreover have "card {u \<in> set (all_threads s). holds_pin p (conts s u)} > 0"
    using t_in by (auto simp: card_gt_0_iff)
  moreover have peers: "t_peer (tcbs ?s v) = t_peer (tcbs s v)" "all_threads ?s = all_threads s" for v
    by (simp_all add: unpin_def)
  ultimately have "pin_count ?s u = pin_count s u - (if u = p then 1 else 0)" for u
    unfolding pin_count_def peers by simp
  then have "t_pins (tcbs ?s u) = pin_count ?s u" if "u \<in> set (all_threads s)" for u
    using d(9) [OF that] by (auto simp: unpin_def)
  moreover have "link_ok ?s"
    by (rule link_ok_cong [of s]) (use ok in \<open>simp_all add: ipc_ok_def unpin_def\<close>)
  moreover have "place_ok ?s u" if "u \<in> set (all_threads s)" for u
    using d(8) [OF that] nk by (auto simp: place_ok_def unpin_def)
  moreover have "wake_ok ?s u" if "u \<in> set (all_threads s)" for u
    using d(10) [OF that] nk by (auto simp: wake_ok_def unpin_def fatal_signal_pending_def)
  ultimately show ?thesis
    using d(1) by (simp add: ipc_ok_def unpin_def)
qed

text \<open>\<open>submit\<close>: the pin, the refusals and the enrolment.\<close>

lemma pin_threadD: "pin_thread i s = (Some p, s') \<Longrightarrow>
    p \<in> set (all_threads s) \<and> t_tid (tcbs s p) = i \<and> \<not> ipc_shut p s \<and> s' = pin p s"
  by (auto simp: pin_thread_def ipc_shut_def dest: find_threadD split: option.splits if_splits)

lemma pin_thread_None: "pin_thread i s = (None, s') \<Longrightarrow> s' = s"
  by (auto simp: pin_thread_def split: option.splits if_splits)

lemma settle_refl: "conts s t = Running_user \<Longrightarrow> settle t (Return r) s = s"
  by (simp add: settle_def goto_def fun_upd_idem)

lemma submit_ok:
  assumes "ipc_ok s" and "t \<in> set (all_threads s)" and "conts s t = Running_user" and "submit t i req s = (out, s')"
  shows "ipc_ok (settle t out s')"
proof (cases "t_tid (tcbs s t) = i")
  case True
  then show ?thesis
    using assms by (auto simp: submit_def settle_refl)
next
  case False
  show ?thesis
  proof (cases "pin_thread i s")
    case (Pair r s1)
    show ?thesis
    proof (cases r)
      case None
      then show ?thesis
        using Pair False assms pin_thread_None [of i s s1] by (auto simp: submit_def settle_refl)
    next
      case (Some p)
      note p = pin_threadD [OF Pair [unfolded Some]]
      have "ipc_ok (goto t (Sending p req) (pin p s))"
        by (rule ipc_ok_pin) (use assms p False in auto)
      then show ?thesis
        using assms(4) Pair Some False p by (auto simp: submit_def settle_def)
    qed
  qed
qed

lemma send_async_ok:
  assumes "ipc_ok s" and "t \<in> set (all_threads s)" and "conts s t = Running_user"
    and "send_async t i m s = (out, s')"
  shows "ipc_ok (settle t out s')"
proof (cases "pin_thread i s")
  case (Pair r s1)
  show ?thesis
  proof (cases r)
    case None
    then show ?thesis
      using Pair assms pin_thread_None [of i s s1] by (auto simp: send_async_def settle_refl)
  next
    case (Some p)
    note p = pin_threadD [OF Pair [unfolded Some]]
    have "ipc_ok (goto t (Sending_async p m) (pin p s))"
      by (rule ipc_ok_pin) (use assms p in auto)
    then show ?thesis
      using assms(4) Pair Some p by (auto simp: send_async_def settle_def)
  qed
qed

text \<open>The state after a request has been enrolled.\<close>

definition enrolled :: "ptr \<Rightarrow> ptr \<Rightarrow> request \<Rightarrow> kernel \<Rightarrow> kernel" where
  "enrolled t p req s =
    (let s = upd t (\<lambda>r. r\<lparr>t_interruptible := True, t_state := BLOCKED\<rparr>) s;
         s = upd t (\<lambda>r. r\<lparr>t_kind := kind_of req, t_result := PENDING, t_peer := Some p\<rparr>) s;
         s = upd t (load_request req) s;
         s = pin t s;
         s = upd p (\<lambda>r. r\<lparr>t_queue := t_queue r @ [t], t_queue_count := t_queue_count r + 1\<rparr>) s
     in if t_kind (tcbs s p) = wanted (kind_of req) then unblock p s else s)"

lemma submit_locked_cases:
  assumes "submit_locked t p req s = (out, s')"
  obtains (refused) e where "out = Return e" "s' = unpin p s"
  | (enrolled) "out = Next Submitted" "s' = enrolled t p req s" "\<not> ipc_shut t s" "\<not> ipc_shut p s" "t_kind (tcbs s t) = ipc_none"
      "t_queue_count (tcbs s p) < MAX_PENDING_REQUESTS" "\<not> fatal_signal_pending (tcbs s t)"
      "may_ipc (t_creds (tcbs s t)) (t_creds (tcbs s p))"
  using assms unfolding submit_locked_def begin_interruptible_wait_def
  by (auto simp: enrolled_def Let_def split: if_splits)

lemma load_request_keeps [simp]:
  "t_queue (load_request req r) = t_queue r" "t_queue_count (load_request req r) = t_queue_count r"
  "t_caller (load_request req r) = t_caller r" "t_closed (load_request req r) = t_closed r" "t_kind (load_request req r) = t_kind r"
  "t_async_head (load_request req r) = t_async_head r" "t_async_tail (load_request req r) = t_async_tail r"
  "t_sig_pending (load_request req r) = t_sig_pending r" "t_sig_mask (load_request req r) = t_sig_mask r"
  "t_interruptible (load_request req r) = t_interruptible r" "t_state (load_request req r) = t_state r"
  "t_pins (load_request req r) = t_pins r" "t_peer (load_request req r) = t_peer r" "t_result (load_request req r) = t_result r"
  "t_tid (load_request req r) = t_tid r" "t_creds (load_request req r) = t_creds r"
  by (cases req; simp add: save_regs_def)+

lemma enrolled_sel [simp]:
  "all_threads (enrolled t p req s) = all_threads s" "conts (enrolled t p req s) = conts s"
  "next_tid (enrolled t p req s) = next_tid s" "sleepers (enrolled t p req s) = sleepers s" "irq_waiters (enrolled t p req s) = irq_waiters s"
  by (simp_all add: enrolled_def Let_def pin_def)

lemma enrolled_tcbs:
  assumes "t \<noteq> p"
  shows "tcbs (enrolled t p req s) = (tcbs s)
    (t := (load_request req ((tcbs s t)
        \<lparr>t_interruptible := True, t_state := BLOCKED, t_kind := kind_of req, t_result := PENDING, t_peer := Some p\<rparr>))
       \<lparr>t_pins := t_pins (tcbs s t) + 1\<rparr>,
     p := (tcbs s p)\<lparr>t_queue := t_queue (tcbs s p) @ [t], t_queue_count := t_queue_count (tcbs s p) + 1,
        t_state := (if t_kind (tcbs s p) = wanted (kind_of req) then woken (t_state (tcbs s p)) else t_state (tcbs s p))\<rparr>)"
  using assms by (simp add: enrolled_def Let_def pin_def unblock_tcbs)

lemma enrolled_pins:
  assumes ok: "ipc_ok s" and t: "t \<in> set (all_threads s)" "conts s t = Sending p req"
    and p: "p \<in> set (all_threads s)" "t \<noteq> p" "t_peer (tcbs s t) = None"
    and s': "\<And>u. t_peer (tcbs s' u) = (if u = t then Some p else t_peer (tcbs s u))"
      "\<And>u. conts s' u = (if u = t then Submitted else conts s u)" "all_threads s' = all_threads s"
  shows "pin_count s' u = pin_count s u + (if u = t then 1 else 0)"
proof -
  have peers: "{v. t_peer (tcbs s' v) = Some w} = (if w = p then insert t {v. t_peer (tcbs s v) = Some w} else {v. t_peer (tcbs s v) = Some w})" for w
    using p(3) by (auto simp: s'(1))
  have "card {v. t_peer (tcbs s' v) = Some w} = card {v. t_peer (tcbs s v) = Some w} + (if w = p then 1 else 0)" for w
    unfolding peers using p(3) finite_peers [of s] ok by (simp add: ipc_ok_def)
  moreover have holds: "{v \<in> set (all_threads s). holds_pin w (conts s' v)} = {v \<in> set (all_threads s). holds_pin w (conts s v)} - (if w = p then {t} else {})" for w
    using t(2) by (auto simp: s'(2))
  have t_in: "t \<in> {v \<in> set (all_threads s). holds_pin p (conts s v)}"
    using t by simp
  have "card {v \<in> set (all_threads s). holds_pin w (conts s' v)} = card {v \<in> set (all_threads s). holds_pin w (conts s v)} - (if w = p then 1 else 0)" for w
    unfolding holds using t_in by (cases "w = p") (simp_all add: card_Diff_singleton)
  moreover have "card {v \<in> set (all_threads s). holds_pin p (conts s v)} > 0"
    using t_in by (auto simp: card_gt_0_iff)
  ultimately show ?thesis
    using p(2,3) by (auto simp: pin_count_def s'(1,3))
qed

lemma enrolled_ok:
  assumes ok: "ipc_ok s" and t: "t \<in> set (all_threads s)" "conts s t = Sending p req" "\<not> ipc_shut t s" "\<not> ipc_shut p s"
    "t_queue_count (tcbs s p) < MAX_PENDING_REQUESTS" "\<not> fatal_signal_pending (tcbs s t)"
  shows "ipc_ok (goto t Submitted (enrolled t p req s))"
proof -
  note d = ipc_okD [OF ok]
  let ?s = "goto t Submitted (enrolled t p req s)" and ?k = "kind_of req"
  have p: "p \<in> set (all_threads s)" "t \<noteq> p" "t_peer (tcbs s t) = None"
    using d(8) [OF t(1)] t(2) by (auto simp: place_ok_def)
  note f = enrolled_tcbs [OF p(2), of req s]
  have fields: "t_peer (tcbs ?s u) = (if u = t then Some p else t_peer (tcbs s u))"
    "t_queue (tcbs ?s u) = (if u = p then t_queue (tcbs s p) @ [t] else t_queue (tcbs s u))"
    "t_queue_count (tcbs ?s u) = (if u = p then t_queue_count (tcbs s p) + 1 else t_queue_count (tcbs s u))"
    "t_caller (tcbs ?s u) = t_caller (tcbs s u)" "t_closed (tcbs ?s u) = t_closed (tcbs s u)"
    "t_kind (tcbs ?s u) = (if u = t then ?k else t_kind (tcbs s u))"
    "t_result (tcbs ?s u) = (if u = t then PENDING else t_result (tcbs s u))"
    "t_async_head (tcbs ?s u) = t_async_head (tcbs s u)" "t_async_tail (tcbs ?s u) = t_async_tail (tcbs s u)"
    "t_interruptible (tcbs ?s u) = (u = t \<or> t_interruptible (tcbs s u))"
    "fatal_signal_pending (tcbs ?s u) = fatal_signal_pending (tcbs s u)"
    "t_pins (tcbs ?s u) = t_pins (tcbs s u) + (if u = t then 1 else 0)" for u
    using p(2) by (auto simp: f fatal_signal_pending_def)
  have state: "t_state (tcbs ?s u) = (if u = t then BLOCKED else if u = p \<and> t_kind (tcbs s p) = wanted ?k then woken (t_state (tcbs s p))
      else t_state (tcbs s u))" for u
    using p(2) by (auto simp: f)
  have cs: "conts ?s u = (if u = t then Submitted else conts s u)" "all_threads ?s = all_threads s" for u
    by simp_all
  have free: "t \<notin> set (t_queue (tcbs s u))" "t_caller (tcbs s u) \<noteq> Some t" for u
    using p(3) d(2) [of t u] d(3) [of u t] by auto
  have "link_ok ?s"
    unfolding link_ok_def fields cs
    using d(2-7) free p t(1,3,4,5) by (auto simp: ipc_shut_def)
  moreover have "place_ok ?s u" if "u \<in> set (all_threads s)" for u
    using d(8) [OF that] p t unfolding place_ok_def fields cs state by (cases req) (auto simp: ipc_shut_def)
  moreover have "t_pins (tcbs ?s u) = pin_count ?s u" if "u \<in> set (all_threads s)" for u
    unfolding fields using d(9) [OF that] enrolled_pins [OF ok t(1,2) p, of ?s u] fields(1) cs by simp
  moreover have "wake_ok ?s u" if "u \<in> set (all_threads s)" for u
    using d(10) [OF that] t(6) p free unfolding wake_ok_def fields cs state by (cases req) (auto simp: wanted_def)
  ultimately show ?thesis
    using d(1) by (simp add: ipc_ok_def)
qed

lemma settle_simps [simp]:
  "settle t (Return e) s = goto t Running_user s" "settle t (Return_msg m) s = goto t Running_user s"
  "settle t (Return_words w) s = goto t Running_user s" "settle t (Return_child i e) s = goto t Running_user s" "settle t (Next k) s = goto t k s"
  by (simp_all add: settle_def)

lemma submit_locked_ok:
  assumes "ipc_ok s" and "t \<in> set (all_threads s)" and "conts s t = Sending p req" and "submit_locked t p req s = (out, s')"
  shows "ipc_ok (settle t out s')"
  using assms(4)
proof (cases rule: submit_locked_cases)
  case (refused e)
  then show ?thesis
    using ipc_ok_unpin [OF assms(1,2), of p] assms(3) by simp
next
  case enrolled
  then show ?thesis
    using enrolled_ok [OF assms(1-3)] by simp
qed

text \<open>A thread that leaves or repeats a wait.\<close>

lemma clear_wait_ok:
  assumes ok: "ipc_ok s" and t: "t \<in> set (all_threads s)" "t_peer (tcbs s t) = None" "\<not> (\<exists>e. conts s t = Exiting e)"
    "\<And>p. \<not> holds_pin p (conts s t)" "t_state (tcbs s t) \<noteq> BLOCKED"
    and k: "\<And>p. \<not> holds_pin p k" "\<And>x. kind_fits k x \<longleftrightarrow> x = ipc_none" "k \<noteq> Submitted" "\<not> sleeps k" "\<And>e. k \<noteq> Exiting e" "\<And>r. k \<noteq> Sending t r"
  shows "ipc_ok (goto t k (clear_wait t s))"
proof (rule ipc_ok_local [OF ok, where t = t and k = k])
  show "tcbs (goto t k (clear_wait t s)) = (tcbs s)(t := (tcbs s t)\<lparr>t_kind := ipc_none, t_waiting := False, t_interruptible := False\<rparr>)"
    by (simp add: clear_wait_def end_interruptible_wait_def)
  show "place_ok (goto t k (clear_wait t s)) t" "wake_ok (goto t k (clear_wait t s)) t"
    using ipc_okD(8,10) [OF ok t(1)] t k by (auto simp: place_ok_def wake_ok_def clear_wait_def end_interruptible_wait_def)
qed (use t k in \<open>simp_all add: clear_wait_def end_interruptible_wait_def\<close>)

lemma submit_resume_ok:
  assumes ok: "ipc_ok s" and t: "t \<in> set (all_threads s)" "conts s t = Submitted" "t_state (tcbs s t) \<noteq> BLOCKED"
    and run: "submit_resume t s = (out, s')"
  shows "ipc_ok (settle t out s')"
proof -
  define s1 where "s1 = (if fatal_signal_pending (tcbs s t) \<and> t_peer (tcbs s t) \<noteq> None then complete t (-4) True s else s)"
  have s1: "ipc_ok s1" "all_threads s1 = all_threads s" "conts s1 = conts s" "t_state (tcbs s1 t) \<noteq> BLOCKED"
    "fatal_signal_pending (tcbs s1 t) = fatal_signal_pending (tcbs s t)"
    "fatal_signal_pending (tcbs s t) \<Longrightarrow> t_peer (tcbs s1 t) = None"
    using ok t(3) complete_ok [OF ok, of t _ "-4" True] complete_tcbs [OF ok, of t _ "-4" True]
    by (auto simp: s1_def PENDING_def after_complete_def fatal_signal_pending_def)
  have in1: "t \<in> set (all_threads s1)" "conts s1 t = Submitted"
    using t s1 by simp_all
  have pend: "t_peer (tcbs s1 t) \<noteq> None \<longleftrightarrow> t_result (tcbs s1 t) = PENDING"
    using ipc_okD(8) [OF s1(1) in1(1)] in1(2) by (simp add: place_ok_def)
  note run1 = run [unfolded submit_resume_def, folded s1_def, unfolded Let_def]
  show ?thesis
  proof (cases "t_result (tcbs s1 t) = PENDING")
    case False
    then have "s' = clear_wait t s1" "\<exists>e w. out = Return e \<or> out = Return_words w"
      using run1 by (auto split: if_splits)
    then show ?thesis
      using clear_wait_ok [OF s1(1) in1(1), of Running_user] False pend in1(2) s1(4) by auto
  next
    case True
    then have nf: "\<not> fatal_signal_pending (tcbs s1 t)"
      using pend s1(5,6) by auto
    then have "out = Next Submitted" "s' = upd t (\<lambda>r. r\<lparr>t_interruptible := True, t_state := BLOCKED\<rparr>) (end_interruptible_wait t s1)"
      using run1 True by (auto simp: begin_interruptible_wait_def end_interruptible_wait_def fatal_signal_pending_def)
    moreover have "ipc_ok (goto t Submitted (upd t (\<lambda>r. r\<lparr>t_interruptible := True, t_state := BLOCKED\<rparr>) (end_interruptible_wait t s1)))"
    proof (rule ipc_ok_local [OF s1(1), where t = t and k = Submitted])
      show "tcbs (goto t Submitted (upd t (\<lambda>r. r\<lparr>t_interruptible := True, t_state := BLOCKED\<rparr>) (end_interruptible_wait t s1))) =
          (tcbs s1)(t := (tcbs s1 t)\<lparr>t_interruptible := True, t_state := BLOCKED\<rparr>)"
        by (simp add: end_interruptible_wait_def)
    qed (use ipc_okD(8,10) [OF s1(1) in1(1)] in1 True pend nf in
        \<open>auto simp: place_ok_def wake_ok_def end_interruptible_wait_def fatal_signal_pending_def\<close>)
    ultimately show ?thesis
      by simp
  qed
qed

text \<open>Asynchronous messages.\<close>

definition async_put :: "ptr \<Rightarrow> message \<Rightarrow> nat \<Rightarrow> kernel \<Rightarrow> kernel" where
  "async_put p e n s =
    (let s = upd p (\<lambda>r. r\<lparr>t_async_queue := (t_async_queue r)(t_async_tail r := e), t_async_tail := n\<rparr>) s
     in if t_kind (tcbs s p) = legacy_receive then unblock p s else s)"

lemma async_put_ok:
  assumes ok: "ipc_ok s" and n: "n < ASYNC_QUEUE_SIZE"
  shows "ipc_ok (async_put p e n s)"
proof (rule ipc_ok_local [OF ok, where t = p and k = "conts s p"])
  show "tcbs (async_put p e n s) = (tcbs s)(p := (tcbs s p)
      \<lparr>t_async_queue := (t_async_queue (tcbs s p))(t_async_tail (tcbs s p) := e), t_async_tail := n,
       t_state := (if t_kind (tcbs s p) = legacy_receive then woken (t_state (tcbs s p)) else t_state (tcbs s p))\<rparr>)"
    by (simp add: async_put_def Let_def unblock_tcbs)
qed (use ipc_okD(8,10) [OF ok, of p] n in
    \<open>auto simp: async_put_def Let_def unblock_tcbs place_ok_def wake_ok_def fatal_signal_pending_def\<close>)

lemma send_async_locked_cases:
  assumes "send_async_locked t p m s = (out, s')"
  obtains (refused) e where "out = Return e" "e < 0" "s' = unpin p s"
  | (put) "out = Return 0" "\<not> ipc_shut t s" "\<not> ipc_shut p s"
      "(t_async_tail (tcbs s p) + 1) mod ASYNC_QUEUE_SIZE \<noteq> t_async_head (tcbs s p)"
      "s' = unpin p (async_put p \<lparr>m_sender = t_tid (tcbs s t), m_type = m_type m, m_data = m_data m\<rparr>
         ((t_async_tail (tcbs s p) + 1) mod ASYNC_QUEUE_SIZE) s)"
  using assms unfolding send_async_locked_def Let_def async_put_def by (auto split: if_splits)

lemma async_put_sel [simp]:
  "all_threads (async_put p e n s) = all_threads s" "conts (async_put p e n s) = conts s" "next_tid (async_put p e n s) = next_tid s"
  "sleepers (async_put p e n s) = sleepers s" "irq_waiters (async_put p e n s) = irq_waiters s"
  by (simp_all add: async_put_def Let_def)

lemma send_async_locked_ok:
  assumes ok: "ipc_ok s" and t: "t \<in> set (all_threads s)" "conts s t = Sending_async p m" and run: "send_async_locked t p m s = (out, s')"
  shows "ipc_ok (settle t out s')"
  using run
proof (cases rule: send_async_locked_cases)
  case (refused e)
  then show ?thesis
    using ipc_ok_unpin [OF ok t(1), of p] t(2) by simp
next
  case put
  let ?s = "async_put p \<lparr>m_sender = t_tid (tcbs s t), m_type = m_type m, m_data = m_data m\<rparr> ((t_async_tail (tcbs s p) + 1) mod ASYNC_QUEUE_SIZE) s"
  have "ipc_ok ?s"
    by (rule async_put_ok [OF ok]) (simp add: ASYNC_QUEUE_SIZE_def)
  then have "ipc_ok (goto t Running_user (unpin p ?s))"
    by (rule ipc_ok_unpin) (use t in simp_all)
  then show ?thesis
    using put by simp
qed

text \<open>Between points without a wait a thread moves freely.\<close>

fun plain :: "cont \<Rightarrow> bool" where
  "plain Running_user \<longleftrightarrow> True"
| "plain Receiving \<longleftrightarrow> True"
| "plain Accepting \<longleftrightarrow> True"
| "plain (Wait_child _ _) \<longleftrightarrow> True"
| "plain Other_sleep \<longleftrightarrow> True"
| "plain _ \<longleftrightarrow> False"

lemma plainD:
  assumes "plain k"
  shows "\<And>p. \<not> holds_pin p k" "\<And>x. kind_fits k x \<longleftrightarrow> x = ipc_none" "k \<noteq> Submitted" "\<not> sleeps k" "\<And>e. k \<noteq> Exiting e" "\<And>t r. k \<noteq> Sending t r"
  using assms by (cases k; simp)+

lemma goto_ok:
  assumes ok: "ipc_ok s" and k: "plain (conts s t)" "plain k"
  shows "ipc_ok (goto t k s)"
  by (rule ipc_ok_local [OF ok, where t = t and k = k and r = "tcbs s t"])
    (use ipc_okD(8,10) [OF ok, of t] plainD [OF k(1)] plainD [OF k(2)] in \<open>auto simp: place_ok_def wake_ok_def\<close>)

lemma sleep_ok:
  assumes ok: "ipc_ok s" and t: "t \<in> set (all_threads s)" "plain (conts s t)" "\<not> fatal_signal_pending (tcbs s t)"
    and k: "k = legacy_receive \<and> c = Receive_sleep \<and> t_async_head (tcbs s t) = t_async_tail (tcbs s t) \<and>
        (\<forall>u\<in>set (t_queue (tcbs s t)). t_kind (tcbs s u) \<noteq> legacy_send) \<or>
      k = receive_call \<and> c = Accept_sleep \<and> t_caller (tcbs s t) = None \<and> (\<forall>u\<in>set (t_queue (tcbs s t)). t_kind (tcbs s u) \<noteq> call)"
  shows "ipc_ok (goto t c (upd t (\<lambda>r. r\<lparr>t_kind := k, t_waiting := w\<rparr>) (upd t (\<lambda>r. r\<lparr>t_interruptible := True, t_state := BLOCKED\<rparr>) s)))"
proof (rule ipc_ok_local [OF ok, where t = t and k = c])
  let ?s = "goto t c (upd t (\<lambda>r. r\<lparr>t_kind := k, t_waiting := w\<rparr>) (upd t (\<lambda>r. r\<lparr>t_interruptible := True, t_state := BLOCKED\<rparr>) s))"
  show f: "tcbs ?s = (tcbs s)(t := (tcbs s t)\<lparr>t_interruptible := True, t_state := BLOCKED, t_kind := k, t_waiting := w\<rparr>)"
    by simp
  note d = ipc_okD(8) [OF ok t(1)] plainD [OF t(2)]
  have n: "t_peer (tcbs s t) = None" "t \<notin> set (t_queue (tcbs s t))"
    using d ipc_okD(2) [OF ok, of t t] by (auto simp: place_ok_def)
  then show "t_kind ((tcbs s t)\<lparr>t_interruptible := True, t_state := BLOCKED, t_kind := k, t_waiting := w\<rparr>) = t_kind (tcbs s t) \<or>
      t_peer ((tcbs s t)\<lparr>t_interruptible := True, t_state := BLOCKED, t_kind := k, t_waiting := w\<rparr>) = None"
    by simp
  show "place_ok ?s t"
    using d n k by (auto simp: place_ok_def f)
  have "t_kind (tcbs ?s u) = t_kind (tcbs s u)" if "u \<in> set (t_queue (tcbs s t))" for u
    using that n by (auto simp: f)
  then show "wake_ok ?s t"
    using k t(3) unfolding wake_ok_def by (auto simp: f fatal_signal_pending_def)
qed (use k plainD(1) [OF t(2)] in auto)

lemma served_own:
  assumes "served p s s'"
  shows "t_state (tcbs s' p) = t_state (tcbs s p)" "t_kind (tcbs s' p) = t_kind (tcbs s p)"
    "fatal_signal_pending (tcbs s' p) = fatal_signal_pending (tcbs s p)"
    "t_async_head (tcbs s' p) = t_async_head (tcbs s p)" "t_async_tail (tcbs s' p) = t_async_tail (tcbs s p)"
    "t_caller (tcbs s' p) = t_caller (tcbs s p)" "conts s' = conts s" "all_threads s' = all_threads s"
    "t_peer (tcbs s' p) = t_peer (tcbs s p)" "t_async_queue (tcbs s' p) = t_async_queue (tcbs s p)"
  using assms by (auto simp: served_def fatal_signal_pending_def)

lemma answerable_find:
  assumes ok: "ipc_ok s" and f: "find (answerable s k) (t_queue (tcbs s p)) = Some u" and "served p s s'"
  shows "t_peer (tcbs s u) = Some p" "u \<noteq> p" "tcbs s' u = tcbs s u" "t_kind (tcbs s u) = k" "\<not> fatal_signal_pending (tcbs s u)"
proof -
  have u: "u \<in> set (t_queue (tcbs s p))" "answerable s k u"
    using f by (auto simp: find_Some_iff)
  then show "t_peer (tcbs s u) = Some p" "u \<noteq> p" "t_kind (tcbs s u) = k" "\<not> fatal_signal_pending (tcbs s u)"
    using ipc_okD(2,7) [OF ok, of u p] by auto
  then show "tcbs s' u = tcbs s u"
    using assms(3) by (simp add: served_def)
qed

text \<open>A round of \<open>receive_sync\<close> returns or sleeps, with the invariant kept.\<close>

lemma receive_sync_ok:
  assumes ok: "ipc_ok s" and t: "t \<in> set (all_threads s)" "conts s t = Receiving"
  shows "\<exists>out s'. receive_sync t s = Some (out, s') \<and> ipc_ok (settle t out s')"
proof -
  have ret: "ipc_ok (goto t Running_user s1)" if "ipc_ok s1" "conts s1 = conts s" for s1
    using goto_ok [OF that(1), of t Running_user] that(2) t(2) by simp
  have kind: "t_kind (tcbs s t) = ipc_none"
    using ipc_okD(8) [OF ok t(1)] t(2) by (simp add: place_ok_def)
  consider "ipc_shut t s \<or> fatal_signal_pending (tcbs s t)"
    | (async) "\<not> ipc_shut t s" "\<not> fatal_signal_pending (tcbs s t)" "t_async_head (tcbs s t) \<noteq> t_async_tail (tcbs s t)"
    | (search) "\<not> ipc_shut t s" "\<not> fatal_signal_pending (tcbs s t)" "t_async_head (tcbs s t) = t_async_tail (tcbs s t)"
    by blast
  then show ?thesis
  proof cases
    case 1
    then show ?thesis
      using ret [OF ok] by (auto simp: receive_sync_def)
  next
    case async
    have "ipc_ok (upd t (\<lambda>r. r\<lparr>t_async_head := (t_async_head r + 1) mod ASYNC_QUEUE_SIZE\<rparr>) s)"
    proof (rule ipc_ok_local [OF ok, where t = t and k = "conts s t"])
      show "tcbs (upd t (\<lambda>r. r\<lparr>t_async_head := (t_async_head r + 1) mod ASYNC_QUEUE_SIZE\<rparr>) s) =
          (tcbs s)(t := (tcbs s t)\<lparr>t_async_head := (t_async_head (tcbs s t) + 1) mod ASYNC_QUEUE_SIZE\<rparr>)"
        by simp
    qed (use ipc_okD(8,10) [OF ok t(1)] kind in \<open>auto simp: place_ok_def wake_ok_def fatal_signal_pending_def ASYNC_QUEUE_SIZE_def\<close>)
    then show ?thesis
      using async kind by (simp add: receive_sync_def ret)
  next
    case search
    obtain s1 where s1: "first_request t legacy_send s = Some (find (answerable s legacy_send) (t_queue (tcbs s t)), s1)" "ipc_ok s1" "served t s s1"
      "find (answerable s legacy_send) (t_queue (tcbs s t)) = None \<longrightarrow> (\<forall>u\<in>set (t_queue (tcbs s1 t)). t_kind (tcbs s1 u) \<noteq> legacy_send)"
      by (rule first_request_ends [OF ok, of t legacy_send])
    note own = served_own [OF s1(3)]
    show ?thesis
    proof (cases "find (answerable s legacy_send) (t_queue (tcbs s t))")
      case None
      have "ipc_ok (goto t Receive_sleep (upd t (\<lambda>r. r\<lparr>t_kind := legacy_receive, t_waiting := t_waiting (tcbs s1 t)\<rparr>)
          (upd t (\<lambda>r. r\<lparr>t_interruptible := True, t_state := BLOCKED\<rparr>) s1)))"
        by (rule sleep_ok [OF s1(2)]) (use t own search s1(4) None in auto)
      moreover have "upd t (\<lambda>r. r\<lparr>t_kind := legacy_receive, t_waiting := t_waiting (tcbs s1 t)\<rparr>) (upd t (\<lambda>r. r\<lparr>t_interruptible := True, t_state := BLOCKED\<rparr>) s1) =
          upd t (\<lambda>r. r\<lparr>t_kind := legacy_receive\<rparr>) (upd t (\<lambda>r. r\<lparr>t_interruptible := True, t_state := BLOCKED\<rparr>) s1)"
        by (simp add: upd_def)
      ultimately show ?thesis
        using search kind None s1(1) own(3) by (simp add: receive_sync_def begin_interruptible_wait_def)
    next
      case (Some u)
      note u = answerable_find [OF ok Some s1(3)]
      have "ipc_ok (complete u 0 False s1)"
        by (rule complete_ok [OF s1(2), of u t]) (simp_all add: u PENDING_def)
      then show ?thesis
        using search kind Some s1(1) own(7) by (simp add: receive_sync_def ret)
    qed
  qed
qed

text \<open>Accepting a call moves it from the queue to the accepted slot.\<close>

definition accepted :: "ptr \<Rightarrow> ptr \<Rightarrow> kernel \<Rightarrow> kernel" where
  "accepted p u s = upd p (\<lambda>r. r\<lparr>t_caller := Some u\<rparr>) (unlink_request p u s)"

lemma accepted_sel [simp]:
  "all_threads (accepted p u s) = all_threads s" "conts (accepted p u s) = conts s" "next_tid (accepted p u s) = next_tid s"
  "sleepers (accepted p u s) = sleepers s" "irq_waiters (accepted p u s) = irq_waiters s"
  by (simp_all add: accepted_def unlink_request_def)

lemma accepted_tcbs:
  assumes "u \<in> set (t_queue (tcbs s p))"
  shows "tcbs (accepted p u s) =
    (tcbs s)(p := (tcbs s p)\<lparr>t_queue := remove1 u (t_queue (tcbs s p)), t_queue_count := t_queue_count (tcbs s p) - 1, t_caller := Some u\<rparr>)"
  using assms by (simp add: accepted_def unlink_request_def)

lemma accepted_ok:
  assumes ok: "ipc_ok s" and u: "u \<in> set (t_queue (tcbs s p))" "t_kind (tcbs s u) = call"
    and p: "t_caller (tcbs s p) = None" "t_state (tcbs s p) \<noteq> BLOCKED"
  shows "ipc_ok (accepted p u s)"
proof -
  note d = ipc_okD [OF ok]
  let ?s = "accepted p u s"
  note f = accepted_tcbs [OF u(1)]
  have pu: "t_peer (tcbs s u) = Some p" "u \<noteq> p"
    using u(1) d(2,7) by blast+
  have fields: "t_queue (tcbs ?s v) = (if v = p then remove1 u (t_queue (tcbs s p)) else t_queue (tcbs s v))"
    "t_queue_count (tcbs ?s v) = (if v = p then t_queue_count (tcbs s p) - 1 else t_queue_count (tcbs s v))"
    "t_caller (tcbs ?s v) = (if v = p then Some u else t_caller (tcbs s v))" "t_peer (tcbs ?s v) = t_peer (tcbs s v)"
    "t_kind (tcbs ?s v) = t_kind (tcbs s v)" "t_closed (tcbs ?s v) = t_closed (tcbs s v)" "t_state (tcbs ?s v) = t_state (tcbs s v)"
    "t_pins (tcbs ?s v) = t_pins (tcbs s v)" "t_result (tcbs ?s v) = t_result (tcbs s v)"
    "t_async_head (tcbs ?s v) = t_async_head (tcbs s v)" "t_async_tail (tcbs ?s v) = t_async_tail (tcbs s v)"
    "t_interruptible (tcbs ?s v) = t_interruptible (tcbs s v)" "fatal_signal_pending (tcbs ?s v) = fatal_signal_pending (tcbs s v)"
    "all_threads ?s = all_threads s" "conts ?s = conts s" for v
    by (auto simp: f fatal_signal_pending_def)
  have len: "length (t_queue (tcbs s p)) - 1 \<le> MAX_PENDING_REQUESTS"
    using d(6) [of p] by (rule le_trans [OF diff_le_self])
  have "link_ok ?s"
    unfolding link_ok_def fields
  proof (intro conjI allI impI)
    fix v w
    show "v \<in> set (if w = p then remove1 u (t_queue (tcbs s p)) else t_queue (tcbs s w)) \<longleftrightarrow>
        t_peer (tcbs s v) = Some w \<and> (if w = p then Some u else t_caller (tcbs s w)) \<noteq> Some v"
      using d(2) [of v w] d(4) [of p] p(1) by auto
    show "t_peer (tcbs s v) = Some w" "t_kind (tcbs s v) = call" if "(if w = p then Some u else t_caller (tcbs s w)) = Some v"
      using that d(3) [of w v] pu u(2) by (auto split: if_splits)
  qed (use d(4-7) len u(1) in \<open>auto simp: length_remove1\<close>)
  moreover have "pin_count ?s v = pin_count s v" for v
    by (rule pin_count_cong) (simp_all add: fields)
  moreover have "place_ok ?s v" if "v \<in> set (all_threads s)" for v
    using d(8) [OF that] unfolding place_ok_def fields .
  moreover have "wake_ok ?s v" if "v \<in> set (all_threads s)" for v
    using d(10) [OF that] p(2) unfolding wake_ok_def fields by auto
  ultimately show ?thesis
    using d(1,9) by (simp add: ipc_ok_def fields)
qed

lemma sys_ipc_wait_ok:
  assumes ok: "ipc_ok s" and t: "t \<in> set (all_threads s)" "conts s t = Accepting" "t_state (tcbs s t) \<noteq> BLOCKED"
  shows "\<exists>out s'. sys_ipc_wait t s = Some (out, s') \<and> ipc_ok (settle t out s')"
proof -
  have ret: "ipc_ok (goto t Running_user s1)" if "ipc_ok s1" "conts s1 = conts s" for s1
    using goto_ok [OF that(1), of t Running_user] that(2) t(2) by simp
  have kind: "t_kind (tcbs s t) = ipc_none"
    using ipc_okD(8) [OF ok t(1)] t(2) by (simp add: place_ok_def)
  consider "ipc_shut t s \<or> fatal_signal_pending (tcbs s t) \<or> t_caller (tcbs s t) \<noteq> None \<or> t_reply_cancelled (tcbs s t)"
    | (search) "\<not> ipc_shut t s" "\<not> fatal_signal_pending (tcbs s t)" "t_caller (tcbs s t) = None" "\<not> t_reply_cancelled (tcbs s t)"
    by blast
  then show ?thesis
  proof cases
    case 1
    then show ?thesis
      using ret [OF ok] kind by (auto simp: sys_ipc_wait_def)
  next
    case search
    obtain s1 where s1: "first_request t call s = Some (find (answerable s call) (t_queue (tcbs s t)), s1)" "ipc_ok s1" "served t s s1"
      "find (answerable s call) (t_queue (tcbs s t)) = None \<longrightarrow> (\<forall>u\<in>set (t_queue (tcbs s1 t)). t_kind (tcbs s1 u) \<noteq> call)"
      by (rule first_request_ends [OF ok, of t call])
    note own = served_own [OF s1(3)]
    show ?thesis
    proof (cases "find (answerable s call) (t_queue (tcbs s t))")
      case None
      have "ipc_ok (goto t Accept_sleep (upd t (\<lambda>r. r\<lparr>t_kind := receive_call, t_waiting := True\<rparr>)
          (upd t (\<lambda>r. r\<lparr>t_interruptible := True, t_state := BLOCKED\<rparr>) s1)))"
        by (rule sleep_ok [OF s1(2)]) (use t own search s1(4) None in auto)
      then show ?thesis
        using search kind None s1(1) own(3) by (simp add: sys_ipc_wait_def begin_interruptible_wait_def)
    next
      case (Some u)
      note u = answerable_find [OF ok Some s1(3)]
      have "u \<in> set (t_queue (tcbs s1 t))"
        using ipc_okD(2) [OF s1(2), of u t] u own search(3) by simp
      then have "ipc_ok (accepted t u s1)"
        by (rule accepted_ok [OF s1(2)]) (use u own t(3) search(3) in simp_all)
      then show ?thesis
        using search kind Some s1(1) own(7) by (simp add: sys_ipc_wait_def Let_def accepted_def [symmetric] ret)
    qed
  qed
qed

lemma upd_regs_ok:
  assumes "ipc_ok s"
  shows "ipc_ok (upd t (save_regs m) s)"
proof (rule ipc_ok_local [OF assms, where t = t and k = "conts s t"])
  show "tcbs (upd t (save_regs m) s) = (tcbs s)(t := save_regs m (tcbs s t))"
    by simp
qed (use ipc_okD(8,10) [OF assms, of t] in \<open>auto simp: place_ok_def wake_ok_def save_regs_def fatal_signal_pending_def\<close>)

lemma reply_cancelled_ok:
  assumes "ipc_ok s"
  shows "ipc_ok (upd t (\<lambda>r. r\<lparr>t_reply_cancelled := b\<rparr>) s)"
proof (rule ipc_ok_local [OF assms, where t = t and k = "conts s t"])
  show "tcbs (upd t (\<lambda>r. r\<lparr>t_reply_cancelled := b\<rparr>) s) = (tcbs s)(t := (tcbs s t)\<lparr>t_reply_cancelled := b\<rparr>)"
    by simp
qed (use ipc_okD(8,10) [OF assms, of t] in \<open>auto simp: place_ok_def wake_ok_def fatal_signal_pending_def\<close>)

lemma sys_ipc_reply_ok:
  assumes ok: "ipc_ok s" and run: "sys_ipc_reply t m s = (e, s')"
  shows "ipc_ok s' \<and> conts s' = conts s \<and> all_threads s' = all_threads s"
proof (cases "t_caller (tcbs s t)")
  case None
  then show ?thesis
    using run ok reply_cancelled_ok [OF ok, of t False] by (auto simp: sys_ipc_reply_def split: if_splits)
next
  case (Some c)
  then have c: "t_peer (tcbs s c) = Some t" "t_peer (tcbs (upd c (save_regs m) s) c) = Some t"
    using ipc_okD(3) [OF ok] by (auto simp: save_regs_def)
  have "ipc_ok (complete c (-4) True s)" "ipc_ok (complete c 0 False (upd c (save_regs m) s))"
    by (rule complete_ok [OF ok c(1)], simp add: PENDING_def, rule complete_ok [OF upd_regs_ok [OF ok] c(2)], simp add: PENDING_def)
  then show ?thesis
    using run ok Some reply_cancelled_ok by (auto simp: sys_ipc_reply_def split: if_splits)
qed

text \<open>The end of a thread: it is closed first and then gives up its requests.  Closing it afterwards has
  the same effect, and in between the invariant holds.\<close>

abbreviation shut :: "ptr \<Rightarrow> kernel \<Rightarrow> kernel" where
  "shut t \<equiv> upd t (\<lambda>r. r\<lparr>t_closed := True\<rparr>)"

lemma after_complete_shut:
  assumes "u \<noteq> p"
  shows "after_complete u p r c (f(p := (f p)\<lparr>t_closed := True\<rparr>)) = (after_complete u p r c f)(p := (after_complete u p r c f p)\<lparr>t_closed := True\<rparr>)"
proof (rule ext)
  fix v
  show "after_complete u p r c (f(p := (f p)\<lparr>t_closed := True\<rparr>)) v = ((after_complete u p r c f)(p := (after_complete u p r c f p)\<lparr>t_closed := True\<rparr>)) v"
  proof (cases "v = p")
    case True
    show ?thesis
      by (rule tcb.equality) (use True assms in \<open>simp_all add: after_complete_def\<close>)
  qed (use assms in \<open>simp add: after_complete_def\<close>)
qed

lemma complete_shut:
  assumes ok: "ipc_ok s" and u: "t_peer (tcbs s u) = Some p"
  shows "complete u r False (shut p s) = shut p (complete u r False s)"
proof (rule kernel.equality)
  have up: "u \<noteq> p"
    using ipc_okD(7) [OF ok u] by simp
  have "tcbs (complete u r False (shut p s)) = after_complete u p r False (tcbs (shut p s))"
    by (rule complete_fields) (use u up ipc_okD(2,5) [OF ok] in auto)
  then show "tcbs (complete u r False (shut p s)) = tcbs (shut p (complete u r False s))"
    using after_complete_shut [OF up, of r False "tcbs s"] complete_tcbs [OF ok u, of r False] by simp
qed simp_all

lemma complete_all_ends:
  assumes "ipc_ok s" and "length (t_queue (tcbs s p)) \<le> n"
  shows "\<exists>s'. complete_all n p (shut p s) = Some (shut p s') \<and> ipc_ok s' \<and> t_queue (tcbs s' p) = [] \<and>
    conts s' = conts s \<and> all_threads s' = all_threads s \<and> t_caller (tcbs s' p) = t_caller (tcbs s p) \<and>
    t_peer (tcbs s' p) = t_peer (tcbs s p) \<and> t_kind (tcbs s' p) = t_kind (tcbs s p) \<and> t_state (tcbs s' p) = t_state (tcbs s p)"
  using assms
proof (induction n arbitrary: s)
  case 0
  then show ?case
    by auto
next
  case (Suc n)
  show ?case
  proof (cases "t_queue (tcbs s p)")
    case Nil
    then show ?thesis
      using Suc.prems(1) by auto
  next
    case (Cons u q)
    then have u: "t_peer (tcbs s u) = Some p" "t_caller (tcbs s p) \<noteq> Some u" "u \<noteq> p"
      using ipc_okD(2,7) [OF Suc.prems(1), of u p] by auto
    let ?s = "complete u (-32) False s"
    note f = complete_tcbs [OF Suc.prems(1) u(1), of "-32" False]
    have "ipc_ok ?s"
      by (rule complete_ok [OF Suc.prems(1) u(1)]) (simp add: PENDING_def)
    moreover have "length (t_queue (tcbs ?s p)) \<le> n"
      using Suc.prems(2) Cons u(3) by (simp add: f after_complete_def)
    ultimately obtain s' where "complete_all n p (shut p ?s) = Some (shut p s') \<and> ipc_ok s' \<and> t_queue (tcbs s' p) = [] \<and>
        conts s' = conts ?s \<and> all_threads s' = all_threads ?s \<and> t_caller (tcbs s' p) = t_caller (tcbs ?s p) \<and>
        t_peer (tcbs s' p) = t_peer (tcbs ?s p) \<and> t_kind (tcbs s' p) = t_kind (tcbs ?s p) \<and> t_state (tcbs s' p) = t_state (tcbs ?s p)"
      using Suc.IH by blast
    moreover have "complete_all (Suc n) p (shut p s) = complete_all n p (shut p ?s)"
      using Cons complete_shut [OF Suc.prems(1) u(1)] by simp
    ultimately show ?thesis
      using u by (intro exI [of _ s']) (simp add: f after_complete_def del: complete_all.simps)
  qed
qed

lemma detach_thread_ends:
  assumes ok: "ipc_ok s" and t: "t \<in> set (all_threads s)" "conts s t = Running_user"
  shows "\<exists>s'. detach_thread t s = Some s' \<and> ipc_ok (goto t (Exiting e) s') \<and> conts s' = conts s \<and> all_threads s' = all_threads s \<and>
    t_closed (tcbs s' t) \<and> t_state (tcbs s' t) = t_state (tcbs s t)"
proof -
  note d = ipc_okD(8) [OF ok t(1), unfolded place_ok_def t(2)]
  obtain s1 where s1: "complete_all (length (t_queue (tcbs s t))) t (shut t s) = Some (shut t s1) \<and> ipc_ok s1 \<and> t_queue (tcbs s1 t) = [] \<and>
    conts s1 = conts s \<and> all_threads s1 = all_threads s \<and> t_caller (tcbs s1 t) = t_caller (tcbs s t) \<and>
    t_peer (tcbs s1 t) = t_peer (tcbs s t) \<and> t_kind (tcbs s1 t) = t_kind (tcbs s t) \<and> t_state (tcbs s1 t) = t_state (tcbs s t)"
    using complete_all_ends [OF ok order_refl] by blast
  define s2 where "s2 = (case t_caller (tcbs s1 t) of None \<Rightarrow> s1 | Some c \<Rightarrow> complete c (-32) False s1)"
  have s2: "ipc_ok s2 \<and> t_queue (tcbs s2 t) = [] \<and> t_caller (tcbs s2 t) = None \<and> t_peer (tcbs s2 t) = None \<and> conts s2 = conts s \<and>
      all_threads s2 = all_threads s \<and> t_kind (tcbs s2 t) = ipc_none \<and> t_state (tcbs s2 t) = t_state (tcbs s t) \<and>
      (case t_caller (tcbs s1 t) of None \<Rightarrow> shut t s1 | Some c \<Rightarrow> complete c (-32) False (shut t s1)) = shut t s2"
  proof (cases "t_caller (tcbs s1 t)")
    case None
    then show ?thesis
      using s1 d by (auto simp: s2_def)
  next
    case (Some c)
    then have c: "t_peer (tcbs s1 c) = Some t" "c \<noteq> t"
      using s1 ipc_okD(3,7) by blast+
    have ok1: "ipc_ok s1"
      using s1 by simp
    have "ipc_ok (complete c (-32) False s1)"
      by (rule complete_ok [OF ok1 c(1)]) (simp add: PENDING_def)
    moreover have "s2 = complete c (-32) False s1"
      by (simp add: s2_def Some)
    moreover have "t_caller (tcbs s t) = Some c"
      using s1 Some by simp
    ultimately show ?thesis
      using s1 d c complete_shut [OF ok1 c(1)]
      by (simp add: complete_tcbs [OF ok1 c(1)] after_complete_def)
  qed
  let ?f = "\<lambda>r. r\<lparr>t_reply_cancelled := False, t_async_head := 0, t_async_tail := 0\<rparr>"
  have det: "detach_thread t s = Some (upd t ?f (shut t s2))"
    using s1 s2 d by (simp add: detach_thread_def Let_def split: option.splits)
  have "ipc_ok (goto t (Exiting e) (upd t ?f (shut t s2)))"
  proof (rule ipc_ok_local [where s = s2 and t = t and k = "Exiting e"])
    show "tcbs (goto t (Exiting e) (upd t ?f (shut t s2))) =
        (tcbs s2)(t := (tcbs s2 t)\<lparr>t_closed := True, t_reply_cancelled := False, t_async_head := 0, t_async_tail := 0\<rparr>)"
      by simp
  qed (use s2 t ipc_okD(10) [of s2 t] in \<open>auto simp: place_ok_def wake_ok_def fatal_signal_pending_def ASYNC_QUEUE_SIZE_def\<close>)
  then show ?thesis
    using det s2 by simp
qed

end
