(* ===== verification/Process.thy ===== *)
theory Process
  imports Ipc
begin

text \<open>The life of threads (src/src/kernel/scheduler/scheduler.cpp, src/src/kernel/process): creation, credentials, timed
  and interrupt waits, signals that end a thread, exit, \<open>waitpid\<close> and reaping.  The step relation \<open>kstep\<close>
  interleaves the system calls of all threads, each resumed at the point where it gave up the processor,
  with clock ticks, interrupts, wake-ups from other parts of the kernel and the reaper.

  File descriptors, address spaces and stacks are released by calls into other components, which do
  not touch this state.  What those components contribute to a decision is an argument: whether memory can
  be allocated, whether the image of a program could be loaded, and whether a terminated thread is
  off all processors and its page tables are inactive.\<close>

section \<open>Credentials\<close>

definition is_privileged :: "credentials \<Rightarrow> bool" where
  "is_privileged c \<longleftrightarrow> euid c = ROOT_UID"

definition upd_creds :: "ptr \<Rightarrow> (credentials \<Rightarrow> credentials) \<Rightarrow> kernel \<Rightarrow> kernel" where
  "upd_creds t f = upd t (\<lambda>r. r\<lparr>t_creds := f (t_creds r)\<rparr>)"

definition raw_io_allowed :: "ptr \<Rightarrow> kernel \<Rightarrow> bool" where
  "raw_io_allowed t s \<longleftrightarrow> has_capability (t_creds (tcbs s t)) CAP_RAW_IO"

definition sys_getuid :: "ptr \<Rightarrow> kernel \<Rightarrow> int" where
  "sys_getuid t s = int (ruid (t_creds (tcbs s t)))"

definition sys_geteuid :: "ptr \<Rightarrow> kernel \<Rightarrow> int" where
  "sys_geteuid t s = int (euid (t_creds (tcbs s t)))"

definition sys_getgid :: "ptr \<Rightarrow> kernel \<Rightarrow> int" where
  "sys_getgid t s = int (rgid (t_creds (tcbs s t)))"

definition sys_getegid :: "ptr \<Rightarrow> kernel \<Rightarrow> int" where
  "sys_getegid t s = int (egid (t_creds (tcbs s t)))"

definition sys_setuid :: "ptr \<Rightarrow> nat \<Rightarrow> kernel \<Rightarrow> int \<times> kernel" where
  "sys_setuid t uid s =
    (let c = t_creds (tcbs s t) in
     if is_privileged c then
       (0, upd_creds t (\<lambda>c. c\<lparr>ruid := uid, euid := uid, suid := uid, capabilities := (if uid \<noteq> ROOT_UID then 0 else capabilities c)\<rparr>) s)
     else if uid = ruid c \<or> uid = suid c then (0, upd_creds t (\<lambda>c. c\<lparr>euid := uid\<rparr>) s)
     else (-1, s))"

definition sys_seteuid :: "ptr \<Rightarrow> nat \<Rightarrow> kernel \<Rightarrow> int \<times> kernel" where
  "sys_seteuid t uid s =
    (let c = t_creds (tcbs s t) in
     if is_privileged c \<or> uid = ruid c \<or> uid = suid c then
       (0, upd_creds t (\<lambda>c. c\<lparr>euid := uid, capabilities := (if uid \<noteq> ROOT_UID then 0 else capabilities c)\<rparr>) s)
     else (-1, s))"

definition sys_setgid :: "ptr \<Rightarrow> nat \<Rightarrow> kernel \<Rightarrow> int \<times> kernel" where
  "sys_setgid t gid s =
    (let c = t_creds (tcbs s t) in
     if is_privileged c then (0, upd_creds t (\<lambda>c. c\<lparr>rgid := gid, egid := gid, sgid := gid\<rparr>) s)
     else if gid = rgid c \<or> gid = sgid c then (0, upd_creds t (\<lambda>c. c\<lparr>egid := gid\<rparr>) s)
     else (-1, s))"

definition sys_setegid :: "ptr \<Rightarrow> nat \<Rightarrow> kernel \<Rightarrow> int \<times> kernel" where
  "sys_setegid t gid s =
    (let c = t_creds (tcbs s t) in
     if is_privileged c \<or> gid = rgid c \<or> gid = sgid c then (0, upd_creds t (\<lambda>c. c\<lparr>egid := gid\<rparr>) s)
     else (-1, s))"

definition named_thread :: "ptr \<Rightarrow> int \<Rightarrow> kernel \<Rightarrow> ptr option" where
  "named_thread t pid s = (if pid = 0 then Some t else if pid > 0 then find_thread (to_uint32 pid) s else None)"

definition sys_getsid :: "ptr \<Rightarrow> int \<Rightarrow> kernel \<Rightarrow> int" where
  "sys_getsid t pid s = (case named_thread t pid s of Some u \<Rightarrow> int (sid (t_creds (tcbs s u))) | None \<Rightarrow> -1)"

definition sys_setsid :: "ptr \<Rightarrow> kernel \<Rightarrow> int \<times> kernel" where
  "sys_setsid t s =
    (let i = t_tid (tcbs s t) in
     if pgid (t_creds (tcbs s t)) = i then (-1, s) else (int i, upd_creds t (\<lambda>c. c\<lparr>sid := i, pgid := i\<rparr>) s))"

definition sys_getpgid :: "ptr \<Rightarrow> int \<Rightarrow> kernel \<Rightarrow> int" where
  "sys_getpgid t pid s = (case named_thread t pid s of Some u \<Rightarrow> int (pgid (t_creds (tcbs s u))) | None \<Rightarrow> -1)"

definition sys_setpgid :: "ptr \<Rightarrow> int \<Rightarrow> nat \<Rightarrow> kernel \<Rightarrow> int \<times> kernel" where
  "sys_setpgid t pid new_group s =
    (let target = (if pid = 0 \<or> to_uint32 pid = t_tid (tcbs s t) then Some t
                   else if pid > 0 \<and> is_privileged (t_creds (tcbs s t)) then find_thread (to_uint32 pid) s
                   else None)
     in case target of
          None \<Rightarrow> (-1, s)
        | Some u \<Rightarrow>
            if sid (t_creds (tcbs s u)) \<noteq> sid (t_creds (tcbs s t)) then (-1, s)
            else (0, upd_creds u (\<lambda>c. c\<lparr>pgid := (if new_group = 0 then t_tid (tcbs s u) else new_group)\<rparr>) s))"

section \<open>Creation\<close>

definition no_message :: message where
  "no_message = \<lparr>m_sender = 0, m_type = 0, m_data = [0, 0, 0, 0]\<rparr>"

text \<open>What \<open>new thread()\<close> leaves.\<close>

definition zero_tcb :: tcb where
  "zero_tcb =
    \<lparr>t_tid = 0, t_state = READY, t_pml4 = 0,
     t_creds = \<lparr>ruid = 0, euid = 0, suid = 0, rgid = 0, egid = 0, sgid = 0, sid = 0, pgid = 0, capabilities = 0\<rparr>,
     t_queue = [], t_queued_msg = no_message, t_has_queued_msg = False, t_caller = None, t_regs = (\<lambda>_. 0), t_waiting = False,
     t_async_queue = (\<lambda>_. no_message), t_async_head = 0, t_async_tail = 0, t_user_entry = 0, t_sig_handlers = (\<lambda>_. 0),
     t_sig_restorers = (\<lambda>_. 0), t_sig_mask = 0, t_sig_pending = 0, t_exit_code = 0, t_exited = False, t_process_id = 0,
     t_parent_tid = 0, t_wait_target = 0, t_waiting_for_child = False, t_wake_tick = 0, t_interruptible = False, t_pins = 0,
     t_closed = False, t_kind = ipc_none, t_peer = None, t_queue_count = 0, t_result = 0, t_reply_cancelled = False\<rparr>"

definition link_thread :: "ptr \<Rightarrow> tcb \<Rightarrow> kernel \<Rightarrow> kernel" where
  "link_thread a r s = s\<lparr>tcbs := (tcbs s)(a := r), all_threads := a # all_threads s, conts := (conts s)(a := Running_user)\<rparr>"

definition fetch_tid :: "kernel \<Rightarrow> nat \<times> kernel" where
  "fetch_tid s = (wadd 32 (next_tid s) 1, s\<lparr>next_tid := wadd 32 (next_tid s) 1\<rparr>)"

text \<open>A kernel thread at address \<open>a\<close>.\<close>

definition spawn :: "ptr \<Rightarrow> nat \<Rightarrow> kernel \<Rightarrow> kernel" where
  "spawn a tid s =
    add_thread a (link_thread a (zero_tcb\<lparr>t_tid := tid, t_creds := root_credentials tid tid, t_process_id := tid, t_wait_target := -1\<rparr>) s)"

definition spawn_user :: "ptr \<Rightarrow> ptr option \<Rightarrow> nat \<Rightarrow> nat \<Rightarrow> nat \<Rightarrow> bool \<Rightarrow> bool \<Rightarrow> bool \<Rightarrow> kernel \<Rightarrow> bool \<times> kernel" where
  "spawn_user a parent pml4 entry tid queue_it mem mm s =
    (if \<not> mem then (False, s)
     else let (tid, s) = (if tid = 0 then fetch_tid s else (tid, s));
         c = (case parent of Some p \<Rightarrow> t_creds (tcbs s p) | None \<Rightarrow> root_credentials tid tid);
         c = (if sid c = 0 then c\<lparr>sid := tid\<rparr> else c);
         c = (if pgid c = 0 then c\<lparr>pgid := tid\<rparr> else c);
         r = zero_tcb\<lparr>t_tid := tid, t_pml4 := pml4, t_creds := c, t_user_entry := entry, t_process_id := tid,
               t_parent_tid := (case parent of Some p \<Rightarrow> t_process_id (tcbs s p) | None \<Rightarrow> 0), t_wait_target := -1\<rparr>
     in if pml4 \<noteq> 0 \<and> \<not> mm then (False, s)
        else (True, let s = link_thread a r s in if queue_it then add_thread a s else s))"

text \<open>\<open>fds\<close> is the result of copying the descriptors of the parent, \<open>stack\<close> says that the return slot on the user
  stack could be written, \<open>mem\<close> and \<open>kstack\<close> that the record and the kernel stack could be allocated.\<close>

definition sys_clone :: "ptr \<Rightarrow> ptr \<Rightarrow> nat \<Rightarrow> bool \<Rightarrow> bool \<Rightarrow> bool \<Rightarrow> int \<Rightarrow> kernel \<Rightarrow> int \<times> kernel" where
  "sys_clone a parent entry stack mem kstack fds s =
    (if \<not> stack then (-14, s)
     else if \<not> mem then (-12, s)
     else
       let (tid, s) = fetch_tid s in
       if \<not> kstack then (-12, s)
       else if fds < 0 then (fds, s)
       else
         let p = tcbs s parent;
             r = zero_tcb\<lparr>t_tid := tid, t_pml4 := t_pml4 p, t_creds := t_creds p, t_user_entry := entry,
                   t_process_id := t_process_id p, t_parent_tid := t_process_id p, t_wait_target := -1\<rparr>
         in (int tid, add_thread a (link_thread a r s)))"

definition grants_raw_io :: "string \<Rightarrow> bool" where
  "grants_raw_io path \<longleftrightarrow> path = ''/bin/console'' \<or> path = ''/bin/kbd''"

text \<open>\<open>img\<close> is the outcome of resolving the path, reading and loading the file and mapping the stack.\<close>

definition spawn_path :: "ptr \<Rightarrow> ptr option \<Rightarrow> string \<Rightarrow> nat \<Rightarrow> int + nat \<times> nat \<Rightarrow> bool \<Rightarrow> bool \<Rightarrow> kernel \<Rightarrow> int \<times> kernel" where
  "spawn_path a parent path tid img mem mm s =
    (case img of
       Inl e \<Rightarrow> (e, s)
     | Inr (pml4, entry) \<Rightarrow>
         (case spawn_user a parent pml4 entry tid False mem mm s of
            (False, s) \<Rightarrow> (-1, s)
          | (True, s) \<Rightarrow>
              let s = upd_creds a (\<lambda>c. c\<lparr>capabilities := capabilities c AND NOT CAP_RAW_IO\<rparr>) s;
                  s = (if grants_raw_io path then upd_creds a (\<lambda>c. c\<lparr>capabilities := capabilities c OR CAP_RAW_IO\<rparr>) s else s)
              in (int (t_tid (tcbs s a)), add_thread a s)))"

section \<open>Timed waits and interrupts\<close>

definition insert_sleeper :: "ptr \<Rightarrow> nat \<Rightarrow> kernel \<Rightarrow> kernel" where
  "insert_sleeper t tick s =
    s\<lparr>sleepers := takeWhile (\<lambda>u. t_wake_tick (tcbs s u) \<le> tick) (sleepers s) @ t # dropWhile (\<lambda>u. t_wake_tick (tcbs s u) \<le> tick) (sleepers s)\<rparr>"

definition sleep_until :: "ptr \<Rightarrow> nat \<Rightarrow> nat \<Rightarrow> kernel \<Rightarrow> outcome \<times> kernel" where
  "sleep_until t tick now s =
    (if tick > now then
       case begin_interruptible_wait t s of
         (False, s) \<Rightarrow> (Return 0, s)
       | (True, s) \<Rightarrow> (Next Tick_sleep, insert_sleeper t tick (upd t (\<lambda>r. r\<lparr>t_wake_tick := tick\<rparr>) s))
     else (Return 0, s))"

definition sleep_resume :: "ptr \<Rightarrow> kernel \<Rightarrow> outcome \<times> kernel" where
  "sleep_resume t s =
    (let s = s\<lparr>sleepers := remove1 t (sleepers s)\<rparr>
     in (Return 0, end_interruptible_wait t (upd t (\<lambda>r. r\<lparr>t_wake_tick := 0\<rparr>) s)))"

fun wake_due :: "nat \<Rightarrow> ptr list \<Rightarrow> kernel \<Rightarrow> kernel" where
  "wake_due now [] s = s"
| "wake_due now (u # us) s =
    (if t_wake_tick (tcbs s u) \<le> now then wake_due now us (unblock u (upd u (\<lambda>r. r\<lparr>t_wake_tick := 0\<rparr>) (s\<lparr>sleepers := us\<rparr>)))
     else s)"

definition check_sleepers :: "nat \<Rightarrow> kernel \<Rightarrow> kernel" where
  "check_sleepers now s = wake_due now (sleepers s) s"

definition wait_for_irq :: "ptr \<Rightarrow> nat \<Rightarrow> kernel \<Rightarrow> outcome \<times> kernel" where
  "wait_for_irq t irq s =
    (case begin_interruptible_wait t s of
       (False, s) \<Rightarrow> (Return 0, s)
     | (True, s) \<Rightarrow> (Next (Irq_sleep irq), s\<lparr>irq_waiters := (irq_waiters s)(irq := Some t)\<rparr>))"

definition irq_resume :: "ptr \<Rightarrow> nat \<Rightarrow> kernel \<Rightarrow> outcome \<times> kernel" where
  "irq_resume t irq s =
    (let s = (if irq_waiters s irq = Some t then s\<lparr>irq_waiters := (irq_waiters s)(irq := None)\<rparr> else s)
     in (Return 0, end_interruptible_wait t s))"

definition wake_irq_waiters :: "nat \<Rightarrow> kernel \<Rightarrow> kernel" where
  "wake_irq_waiters irq s =
    (let waiter = irq_waiters s irq;
         s = s\<lparr>irq_waiters := (irq_waiters s)(irq := None)\<rparr>
     in case waiter of None \<Rightarrow> s | Some t \<Rightarrow> unblock t s)"

section \<open>Termination\<close>

definition to_int32 :: "nat \<Rightarrow> int" where
  "to_int32 n = (if n mod 2 ^ 32 < 2 ^ 31 then int (n mod 2 ^ 32) else int (n mod 2 ^ 32) - 2 ^ 32)"

definition publish_termination :: "ptr \<Rightarrow> int \<Rightarrow> kernel \<Rightarrow> kernel" where
  "publish_termination child status s =
    (let s = upd child (\<lambda>r. r\<lparr>t_exit_code := status, t_exited := True, t_state := TERMINATED\<rparr>) s;
         parent = t_parent_tid (tcbs s child)
     in if parent = 0 then s
        else case find (\<lambda>w. t_process_id (tcbs s w) = parent \<and> t_waiting_for_child (tcbs s w) \<and>
                            (t_wait_target (tcbs s w) = -1 \<or> t_wait_target (tcbs s w) = to_int32 (t_tid (tcbs s child))))
                  (all_threads s) of
               None \<Rightarrow> s
             | Some w \<Rightarrow> unblock w (upd w (\<lambda>r. r\<lparr>t_waiting_for_child := False\<rparr>) s))"

definition exit_thread :: "ptr \<Rightarrow> int \<Rightarrow> kernel \<Rightarrow> (outcome \<times> kernel) option" where
  "exit_thread t status s = map_option (Pair (Next (Exiting (status mod 256 * 256)))) (detach_thread t s)"

text \<open>\<open>depth\<close> is \<open>kernel_depth\<close>: a thread is only ended outside its kernel operations.\<close>

definition consume_fatal_signal :: "nat \<Rightarrow> ptr \<Rightarrow> kernel \<Rightarrow> (bool \<times> kernel) option" where
  "consume_fatal_signal depth t s =
    (let r = tcbs s t in
     if t_user_entry r = 0 \<or> t_state r = TERMINATED \<or> depth \<noteq> 0 then Some (False, s)
     else
       let mask = t_sig_mask r AND NOT (push_bit (nat SIGKILL_VAL) 1);
           pending = t_sig_pending r AND NOT mask;
           fatal_sig = (if pending AND push_bit (nat SIGKILL_VAL) 1 \<noteq> 0 then SIGKILL_VAL
                        else if pending AND push_bit (nat SIGTERM_VAL) 1 \<noteq> 0 then SIGTERM_VAL else 0)
       in if fatal_sig = 0 then Some (False, s)
          else map_option (\<lambda>s. (True, goto t (Exiting fatal_sig)
                 (upd t (\<lambda>r. r\<lparr>t_sig_pending := t_sig_pending r AND NOT (push_bit (nat fatal_sig) 1)\<rparr>) s))) (detach_thread t s))"

definition can_reap :: "(ptr \<Rightarrow> bool) \<Rightarrow> ptr \<Rightarrow> kernel \<Rightarrow> bool" where
  "can_reap idle t s \<longleftrightarrow> t_state (tcbs s t) = TERMINATED \<and> t_pins (tcbs s t) = 0 \<and> idle t"

definition destroy_thread :: "ptr \<Rightarrow> kernel \<Rightarrow> kernel option" where
  "destroy_thread t s =
    map_option (\<lambda>s. s\<lparr>irq_waiters := (\<lambda>i. if irq_waiters s i = Some t then None else irq_waiters s i), sleepers := remove1 t (sleepers s)\<rparr>)
      (detach_thread t s)"

definition reap_thread :: "(ptr \<Rightarrow> bool) \<Rightarrow> ptr \<Rightarrow> kernel \<Rightarrow> kernel option" where
  "reap_thread idle t s =
    (if \<not> can_reap idle t s then Some (upd t (\<lambda>r. r\<lparr>t_parent_tid := 0\<rparr>) s)
     else destroy_thread t (s\<lparr>all_threads := remove1 t (all_threads s)\<rparr>))"

fun cleanup_loop :: "(ptr \<Rightarrow> bool) \<Rightarrow> ptr option \<Rightarrow> ptr list \<Rightarrow> kernel \<Rightarrow> kernel option" where
  "cleanup_loop idle this [] s = Some s"
| "cleanup_loop idle this (t # ts) s =
    (if t_state (tcbs s t) = TERMINATED \<and> this \<noteq> Some t \<and>
        \<not> (\<not> can_reap idle t s \<or> (t_process_id (tcbs s t) = t_tid (tcbs s t) \<and> t_parent_tid (tcbs s t) \<noteq> 0 \<and>
                                  find_thread (t_parent_tid (tcbs s t)) s \<noteq> None))
     then case destroy_thread t (s\<lparr>all_threads := remove1 t (all_threads s)\<rparr>) of
            None \<Rightarrow> None
          | Some s \<Rightarrow> cleanup_loop idle this ts s
     else cleanup_loop idle this ts s)"

definition cleanup_terminated :: "(ptr \<Rightarrow> bool) \<Rightarrow> ptr option \<Rightarrow> kernel \<Rightarrow> kernel option" where
  "cleanup_terminated idle this s = cleanup_loop idle this (all_threads s) s"

definition is_child :: "ptr \<Rightarrow> int \<Rightarrow> kernel \<Rightarrow> ptr \<Rightarrow> bool" where
  "is_child t pid s c \<longleftrightarrow>
     t_parent_tid (tcbs s c) = t_process_id (tcbs s t) \<and> t_process_id (tcbs s c) = t_tid (tcbs s c) \<and> c \<noteq> t \<and>
     (pid = -1 \<or> to_uint32 pid = t_tid (tcbs s c))"

definition sys_waitpid :: "int \<Rightarrow> int \<Rightarrow> outcome" where
  "sys_waitpid pid options =
    (if (options \<noteq> 0 \<and> options \<noteq> 1) \<or> pid = 0 \<or> pid < -1 then Return (-22) else Next (Wait_child pid options))"

text \<open>One round of the loop of \<open>sys_waitpid\<close>, up to its return or its sleep.\<close>

definition waitpid_round :: "(ptr \<Rightarrow> bool) \<Rightarrow> ptr \<Rightarrow> int \<Rightarrow> int \<Rightarrow> kernel \<Rightarrow> (outcome \<times> kernel) option" where
  "waitpid_round idle t pid options s =
    (let s = upd t (\<lambda>r. r\<lparr>t_waiting_for_child := False, t_wait_target := -1\<rparr>) s in
     if fatal_signal_pending (tcbs s t) then Some (Return (-4), s)
     else
       case find (\<lambda>c. is_child t pid s c \<and> t_state (tcbs s c) = TERMINATED) (all_threads s) of
         Some c \<Rightarrow> map_option (Pair (Return_child (t_tid (tcbs s c)) (t_exit_code (tcbs s c)))) (reap_thread idle c s)
       | None \<Rightarrow>
           if \<not> list_ex (is_child t pid s) (all_threads s) then Some (Return (-10), s)
           else if options = 1 then Some (Return 0, s)
           else
             case begin_interruptible_wait t s of
               (False, s) \<Rightarrow> Some (Return (-4), s)
             | (True, s) \<Rightarrow> Some (Next (Child_sleep pid options), upd t (\<lambda>r. r\<lparr>t_wait_target := pid, t_waiting_for_child := True\<rparr>) s))"

definition waitpid_resume :: "ptr \<Rightarrow> int \<Rightarrow> int \<Rightarrow> kernel \<Rightarrow> outcome \<times> kernel" where
  "waitpid_resume t pid options s =
    (Next (Wait_child pid options),
     end_interruptible_wait t (upd t (\<lambda>r. r\<lparr>t_waiting_for_child := False, t_wait_target := -1\<rparr>) s))"

section \<open>Steps\<close>

text \<open>The system calls.  \<open>Block\<close> stands for the waits of the rest of the kernel, with or without interruption
  by signals; the first argument of \<open>Clone\<close> and \<open>Spawn\<close> is the address the allocator returns.\<close>

datatype syscall =
    Send nat message
  | Send_async nat message
  | Receive
  | Call nat fast_msg
  | Accept
  | Reply fast_msg
  | Kill int int
  | Sigaction int "(nat \<times> nat) option"
  | Sigprocmask int "32 word option"
  | Setuid nat
  | Seteuid nat
  | Setgid nat
  | Setegid nat
  | Setsid
  | Setpgid int nat
  | Sleep nat nat
  | Wait_irq nat
  | Waitpid int int
  | Clone ptr nat bool bool bool int
  | Spawn ptr string "int + nat \<times> nat" bool bool
  | Exit int
  | Block bool

definition returns :: "int \<times> kernel \<Rightarrow> (outcome \<times> kernel) option" where
  "returns p = Some (Return (fst p), snd p)"

definition allowed :: "ptr \<Rightarrow> nat \<Rightarrow> (kernel \<Rightarrow> outcome \<times> kernel) \<Rightarrow> kernel \<Rightarrow> (outcome \<times> kernel) option" where
  "allowed t tid f s = (case ipc_send_allowed t tid s of (ok, s) \<Rightarrow> Some (if ok then f s else (Return (-1), s)))"

definition block :: "ptr \<Rightarrow> bool \<Rightarrow> kernel \<Rightarrow> outcome \<times> kernel" where
  "block t interruptible s =
    (if interruptible then
       case begin_interruptible_wait t s of (False, s) \<Rightarrow> (Return (-4), s) | (True, s) \<Rightarrow> (Next Event_sleep, s)
     else (Next Other_sleep, upd t (\<lambda>r. r\<lparr>t_state := BLOCKED\<rparr>) s))"

fun enter :: "(ptr \<Rightarrow> bool) \<Rightarrow> ptr \<Rightarrow> syscall \<Rightarrow> kernel \<Rightarrow> (outcome \<times> kernel) option" where
  "enter idle t (Send i m) s = allowed t i (send_sync t i m) s"
| "enter idle t (Send_async i m) s = Some (send_async t i m s)"
| "enter idle t Receive s = Some (Next Receiving, s)"
| "enter idle t (Call i m) s = allowed t i (sys_ipc_call t i m) s"
| "enter idle t Accept s = Some (Next Accepting, s)"
| "enter idle t (Reply m) s = returns (sys_ipc_reply t m s)"
| "enter idle t (Kill pid sig) s = returns (sys_kill t pid sig s)"
| "enter idle t (Sigaction sig act) s = (case sys_sigaction t sig act s of (e, _, s) \<Rightarrow> Some (Return e, s))"
| "enter idle t (Sigprocmask how m) s = (case sys_sigprocmask t how m s of (e, _, s) \<Rightarrow> Some (Return e, s))"
| "enter idle t (Setuid u) s = returns (sys_setuid t u s)"
| "enter idle t (Seteuid u) s = returns (sys_seteuid t u s)"
| "enter idle t (Setgid g) s = returns (sys_setgid t g s)"
| "enter idle t (Setegid g) s = returns (sys_setegid t g s)"
| "enter idle t Setsid s = returns (sys_setsid t s)"
| "enter idle t (Setpgid pid g) s = returns (sys_setpgid t pid g s)"
| "enter idle t (Sleep tick now) s = Some (sleep_until t tick now s)"
| "enter idle t (Wait_irq i) s = Some (if raw_io_allowed t s then wait_for_irq t i s else (Return (-1), s))"
| "enter idle t (Waitpid pid opts) s = Some (sys_waitpid pid opts, s)"
| "enter idle t (Clone a entry stack mem kstack fds) s = returns (sys_clone a t entry stack mem kstack fds s)"
| "enter idle t (Spawn a path img mem mm) s = returns (spawn_path a (Some t) path 0 img mem mm s)"
| "enter idle t (Exit status) s = exit_thread t status s"
| "enter idle t (Block b) s = Some (block t b s)"

definition resume_at :: "(ptr \<Rightarrow> bool) \<Rightarrow> ptr \<Rightarrow> kernel \<Rightarrow> (outcome \<times> kernel) option" where
  "resume_at idle t s =
    (case conts s t of
       Running_user \<Rightarrow> None
     | Sending p req \<Rightarrow> Some (submit_locked t p req s)
     | Sending_async p m \<Rightarrow> Some (send_async_locked t p m s)
     | Submitted \<Rightarrow> Some (submit_resume t s)
     | Receiving \<Rightarrow> receive_sync t s
     | Receive_sleep \<Rightarrow> Some (Next Receiving, clear_wait t s)
     | Accepting \<Rightarrow> sys_ipc_wait t s
     | Accept_sleep \<Rightarrow> Some (Next Accepting, clear_wait t s)
     | Wait_child pid opts \<Rightarrow> waitpid_round idle t pid opts s
     | Child_sleep pid opts \<Rightarrow> Some (waitpid_resume t pid opts s)
     | Tick_sleep \<Rightarrow> Some (sleep_resume t s)
     | Irq_sleep i \<Rightarrow> Some (irq_resume t i s)
     | Event_sleep \<Rightarrow> Some (Return 0, end_interruptible_wait t s)
     | Other_sleep \<Rightarrow> Some (Return 0, s)
     | Exiting status \<Rightarrow> Some (Next (Exiting status), publish_termination t status s))"

definition can_run :: "ptr \<Rightarrow> kernel \<Rightarrow> bool" where
  "can_run t s \<longleftrightarrow> t \<in> set (all_threads s) \<and> (t_state (tcbs s t) = READY \<or> t_state (tcbs s t) = RUNNING)"

fun fresh_for :: "syscall \<Rightarrow> kernel \<Rightarrow> bool" where
  "fresh_for (Clone a _ _ _ _ _) s \<longleftrightarrow> a \<notin> set (all_threads s)"
| "fresh_for (Spawn a _ _ _ _) s \<longleftrightarrow> a \<notin> set (all_threads s)"
| "fresh_for _ s \<longleftrightarrow> True"

text \<open>A step by a thread, \<open>Some t\<close>, or by the kernel itself.\<close>

inductive kstep :: "ptr option \<Rightarrow> outcome \<Rightarrow> kernel \<Rightarrow> kernel \<Rightarrow> bool" where
  syscall: "can_run t s \<Longrightarrow> conts s t = Running_user \<Longrightarrow> fresh_for sc s \<Longrightarrow> enter idle t sc s = Some (out, s') \<Longrightarrow>
    kstep (Some t) out s (settle t out s')"
| resume: "can_run t s \<Longrightarrow> resume_at idle t s = Some (out, s') \<Longrightarrow> kstep (Some t) out s (settle t out s')"
| killed: "can_run t s \<Longrightarrow> conts s t = Running_user \<Longrightarrow> consume_fatal_signal 0 t s = Some (True, s') \<Longrightarrow> kstep None (Return 0) s s'"
| tick: "kstep None (Return 0) s (check_sleepers now s)"
| irq: "kstep None (Return 0) s (wake_irq_waiters i s)"
| wake: "kstep None (Return 0) s (unblock t s)"
| switch_in: "t_state (tcbs s t) = READY \<Longrightarrow> kstep None (Return 0) s (upd t (\<lambda>r. r\<lparr>t_state := RUNNING\<rparr>) s)"
| switch_out: "t_state (tcbs s t) = RUNNING \<Longrightarrow> kstep None (Return 0) s (upd t (\<lambda>r. r\<lparr>t_state := READY\<rparr>) s)"
| cleanup: "cleanup_terminated idle this s = Some s' \<Longrightarrow> kstep None (Return 0) s s'"
| boot_thread: "a \<notin> set (all_threads s) \<Longrightarrow> kstep None (Return 0) s (spawn a i s)"
| boot_program: "a \<notin> set (all_threads s) \<Longrightarrow> spawn_path a None path i img mem mm s = (e, s') \<Longrightarrow> kstep None (Return e) s s'"

definition boot_kernel :: kernel where
  "boot_kernel = \<lparr>tcbs = (\<lambda>_. zero_tcb), all_threads = [], next_tid = 1000, sleepers = [], irq_waiters = (\<lambda>_. None), conts = (\<lambda>_. Running_user)\<rparr>"

inductive kreachable :: "kernel \<Rightarrow> bool" where
  boot: "kreachable boot_kernel"
| step: "kreachable s \<Longrightarrow> kstep a out s s' \<Longrightarrow> kreachable s'"

section \<open>The IPC invariant\<close>

text \<open>The fields the invariant of message passing reads.\<close>

definition ipc_view :: "tcb \<Rightarrow> _" where
  "ipc_view r =
    ((t_queue r, t_queue_count r, t_caller r, t_peer r, t_pins r, t_closed r, t_kind r, t_result r),
     (t_async_head r, t_async_tail r, t_state r, t_interruptible r, fatal_signal_pending r))"

lemma ipc_viewD:
  assumes "ipc_view r = ipc_view r'"
  shows "t_queue r = t_queue r'" "t_queue_count r = t_queue_count r'" "t_caller r = t_caller r'" "t_peer r = t_peer r'" "t_pins r = t_pins r'"
    "t_closed r = t_closed r'" "t_kind r = t_kind r'" "t_result r = t_result r'" "t_async_head r = t_async_head r'"
    "t_async_tail r = t_async_tail r'" "t_state r = t_state r'" "t_interruptible r = t_interruptible r'"
    "fatal_signal_pending r = fatal_signal_pending r'"
  using assms by (simp_all add: ipc_view_def)

lemma ipc_ok_view:
  assumes "ipc_ok s" and "\<And>u. ipc_view (tcbs s' u) = ipc_view (tcbs s u)" and "conts s' = conts s" and "all_threads s' = all_threads s"
  shows "ipc_ok s'"
proof -
  note v = ipc_viewD [OF assms(2)]
  have "place_ok s' u = place_ok s u" "wake_ok s' u = wake_ok s u" "pin_count s' u = pin_count s u" for u
    by (simp_all add: place_ok_def wake_ok_def pin_count_def v assms(3,4))
  moreover have "link_ok s' = link_ok s"
    by (simp add: link_ok_def v assms(4))
  ultimately show ?thesis
    using assms(1) by (simp add: ipc_ok_def v assms(4))
qed

text \<open>A step of a thread outside message passing: it moves between points where no request is pending.\<close>

fun quiet :: "cont \<Rightarrow> bool" where
  "quiet (Child_sleep _ _) \<longleftrightarrow> True"
| "quiet Tick_sleep \<longleftrightarrow> True"
| "quiet (Irq_sleep _) \<longleftrightarrow> True"
| "quiet Event_sleep \<longleftrightarrow> True"
| "quiet k \<longleftrightarrow> plain k"

lemma quietD:
  assumes "quiet k"
  shows "\<And>p. \<not> holds_pin p k" "\<And>x. kind_fits k x \<longleftrightarrow> x = ipc_none" "k \<noteq> Submitted" "\<And>e. k \<noteq> Exiting e" "\<And>t r. k \<noteq> Sending t r"
  using assms by (cases k; simp)+

lemma plain_quiet: "plain k \<Longrightarrow> quiet k"
  by (cases k) simp_all

lemma ipc_ok_move:
  assumes ok: "ipc_ok s" and tcbs: "tcbs s' = (tcbs s)(t := r)" and conts: "conts s' = (conts s)(t := k)" and all: "all_threads s' = all_threads s"
    and quiet: "quiet (conts s t)" "quiet k"
    and same: "t_queue r = t_queue (tcbs s t)" "t_queue_count r = t_queue_count (tcbs s t)" "t_caller r = t_caller (tcbs s t)"
      "t_peer r = t_peer (tcbs s t)" "t_pins r = t_pins (tcbs s t)" "t_closed r = t_closed (tcbs s t)" "t_kind r = t_kind (tcbs s t)"
      "t_async_head r = t_async_head (tcbs s t)" "t_async_tail r = t_async_tail (tcbs s t)"
    and state: "t_state r = TERMINATED \<Longrightarrow> t_state (tcbs s t) = TERMINATED" "t_state r = BLOCKED \<Longrightarrow> sleeps k \<Longrightarrow> \<not> fatal_signal_pending r"
      "sleeps k \<Longrightarrow> t_interruptible r"
  shows "ipc_ok s'"
proof (rule ipc_ok_local [OF ok tcbs conts all same(1-5)])
  note q = quietD [OF quiet(1)] quietD [OF quiet(2)]
  show "holds_pin p k = holds_pin p (conts s t)" for p
    using q by simp
  assume t: "t \<in> set (all_threads s)"
  note d = ipc_okD(8) [OF ok t, unfolded place_ok_def]
  show "place_ok s' t"
    unfolding place_ok_def tcbs conts using d q same state(1) by auto
  have "t_kind r = ipc_none"
    using d q same(7) by simp
  then show "wake_ok s' t"
    unfolding wake_ok_def tcbs conts using q state by simp
qed (use same in simp_all)

lemma ipc_ok_move_upd:
  assumes "ipc_ok s" and "quiet (conts s t)" "quiet k"
    and "ipc_view ((f (tcbs s t))\<lparr>t_state := t_state (tcbs s t), t_interruptible := t_interruptible (tcbs s t)\<rparr>) = ipc_view (tcbs s t)"
    and "t_state (f (tcbs s t)) = TERMINATED \<Longrightarrow> t_state (tcbs s t) = TERMINATED"
      "t_state (f (tcbs s t)) = BLOCKED \<Longrightarrow> sleeps k \<Longrightarrow> \<not> fatal_signal_pending (f (tcbs s t))"
      "sleeps k \<Longrightarrow> t_interruptible (f (tcbs s t))"
  shows "ipc_ok (goto t k (upd t f s))"
proof (rule ipc_ok_move [OF assms(1)])
  show "tcbs (goto t k (upd t f s)) = (tcbs s)(t := f (tcbs s t))" "conts (goto t k (upd t f s)) = (conts s)(t := k)"
    "all_threads (goto t k (upd t f s)) = all_threads s"
    by simp_all
qed (use assms(2-7) in \<open>simp_all add: ipc_view_def\<close>)

text \<open>Threads that appear and disappear.\<close>

lemma link_thread_ok:
  assumes ok: "ipc_ok s" and a: "a \<notin> set (all_threads s)"
    and r: "ipc_view r = ipc_view zero_tcb"
  shows "ipc_ok (link_thread a r s)"
proof -
  note d = ipc_okD [OF ok]
  let ?s = "link_thread a r s"
  have z: "t_queue r = []" "t_queue_count r = 0" "t_caller r = None" "t_peer r = None" "t_pins r = 0" "\<not> t_closed r" "t_kind r = ipc_none"
    "t_async_head r = 0" "t_async_tail r = 0" "t_state r = READY" "\<not> t_interruptible r"
    using ipc_viewD [OF r] by (simp_all add: zero_tcb_def)
  have "t_peer (tcbs s a) \<noteq> Some p" for p
    using a d(7) [of a p] by auto
  then have old1: "t_peer (tcbs s a) = None" "t_peer (tcbs s u) \<noteq> Some a" for u
    using a d(7) [of u a] by auto
  have old2: "u \<notin> set (t_queue (tcbs s a))" "t_caller (tcbs s a) \<noteq> Some u" "a \<notin> set (t_queue (tcbs s u))" "t_caller (tcbs s u) \<noteq> Some a" for u
    using old1 d(2) [of u a] d(3) [of a u] d(2) [of a u] d(3) [of u a] by auto
  have "set (t_queue (tcbs s a)) = {}"
    by (rule equals0I) (simp add: old2(1))
  then have old: "t_queue (tcbs s a) = []" "t_caller (tcbs s a) = None"
    using old2(2) by auto
  have f: "tcbs ?s = (tcbs s)(a := r)" "conts ?s = (conts s)(a := Running_user)" "all_threads ?s = a # all_threads s"
    by (simp_all add: link_thread_def)
  have nopin: "\<not> holds_pin a (conts s u)" if "u \<in> set (all_threads s)" for u
    using d(8) [OF that] a by (auto simp: place_ok_def)
  have peers: "t_peer (tcbs ?s u) = t_peer (tcbs s u)" for u
    using old1(1) z by (simp add: f)
  have "{u \<in> set (all_threads ?s). holds_pin v (conts ?s u)} = {u \<in> set (all_threads s). holds_pin v (conts s u)}" for v
    using a by (auto simp: f)
  then have pins: "pin_count ?s v = pin_count s v" for v
    by (simp add: pin_count_def peers)
  have "pin_count s a = 0"
    using old1 nopin by (simp add: pin_count_def)
  moreover have "link_ok ?s"
    unfolding link_ok_def f using d(2-7) old old1 old2 z by (auto simp: MAX_PENDING_REQUESTS_def)
  moreover have "place_ok ?s u" if "u \<in> set (all_threads ?s)" for u
    using that d(8) [of u] z a by (auto simp: place_ok_def f ASYNC_QUEUE_SIZE_def)
  moreover have "wake_ok ?s u" if "u \<in> set (all_threads ?s)" for u
    using that d(10) [of u] z old2(3) [of u] by (auto simp: wake_ok_def f)
  ultimately show ?thesis
    using d(1,9) a z by (auto simp: ipc_ok_def pins f)
qed

lemma unlink_thread_ok:
  assumes ok: "ipc_ok s" and t: "t \<in> set (all_threads s)" "t_state (tcbs s t) = TERMINATED" "t_pins (tcbs s t) = 0"
  shows "ipc_ok (s\<lparr>all_threads := remove1 t (all_threads s)\<rparr>)"
proof -
  note d = ipc_okD [OF ok]
  let ?s = "s\<lparr>all_threads := remove1 t (all_threads s)\<rparr>"
  have cnt: "pin_count s t = 0"
    using d(9) [OF t(1)] t(3) by simp
  then have free: "t_peer (tcbs s t) = None" "\<And>u. t_peer (tcbs s u) \<noteq> Some t" "\<And>u. u \<in> set (all_threads s) \<Longrightarrow> \<not> holds_pin t (conts s u)"
    using finite_peers [of s t] ok by (auto simp: pin_count_def ipc_ok_def split: if_splits)
  have all: "set (all_threads ?s) = set (all_threads s) - {t}"
    using d(1) by simp
  have ex: "\<exists>e. conts s t = Exiting e"
    using d(8) [OF t(1)] t(2) by (auto simp: place_ok_def)
  have "{u \<in> set (all_threads ?s). holds_pin v (conts s u)} = {u \<in> set (all_threads s). holds_pin v (conts s u)}" for v
    using ex unfolding all by auto
  then have pins: "pin_count ?s v = pin_count s v" for v
    by (simp add: pin_count_def)
  have "link_ok ?s"
    using ok free d(1) by (auto simp: ipc_ok_def link_ok_def)
  moreover have "place_ok ?s u" if "u \<in> set (all_threads s)" "u \<noteq> t" for u
    using d(8) [OF that(1)] free(3) [OF that(1)] d(1) by (auto simp: place_ok_def)
  moreover have "wake_ok ?s u = wake_ok s u" for u
    by (simp add: wake_ok_def)
  ultimately show ?thesis
    using d(1,9,10) by (auto simp: ipc_ok_def pins)
qed

lemma ipc_send_allowed_same: "ipc_send_allowed t i s = (b, s') \<Longrightarrow> s' = s"
proof (cases "pin_thread i s")
  case (Pair r s1)
  assume "ipc_send_allowed t i s = (b, s')"
  then show ?thesis
    using Pair pin_thread_None [of i s s1] pin_threadD [of i s _ s1]
    by (cases r) (auto simp: ipc_send_allowed_def unpin_def pin_def upd_def)
qed

definition posted :: "ptr \<Rightarrow> int \<Rightarrow> tcb \<Rightarrow> tcb" where
  "posted u sig r = r\<lparr>t_sig_pending := t_sig_pending r OR push_bit (nat sig) 1\<rparr>"

lemma posted_sel [simp]:
  "t_queue (posted u sig r) = t_queue r" "t_queue_count (posted u sig r) = t_queue_count r" "t_caller (posted u sig r) = t_caller r"
  "t_peer (posted u sig r) = t_peer r" "t_pins (posted u sig r) = t_pins r" "t_closed (posted u sig r) = t_closed r"
  "t_kind (posted u sig r) = t_kind r" "t_result (posted u sig r) = t_result r" "t_async_head (posted u sig r) = t_async_head r"
  "t_async_tail (posted u sig r) = t_async_tail r" "t_state (posted u sig r) = t_state r" "t_interruptible (posted u sig r) = t_interruptible r"
  "t_regs (posted u sig r) = t_regs r" "t_creds (posted u sig r) = t_creds r" "t_exit_code (posted u sig r) = t_exit_code r"
  "t_wake_tick (posted u sig r) = t_wake_tick r"
  by (simp_all add: posted_def)

lemma post_signal_cases:
  assumes "post_signal u sig s = (e, s')"
  obtains (none) "s' = s"
  | (stays) "s' = upd u (posted u sig) s" "\<not> (fatal_signal_pending (posted u sig (tcbs s u)) \<and> t_interruptible (tcbs s u) \<and> t_state (tcbs s u) = BLOCKED)"
  | (wakes) "s' = add_thread u (upd u (posted u sig) s)" "t_state (tcbs s u) = BLOCKED"
proof -
  have eq: "upd u (\<lambda>r. r\<lparr>t_sig_pending := t_sig_pending r OR push_bit (nat sig) 1\<rparr>) s = upd u (posted u sig) s"
    by (simp add: posted_def upd_def)
  show ?thesis
    using assms that unfolding post_signal_def Let_def eq by (auto split: if_splits)
qed

lemma post_signal_ok:
  assumes ok: "ipc_ok s" and run: "post_signal u sig s = (e, s')"
  shows "ipc_ok s' \<and> conts s' = conts s \<and> all_threads s' = all_threads s"
  using run
proof (cases rule: post_signal_cases)
  case none
  then show ?thesis
    using ok by simp
next
  case stays
  have "ipc_ok s'"
  proof (rule ipc_ok_local [OF ok, where t = u and k = "conts s u" and r = "posted u sig (tcbs s u)"])
    assume u: "u \<in> set (all_threads s)"
    show "place_ok s' u" "wake_ok s' u"
      using ipc_okD(8,10) [OF ok u] stays(2) by (auto simp: place_ok_def wake_ok_def stays(1))
  qed (simp_all add: stays(1))
  then show ?thesis
    by (simp add: stays(1))
next
  case wakes
  have "ipc_ok s'"
  proof (rule ipc_ok_local [OF ok, where t = u and k = "conts s u" and r = "(posted u sig (tcbs s u))\<lparr>t_state := READY\<rparr>"])
    show "tcbs s' = (tcbs s)(u := (posted u sig (tcbs s u))\<lparr>t_state := READY\<rparr>)"
      using wakes(2) by (simp add: wakes(1) add_thread_def)
    assume u: "u \<in> set (all_threads s)"
    show "place_ok s' u" "wake_ok s' u"
      using ipc_okD(8,10) [OF ok u] wakes(2) by (auto simp: place_ok_def wake_ok_def wakes(1) add_thread_def)
  qed (simp_all add: wakes(1) add_thread_def)
  then show ?thesis
    by (simp add: wakes(1) add_thread_def)
qed

lemma sys_kill_ok:
  assumes "ipc_ok s" and "sys_kill t pid sig s = (e, s')"
  shows "ipc_ok s' \<and> conts s' = conts s \<and> all_threads s' = all_threads s"
  using assms post_signal_ok [OF assms(1)]
  by (auto simp: sys_kill_def signal_thread_def split: if_splits option.splits)

lemma upd_creds_view: "ipc_view (tcbs (upd_creds t f s) u) = ipc_view (tcbs s u)"
  by (simp add: upd_creds_def ipc_view_def fatal_signal_pending_def)

lemma upd_creds_ok:
  assumes "ipc_ok s"
  shows "ipc_ok (upd_creds t f s) \<and> conts (upd_creds t f s) = conts s \<and> all_threads (upd_creds t f s) = all_threads s"
  using ipc_ok_view [OF assms, of "upd_creds t f s"] by (simp add: upd_creds_view) (simp add: upd_creds_def)

lemma cred_calls_ok:
  assumes "ipc_ok s"
  shows "ipc_ok (snd (sys_setuid t u s)) \<and> conts (snd (sys_setuid t u s)) = conts s"
    "ipc_ok (snd (sys_seteuid t u s)) \<and> conts (snd (sys_seteuid t u s)) = conts s"
    "ipc_ok (snd (sys_setgid t u s)) \<and> conts (snd (sys_setgid t u s)) = conts s"
    "ipc_ok (snd (sys_setegid t u s)) \<and> conts (snd (sys_setegid t u s)) = conts s"
    "ipc_ok (snd (sys_setsid t s)) \<and> conts (snd (sys_setsid t s)) = conts s"
    "ipc_ok (snd (sys_setpgid t pid u s)) \<and> conts (snd (sys_setpgid t pid u s)) = conts s"
  using assms upd_creds_ok [OF assms]
  by (auto simp: sys_setuid_def sys_seteuid_def sys_setgid_def sys_setegid_def sys_setsid_def sys_setpgid_def Let_def split: option.splits)

lemma add_thread_ok:
  assumes "ipc_ok s"
  shows "ipc_ok (add_thread t s)"
proof (rule ipc_ok_local [OF assms, where t = t and k = "conts s t"])
  show "tcbs (add_thread t s) = (tcbs s)(t := (tcbs s t)\<lparr>t_state := woken (t_state (tcbs s t))\<rparr>)"
    by (simp add: add_thread_def)
  assume "t \<in> set (all_threads s)"
  then show "place_ok (add_thread t s) t" "wake_ok (add_thread t s) t"
    using ipc_okD(8,10) [OF assms, of t] by (auto simp: place_ok_def wake_ok_def add_thread_def)
qed (simp_all add: add_thread_def)

lemma add_thread_sel [simp]:
  "all_threads (add_thread t s) = all_threads s" "conts (add_thread t s) = conts s" "sleepers (add_thread t s) = sleepers s"
  "irq_waiters (add_thread t s) = irq_waiters s" "next_tid (add_thread t s) = next_tid s"
  by (simp_all add: add_thread_def)

text \<open>Creation: a new thread is at the head of the list and everything else is as before.\<close>

definition created :: "ptr \<Rightarrow> kernel \<Rightarrow> kernel \<Rightarrow> bool" where
  "created a s s' \<longleftrightarrow>
     ipc_ok s' \<and> all_threads s' = a # all_threads s \<and> conts s' = (conts s)(a := Running_user) \<and> (\<forall>u. u \<noteq> a \<longrightarrow> tcbs s' u = tcbs s u) \<and>
     sleepers s' = sleepers s \<and> irq_waiters s' = irq_waiters s"

lemma fetch_tid_ok: "ipc_ok s \<Longrightarrow> ipc_ok (s\<lparr>next_tid := n\<rparr>)"
  by (rule ipc_ok_view) simp_all

lemma created_link:
  assumes "ipc_ok s" and "a \<notin> set (all_threads s)" and "ipc_view r = ipc_view zero_tcb"
  shows "created a s (link_thread a r (s\<lparr>next_tid := n\<rparr>))" "created a s (add_thread a (link_thread a r (s\<lparr>next_tid := n\<rparr>)))"
proof -
  have "ipc_ok (link_thread a r (s\<lparr>next_tid := n\<rparr>))"
    by (rule link_thread_ok [OF fetch_tid_ok [OF assms(1)]]) (use assms in simp_all)
  then show "created a s (link_thread a r (s\<lparr>next_tid := n\<rparr>))" "created a s (add_thread a (link_thread a r (s\<lparr>next_tid := n\<rparr>)))"
    using add_thread_ok by (auto simp: created_def link_thread_def add_thread_def)
qed

lemma created_creds: "created a s s' \<Longrightarrow> created a s (upd_creds a f s')"
  using upd_creds_ok [of s' a f] by (auto simp: created_def upd_creds_def)

lemma created_add: "created a s s' \<Longrightarrow> created a s (add_thread a s')"
  using add_thread_ok [of s' a] by (auto simp: created_def add_thread_def)

lemma zero_view [simp]:
  "ipc_view (zero_tcb\<lparr>t_tid := i, t_pml4 := p, t_creds := c, t_user_entry := e, t_process_id := j, t_parent_tid := k, t_wait_target := w\<rparr>) = ipc_view zero_tcb"
  "ipc_view (zero_tcb\<lparr>t_tid := i, t_creds := c, t_process_id := j, t_wait_target := w\<rparr>) = ipc_view zero_tcb"
  by (simp_all add: ipc_view_def fatal_signal_pending_def)

lemma same_next_tid: "s\<lparr>next_tid := next_tid s\<rparr> = s"
  by simp

lemma spawn_created:
  assumes "ipc_ok s" and "a \<notin> set (all_threads s)"
  shows "created a s (spawn a i s)"
  using created_link(2) [OF assms, of _ "next_tid s"] by (simp add: spawn_def)

lemma spawn_user_created:
  assumes "ipc_ok s" and "a \<notin> set (all_threads s)" and "spawn_user a parent pml4 entry i q mem mm s = (b, s')"
  shows "if b then created a s s' else (\<exists>n. s' = s\<lparr>next_tid := n\<rparr>)"
proof -
  have n: "\<exists>n. s = s\<lparr>next_tid := n\<rparr>"
    by (rule exI [of _ "next_tid s"]) simp
  show ?thesis
    using assms(3) n created_link [OF assms(1,2)] created_link [OF assms(1,2), of _ "next_tid s"]
    by (auto simp: spawn_user_def fetch_tid_def Let_def split: if_splits prod.splits)
qed

lemma spawn_path_created:
  assumes "ipc_ok s" and "a \<notin> set (all_threads s)" and "spawn_path a parent path i img mem mm s = (e, s')"
  shows "created a s s' \<or> (\<exists>n. s' = s\<lparr>next_tid := n\<rparr>)"
proof -
  have n: "\<exists>n. s = s\<lparr>next_tid := n\<rparr>"
    by (rule exI [of _ "next_tid s"]) simp
  show ?thesis
    using assms(3) n spawn_user_created [OF assms(1,2)]
    by (auto simp: spawn_path_def Let_def intro!: created_add created_creds split: sum.splits prod.splits bool.splits if_splits)
qed

lemma sys_clone_created:
  assumes "ipc_ok s" and "a \<notin> set (all_threads s)" and "sys_clone a parent entry stack mem kstack fds s = (e, s')"
  shows "created a s s' \<or> (\<exists>n. s' = s\<lparr>next_tid := n\<rparr>)"
proof -
  have n: "\<exists>n. s = s\<lparr>next_tid := n\<rparr>"
    by (rule exI [of _ "next_tid s"]) simp
  show ?thesis
    using assms(3) n created_link [OF assms(1,2)] by (auto simp: sys_clone_def fetch_tid_def Let_def split: if_splits)
qed

text \<open>The waits outside message passing.\<close>

lemma begin_wait_ok:
  assumes ok: "ipc_ok s" and t: "quiet (conts s t)" "quiet k" "\<not> fatal_signal_pending (tcbs s t)"
    and f: "\<And>r. ipc_view (f r) = ipc_view r"
  shows "ipc_ok (goto t k (upd t f (upd t (\<lambda>r. r\<lparr>t_interruptible := True, t_state := BLOCKED\<rparr>) s)))"
proof (rule ipc_ok_move [OF ok, where k = k])
  let ?r = "f ((tcbs s t)\<lparr>t_interruptible := True, t_state := BLOCKED\<rparr>)"
  show "tcbs (goto t k (upd t f (upd t (\<lambda>r. r\<lparr>t_interruptible := True, t_state := BLOCKED\<rparr>) s))) = (tcbs s)(t := ?r)"
    by simp
  note v = ipc_viewD [OF f [of "(tcbs s t)\<lparr>t_interruptible := True, t_state := BLOCKED\<rparr>"]]
  show "\<not> fatal_signal_pending ?r"
    using v(13) t(3) by (simp add: fatal_signal_pending_def)
qed (use t ipc_viewD [OF f [of "(tcbs s t)\<lparr>t_interruptible := True, t_state := BLOCKED\<rparr>"]] in simp_all)

lemma end_wait_ok:
  assumes ok: "ipc_ok s" and t: "quiet (conts s t)" "plain k" "t_state (tcbs s t) \<noteq> BLOCKED" and f: "\<And>r. ipc_view (f r) = ipc_view r"
  shows "ipc_ok (goto t k (end_interruptible_wait t (upd t f s)))"
proof (rule ipc_ok_move [OF ok, where k = k])
  show "tcbs (goto t k (end_interruptible_wait t (upd t f s))) = (tcbs s)(t := (f (tcbs s t))\<lparr>t_interruptible := False\<rparr>)"
    by (simp add: end_interruptible_wait_def)
qed (use t plainD(4) [OF t(2)] plain_quiet ipc_viewD [OF f [of "tcbs s t"]] in \<open>simp_all add: end_interruptible_wait_def\<close>)

lemma view_misc [simp]:
  "ipc_view (r\<lparr>t_wake_tick := n\<rparr>) = ipc_view r" "ipc_view (r\<lparr>t_wait_target := i, t_waiting_for_child := b\<rparr>) = ipc_view r"
  "ipc_view (r\<lparr>t_waiting_for_child := b, t_wait_target := i\<rparr>) = ipc_view r" "ipc_view (r\<lparr>t_waiting_for_child := b\<rparr>) = ipc_view r"
  "ipc_view (r\<lparr>t_parent_tid := n\<rparr>) = ipc_view r" "ipc_view (r\<lparr>t_wait_target := i\<rparr>) = ipc_view r"
  "ipc_view (r\<lparr>t_sig_handlers := h, t_sig_restorers := g\<rparr>) = ipc_view r"
  by (simp_all add: ipc_view_def fatal_signal_pending_def)

text \<open>The queue of sleepers and the table of interrupt waiters are no part of the invariant.\<close>

lemma ipc_ok_queues: "ipc_ok s \<Longrightarrow> ipc_ok (s\<lparr>sleepers := x, irq_waiters := y\<rparr>)" "ipc_ok s \<Longrightarrow> ipc_ok (s\<lparr>sleepers := x\<rparr>)"
    "ipc_ok s \<Longrightarrow> ipc_ok (s\<lparr>irq_waiters := y\<rparr>)" "ipc_ok s \<Longrightarrow> ipc_ok (s\<lparr>irq_waiters := y, sleepers := x\<rparr>)"
  by (rule ipc_ok_view; simp)+

lemma upd_view_ok: "ipc_ok s \<Longrightarrow> (\<And>r. ipc_view (f r) = ipc_view r) \<Longrightarrow> ipc_ok (upd t f s)"
  by (rule ipc_ok_view) simp_all

lemma goto_queues:
  "goto t k (s\<lparr>sleepers := x\<rparr>) = (goto t k s)\<lparr>sleepers := x\<rparr>" "goto t k (s\<lparr>irq_waiters := y\<rparr>) = (goto t k s)\<lparr>irq_waiters := y\<rparr>"
  by (simp_all add: goto_def)

lemma sleep_until_ok:
  assumes "ipc_ok s" and "conts s t = Running_user" and "sleep_until t tick now s = (out, s')"
  shows "ipc_ok (settle t out s')"
proof -
  have ret: "ipc_ok (goto t Running_user s)"
    using goto_ok [OF assms(1), of t Running_user] assms(2) by simp
  have "ipc_ok (goto t Tick_sleep (upd t (\<lambda>r. r\<lparr>t_wake_tick := tick\<rparr>) (upd t (\<lambda>r. r\<lparr>t_interruptible := True, t_state := BLOCKED\<rparr>) s)))"
    if "\<not> fatal_signal_pending (tcbs s t)"
    by (rule begin_wait_ok) (use assms that in simp_all)
  then show ?thesis
    using assms(3) ret ipc_ok_queues(2)
    by (auto simp: sleep_until_def begin_interruptible_wait_def insert_sleeper_def goto_queues split: if_splits)
qed

lemma wait_for_irq_ok:
  assumes "ipc_ok s" and "conts s t = Running_user" and "wait_for_irq t i s = (out, s')"
  shows "ipc_ok (settle t out s')"
proof -
  have ret: "ipc_ok (goto t Running_user s)"
    using goto_ok [OF assms(1), of t Running_user] assms(2) by simp
  have "ipc_ok (goto t (Irq_sleep i) (upd t (\<lambda>r. r) (upd t (\<lambda>r. r\<lparr>t_interruptible := True, t_state := BLOCKED\<rparr>) s)))"
    if "\<not> fatal_signal_pending (tcbs s t)"
    by (rule begin_wait_ok) (use assms that in simp_all)
  then show ?thesis
    using assms(3) ret ipc_ok_queues(3)
    by (auto simp: wait_for_irq_def begin_interruptible_wait_def goto_queues upd_def split: if_splits)
qed

lemma block_ok:
  assumes "ipc_ok s" and t: "conts s t = Running_user" "t_state (tcbs s t) \<noteq> BLOCKED" and "block t b s = (out, s')"
  shows "ipc_ok (settle t out s')"
proof -
  have ret: "ipc_ok (goto t Running_user s)"
    using goto_ok [OF assms(1), of t Running_user] t by simp
  have "ipc_ok (goto t Event_sleep (upd t (\<lambda>r. r) (upd t (\<lambda>r. r\<lparr>t_interruptible := True, t_state := BLOCKED\<rparr>) s)))"
    if "\<not> fatal_signal_pending (tcbs s t)"
    by (rule begin_wait_ok) (use assms that in simp_all)
  moreover have "ipc_ok (goto t Other_sleep (upd t (\<lambda>r. r\<lparr>t_state := BLOCKED\<rparr>) s))"
    by (rule ipc_ok_move_upd [OF assms(1)]) (use t in \<open>simp_all add: ipc_view_def fatal_signal_pending_def\<close>)
  ultimately show ?thesis
    using assms(4) ret by (auto simp: block_def begin_interruptible_wait_def upd_def split: if_splits)
qed

text \<open>The end of threads.\<close>

lemma detach_closed: "t_closed (tcbs s t) \<Longrightarrow> detach_thread t s = Some s"
  by (simp add: detach_thread_def)

lemma publish_termination_ok:
  assumes ok: "ipc_ok s" and t: "conts s t = Exiting e"
  shows "ipc_ok (publish_termination t st s) \<and> conts (publish_termination t st s) = conts s \<and> all_threads (publish_termination t st s) = all_threads s"
proof -
  let ?s = "upd t (\<lambda>r. r\<lparr>t_exit_code := st, t_exited := True, t_state := TERMINATED\<rparr>) s"
  have "ipc_ok ?s"
  proof (rule ipc_ok_local [OF ok, where t = t and k = "conts s t"])
    show "tcbs ?s = (tcbs s)(t := (tcbs s t)\<lparr>t_exit_code := st, t_exited := True, t_state := TERMINATED\<rparr>)"
      by simp
    assume "t \<in> set (all_threads s)"
    then show "place_ok ?s t" "wake_ok ?s t"
      using ipc_okD(8,10) [OF ok, of t] t by (auto simp: place_ok_def wake_ok_def)
  qed simp_all
  moreover have "ipc_ok (unblock w (upd w (\<lambda>r. r\<lparr>t_waiting_for_child := False\<rparr>) ?s))" for w
    by (rule unblock_ok, rule upd_view_ok) (use calculation in simp_all)
  ultimately show ?thesis
    by (auto simp: publish_termination_def Let_def split: option.splits)
qed

lemma destroy_thread_ok:
  assumes ok: "ipc_ok s" and t: "t \<in> set (all_threads s)" "t_state (tcbs s t) = TERMINATED" "t_pins (tcbs s t) = 0"
  shows "\<exists>s'. destroy_thread t (s\<lparr>all_threads := remove1 t (all_threads s)\<rparr>) = Some s' \<and> ipc_ok s' \<and> tcbs s' = tcbs s \<and> conts s' = conts s \<and>
    all_threads s' = remove1 t (all_threads s)"
proof -
  have "t_closed (tcbs s t)"
    using ipc_okD(8) [OF ok t(1)] t(2) by (auto simp: place_ok_def)
  then show ?thesis
    using ipc_ok_queues(4) [OF unlink_thread_ok [OF ok t]] by (simp add: destroy_thread_def detach_closed)
qed

lemma reap_thread_ok:
  assumes ok: "ipc_ok s" and c: "c \<in> set (all_threads s)"
  shows "\<exists>s'. reap_thread idle c s = Some s' \<and> ipc_ok s' \<and> conts s' = conts s \<and> (\<forall>u. u \<noteq> c \<longrightarrow> tcbs s' u = tcbs s u) \<and>
    (c \<notin> set (all_threads s') \<and> all_threads s' = remove1 c (all_threads s) \<or>
     all_threads s' = all_threads s \<and> tcbs s' c = (tcbs s c)\<lparr>t_parent_tid := 0\<rparr>)"
proof (cases "can_reap idle c s")
  case True
  obtain s' where "destroy_thread c (s\<lparr>all_threads := remove1 c (all_threads s)\<rparr>) = Some s'" "ipc_ok s'" "tcbs s' = tcbs s" "conts s' = conts s"
    "all_threads s' = remove1 c (all_threads s)"
    using destroy_thread_ok [OF ok c] True by (auto simp: can_reap_def)
  then show ?thesis
    using True ipc_okD(1) [OF ok] by (simp add: reap_thread_def)
next
  case False
  then show ?thesis
    using upd_view_ok [OF ok, of "\<lambda>r. r\<lparr>t_parent_tid := 0\<rparr>" c] by (simp add: reap_thread_def)
qed

lemma cleanup_loop_ok:
  assumes "ipc_ok s" and "distinct ts" and "set ts \<subseteq> set (all_threads s)"
  shows "\<exists>s'. cleanup_loop idle this ts s = Some s' \<and> ipc_ok s' \<and> tcbs s' = tcbs s \<and> conts s' = conts s \<and> set (all_threads s') \<subseteq> set (all_threads s) \<and>
    (\<forall>u\<in>set (all_threads s). u \<in> set (all_threads s') \<or> t_state (tcbs s u) = TERMINATED \<and> t_pins (tcbs s u) = 0)"
  using assms
proof (induction ts arbitrary: s)
  case Nil
  then show ?case
    by auto
next
  case (Cons t ts)
  let ?take = "t_state (tcbs s t) = TERMINATED \<and> this \<noteq> Some t \<and> \<not> (\<not> can_reap idle t s \<or> (t_process_id (tcbs s t) = t_tid (tcbs s t) \<and>
      t_parent_tid (tcbs s t) \<noteq> 0 \<and> find_thread (t_parent_tid (tcbs s t)) s \<noteq> None))"
  have t: "t \<in> set (all_threads s)" "distinct ts" "t \<notin> set ts" "set ts \<subseteq> set (all_threads s)"
    using Cons.prems by auto
  show ?case
  proof (cases ?take)
    case True
    then have dead: "t_state (tcbs s t) = TERMINATED" "t_pins (tcbs s t) = 0"
      by (auto simp: can_reap_def)
    obtain s1 where s1: "destroy_thread t (s\<lparr>all_threads := remove1 t (all_threads s)\<rparr>) = Some s1" "ipc_ok s1" "tcbs s1 = tcbs s" "conts s1 = conts s"
      "all_threads s1 = remove1 t (all_threads s)"
      using destroy_thread_ok [OF Cons.prems(1) t(1) dead] by blast
    have set1: "set (all_threads s1) = set (all_threads s) - {t}"
      using s1(5) ipc_okD(1) [OF Cons.prems(1)] by simp
    have "set ts \<subseteq> set (all_threads s1)"
      using t by (auto simp: set1)
    then obtain s' where s': "cleanup_loop idle this ts s1 = Some s'" "ipc_ok s'" "tcbs s' = tcbs s1" "conts s' = conts s1"
      "set (all_threads s') \<subseteq> set (all_threads s1)"
      "\<forall>u\<in>set (all_threads s1). u \<in> set (all_threads s') \<or> t_state (tcbs s1 u) = TERMINATED \<and> t_pins (tcbs s1 u) = 0"
      using Cons.IH [OF s1(2) t(2)] by blast
    then show ?thesis
      using True s1 set1 dead by auto
  next
    case False
    then have "cleanup_loop idle this (t # ts) s = cleanup_loop idle this ts s"
      by (simp only: cleanup_loop.simps if_False)
    then show ?thesis
      using Cons.IH [OF Cons.prems(1) t(2,4)] by simp
  qed
qed

lemma waitpid_round_ok:
  assumes ok: "ipc_ok s" and t: "t \<in> set (all_threads s)" "conts s t = Wait_child pid opts" "t_state (tcbs s t) \<noteq> TERMINATED"
  shows "\<exists>out s'. waitpid_round idle t pid opts s = Some (out, s') \<and> ipc_ok (settle t out s')"
proof -
  define s1 where "s1 = upd t (\<lambda>r. r\<lparr>t_waiting_for_child := False, t_wait_target := -1\<rparr>) s"
  have ok1: "ipc_ok s1" "conts s1 t = Wait_child pid opts" "all_threads s1 = all_threads s"
    unfolding s1_def using upd_view_ok [OF ok] t(2) by simp_all
  have ret: "ipc_ok (goto t Running_user s2)" if "ipc_ok s2" "conts s2 = conts s1" for s2
    using goto_ok [OF that(1), of t Running_user] that(2) ok1(2) by simp
  have sleep: "ipc_ok (goto t (Child_sleep pid opts) (upd t (\<lambda>r. r\<lparr>t_wait_target := pid, t_waiting_for_child := True\<rparr>)
      (upd t (\<lambda>r. r\<lparr>t_interruptible := True, t_state := BLOCKED\<rparr>) s1)))" if "\<not> fatal_signal_pending (tcbs s1 t)"
    by (rule begin_wait_ok [OF ok1(1)]) (use that ok1(2) in simp_all)
  show ?thesis
  proof (cases "find (\<lambda>c. is_child t pid s1 c \<and> t_state (tcbs s1 c) = TERMINATED) (all_threads s1)")
    case (Some c)
    then have "c \<in> set (all_threads s1)"
      by (auto simp: find_Some_iff)
    then obtain s2 where "reap_thread idle c s1 = Some s2" "ipc_ok s2" "conts s2 = conts s1"
      using reap_thread_ok [OF ok1(1)] by blast
    then show ?thesis
      using Some ret [OF ok1(1)] ret [of s2] by (auto simp: waitpid_round_def s1_def [symmetric] Let_def)
  next
    case None
    then show ?thesis
      using ret [OF ok1(1)] sleep by (auto simp: waitpid_round_def s1_def [symmetric] Let_def begin_interruptible_wait_def)
  qed
qed

lemma check_sleepers_ok:
  assumes "ipc_ok s"
  shows "ipc_ok (wake_due now us s) \<and> conts (wake_due now us s) = conts s \<and> all_threads (wake_due now us s) = all_threads s"
  using assms
proof (induction us arbitrary: s)
  case (Cons u us)
  have "ipc_ok (unblock u (upd u (\<lambda>r. r\<lparr>t_wake_tick := 0\<rparr>) (s\<lparr>sleepers := us\<rparr>)))"
    by (rule unblock_ok, rule upd_view_ok) (use ipc_ok_queues(2) [OF Cons.prems] in simp_all)
  then show ?case
    using Cons.IH Cons.prems by simp
qed simp

lemma enter_ok:
  assumes ok: "ipc_ok s" and run: "can_run t s" "conts s t = Running_user" "fresh_for sc s" and step: "enter idle t sc s = Some (out, s')"
  shows "ipc_ok (settle t out s')"
proof -
  have t: "t \<in> set (all_threads s)" "t_state (tcbs s t) \<noteq> BLOCKED"
    using run(1) by (auto simp: can_run_def)
  have ret: "ipc_ok (goto t k s1)" if "ipc_ok s1" "conts s1 t = Running_user" "plain k" for s1 k
    using goto_ok [OF that(1), of t k] that(2,3) by simp
  have ret': "ipc_ok (settle t out s')" if "returns (e, s1) = Some (out, s')" "ipc_ok s1" "conts s1 = conts s" for e s1
    using that ret [of s1 Running_user] run(2) by (auto simp: returns_def)
  have new: "ipc_ok (goto t Running_user s1)" if "created a s s1 \<or> (\<exists>n. s1 = s\<lparr>next_tid := n\<rparr>)" for a s1
    using that ret [of s1 Running_user] fetch_tid_ok [OF ok] run(2) by (auto simp: created_def)
  show ?thesis
  proof (cases sc)
    case (Send i m)
    then show ?thesis
      using step submit_ok [OF ok t(1) run(2)] ret [OF ok run(2)]
      by (auto simp: allowed_def send_sync_def split: prod.splits if_splits dest!: ipc_send_allowed_same)
  next
    case (Send_async i m)
    then show ?thesis
      using step send_async_ok [OF ok t(1) run(2)] by auto
  next
    case (Call i m)
    then show ?thesis
      using step submit_ok [OF ok t(1) run(2)] ret [OF ok run(2)]
      by (auto simp: allowed_def sys_ipc_call_def split: prod.splits if_splits dest!: ipc_send_allowed_same)
  next
    case (Reply m)
    obtain e s1 where "sys_ipc_reply t m s = (e, s1)"
      by fastforce
    then show ?thesis
      using step Reply sys_ipc_reply_ok [OF ok] ret' by auto
  next
    case (Kill pid sig)
    obtain e s1 where "sys_kill t pid sig s = (e, s1)"
      by fastforce
    then show ?thesis
      using step Kill sys_kill_ok [OF ok] ret' by auto
  next
    case (Sigaction sig act)
    then show ?thesis
      using step ret ok run(2) upd_view_ok [OF ok]
      by (auto simp: sys_sigaction_def Let_def split: if_splits option.splits)
  next
    case (Sigprocmask how m)
    have "ipc_ok (goto t Running_user (upd t (\<lambda>r. r\<lparr>t_sig_mask := w\<rparr>) s))" for w
      by (rule ipc_ok_move [OF ok, where t = t and k = Running_user and r = "(tcbs s t)\<lparr>t_sig_mask := w\<rparr>"]) (use run(2) t(2) in simp_all)
    then show ?thesis
      using step Sigprocmask ret [OF ok run(2)] by (auto simp: sys_sigprocmask_def Let_def split: if_splits option.splits)
  next
    case (Setuid u)
    then show ?thesis
      using step cred_calls_ok(1) [OF ok, of t u] ret' [of "fst (sys_setuid t u s)" "snd (sys_setuid t u s)"] by simp
  next
    case (Seteuid u)
    then show ?thesis
      using step cred_calls_ok(2) [OF ok, of t u] ret' [of "fst (sys_seteuid t u s)" "snd (sys_seteuid t u s)"] by simp
  next
    case (Setgid u)
    then show ?thesis
      using step cred_calls_ok(3) [OF ok, of t u] ret' [of "fst (sys_setgid t u s)" "snd (sys_setgid t u s)"] by simp
  next
    case (Setegid u)
    then show ?thesis
      using step cred_calls_ok(4) [OF ok, of t u] ret' [of "fst (sys_setegid t u s)" "snd (sys_setegid t u s)"] by simp
  next
    case Setsid
    then show ?thesis
      using step cred_calls_ok(5) [OF ok, of t] ret' [of "fst (sys_setsid t s)" "snd (sys_setsid t s)"] by simp
  next
    case (Setpgid pid u)
    then show ?thesis
      using step cred_calls_ok(6) [OF ok, of t pid u] ret' [of "fst (sys_setpgid t pid u s)" "snd (sys_setpgid t pid u s)"] by simp
  next
    case (Sleep tick now)
    then show ?thesis
      using step sleep_until_ok [OF ok run(2)] by auto
  next
    case (Wait_irq i)
    then show ?thesis
      using step wait_for_irq_ok [OF ok run(2)] ret [OF ok run(2)] by (auto split: if_splits)
  next
    case (Waitpid pid opts)
    then show ?thesis
      using step ret [OF ok run(2)] by (auto simp: sys_waitpid_def split: if_splits)
  next
    case (Clone a entry stack mem kstack fds)
    obtain e s1 where eq: "sys_clone a t entry stack mem kstack fds s = (e, s1)"
      by fastforce
    then show ?thesis
      using step Clone run(3) new [OF sys_clone_created [OF ok _ eq]] by (auto simp: returns_def)
  next
    case (Spawn a path img mem mm)
    obtain e s1 where eq: "spawn_path a (Some t) path 0 img mem mm s = (e, s1)"
      by fastforce
    then show ?thesis
      using step Spawn run(3) new [OF spawn_path_created [OF ok _ eq]] by (auto simp: returns_def)
  next
    case (Exit status)
    then show ?thesis
      using step detach_thread_ends [OF ok t(1) run(2), of "status mod 256 * 256"] by (auto simp: exit_thread_def)
  next
    case (Block b)
    then show ?thesis
      using step block_ok [OF ok run(2) t(2)] by auto
  qed (use step ret [OF ok run(2)] in auto)
qed

lemma resume_ok:
  assumes ok: "ipc_ok s" and run: "can_run t s" "conts s t \<noteq> Running_user"
  shows "\<exists>out s'. resume_at idle t s = Some (out, s') \<and> ipc_ok (settle t out s')"
proof -
  have t: "t \<in> set (all_threads s)" "t_state (tcbs s t) \<noteq> BLOCKED" "t_state (tcbs s t) \<noteq> TERMINATED"
    using run(1) by (auto simp: can_run_def)
  have d: "t_peer (tcbs s t) \<noteq> None \<longleftrightarrow> conts s t = Submitted \<and> t_result (tcbs s t) = PENDING"
    using ipc_okD(8) [OF ok t(1)] by (simp add: place_ok_def)
  have clear: "ipc_ok (goto t k (clear_wait t s))" if "conts s t = Receive_sleep \<or> conts s t = Accept_sleep" "plain k" for k
    by (rule clear_wait_ok [OF ok t(1)]) (use that d t(2) plainD [OF that(2)] in auto)
  have wake: "ipc_ok (goto t k (end_interruptible_wait t (upd t f s1)))"
    if "ipc_ok s1" "tcbs s1 = tcbs s" "conts s1 = conts s" "quiet (conts s t)" "plain k" "\<And>r. ipc_view (f r) = ipc_view r" for s1 f k
    by (rule end_wait_ok) (use that t(2) in auto)
  note wake_id = wake [of s _ "\<lambda>r. r", simplified, OF ok]
  show ?thesis
  proof (cases "conts s t")
    case (Sending p req)
    then show ?thesis
      using submit_locked_ok [OF ok t(1)] by (cases "submit_locked t p req s") (auto simp: resume_at_def)
  next
    case (Sending_async p m)
    then show ?thesis
      using send_async_locked_ok [OF ok t(1)] by (cases "send_async_locked t p m s") (auto simp: resume_at_def)
  next
    case Submitted
    then show ?thesis
      using submit_resume_ok [OF ok t(1)] t(2) by (cases "submit_resume t s") (auto simp: resume_at_def)
  next
    case Receiving
    then show ?thesis
      using receive_sync_ok [OF ok t(1)] by (auto simp: resume_at_def)
  next
    case Accepting
    then show ?thesis
      using sys_ipc_wait_ok [OF ok t(1)] t(2) by (auto simp: resume_at_def)
  next
    case (Wait_child pid opts)
    then show ?thesis
      using waitpid_round_ok [OF ok t(1)] t(3) by (auto simp: resume_at_def)
  next
    case (Child_sleep pid opts)
    then show ?thesis
      using wake [OF ok, of "Wait_child pid opts" "\<lambda>r. r\<lparr>t_waiting_for_child := False, t_wait_target := -1\<rparr>"]
      by (simp add: resume_at_def waitpid_resume_def)
  next
    case Tick_sleep
    then show ?thesis
      using wake [OF ipc_ok_queues(2) [OF ok, of "remove1 t (sleepers s)"], of Running_user "\<lambda>r. r\<lparr>t_wake_tick := 0\<rparr>"]
      by (simp add: resume_at_def sleep_resume_def Let_def)
  next
    case (Irq_sleep i)
    define s1 where "s1 = (if irq_waiters s i = Some t then s\<lparr>irq_waiters := (irq_waiters s)(i := None)\<rparr> else s)"
    have "ipc_ok s1" "tcbs s1 = tcbs s" "conts s1 = conts s"
      using ok ipc_ok_queues(3) by (simp_all add: s1_def)
    then have "ipc_ok (goto t Running_user (end_interruptible_wait t (upd t (\<lambda>r. r) s1)))"
      using wake [of s1 Running_user "\<lambda>r. r"] Irq_sleep by simp
    then show ?thesis
      using Irq_sleep by (simp add: resume_at_def irq_resume_def Let_def s1_def [symmetric] upd_def)
  next
    case Event_sleep
    then show ?thesis
      using wake [OF ok, of Running_user "\<lambda>r. r"] by (simp add: resume_at_def upd_def)
  next
    case Other_sleep
    then show ?thesis
      using goto_ok [OF ok, of t Running_user] by (simp add: resume_at_def)
  next
    case (Exiting e)
    have "goto t (Exiting e) (publish_termination t e s) = publish_termination t e s"
      using publish_termination_ok [OF ok Exiting, of e] Exiting by (simp add: goto_def fun_upd_idem)
    then show ?thesis
      using publish_termination_ok [OF ok Exiting, of e] Exiting by (simp add: resume_at_def)
  qed (use run clear in \<open>auto simp: resume_at_def\<close>)
qed

lemma ipc_ok_state:
  assumes ok: "ipc_ok s" and st: "st = READY \<or> st = RUNNING"
  shows "ipc_ok (upd t (\<lambda>r. r\<lparr>t_state := st\<rparr>) s)"
proof (rule ipc_ok_local [OF ok, where t = t and k = "conts s t"])
  show "tcbs (upd t (\<lambda>r. r\<lparr>t_state := st\<rparr>) s) = (tcbs s)(t := (tcbs s t)\<lparr>t_state := st\<rparr>)"
    by simp
  assume "t \<in> set (all_threads s)"
  then show "place_ok (upd t (\<lambda>r. r\<lparr>t_state := st\<rparr>) s) t" "wake_ok (upd t (\<lambda>r. r\<lparr>t_state := st\<rparr>) s) t"
    using ipc_okD(8,10) [OF ok, of t] st by (auto simp: place_ok_def wake_ok_def)
qed simp_all

lemma kstep_ok:
  assumes "kstep a out s s'" and ok: "ipc_ok s"
  shows "ipc_ok s'"
  using assms
proof (cases rule: kstep.cases)
  case (syscall t sc idle s1)
  then show ?thesis
    using enter_ok [OF ok] by blast
next
  case (resume t idle s1)
  then have "conts s t \<noteq> Running_user"
    by (auto simp: resume_at_def)
  then show ?thesis
    using resume resume_ok [OF ok, of t idle] by auto
next
  case (killed t)
  have t: "t \<in> set (all_threads s)"
    using killed(3) by (simp add: can_run_def)
  obtain e s1 where s1: "detach_thread t s = Some s1"
    "s' = goto t (Exiting e) (upd t (\<lambda>r. r\<lparr>t_sig_pending := t_sig_pending r AND NOT (push_bit (nat e) 1)\<rparr>) s1)"
    using killed(5) by (auto simp: consume_fatal_signal_def Let_def split: if_splits)
  have ok1: "ipc_ok (goto t (Exiting e) s1)"
    using detach_thread_ends [OF ok t killed(4), of e] s1(1) by auto
  show ?thesis
  proof (rule ipc_ok_local [OF ok1, where t = t and k = "Exiting e"])
    show "tcbs s' = (tcbs (goto t (Exiting e) s1))(t := (tcbs s1 t)\<lparr>t_sig_pending := t_sig_pending (tcbs s1 t) AND NOT (push_bit (nat e) 1)\<rparr>)"
      by (simp add: s1(2))
    assume "t \<in> set (all_threads (goto t (Exiting e) s1))"
    then show "place_ok s' t" "wake_ok s' t"
      using ipc_okD(8,10) [OF ok1, of t] by (auto simp: s1(2) place_ok_def wake_ok_def)
  qed (simp_all add: s1(2))
next
  case (cleanup idle this)
  then show ?thesis
    using cleanup_loop_ok [OF ok ipc_okD(1) [OF ok] subset_refl, of idle this] by (auto simp: cleanup_terminated_def)
next
  case (switch_in t)
  have "ipc_ok (upd t (\<lambda>r. r\<lparr>t_state := RUNNING\<rparr>) s)"
    by (rule ipc_ok_state [OF ok]) (use switch_in in simp_all)
  then show ?thesis
    using switch_in by simp
next
  case (switch_out t)
  have "ipc_ok (upd t (\<lambda>r. r\<lparr>t_state := READY\<rparr>) s)"
    by (rule ipc_ok_state [OF ok]) (use switch_out in simp_all)
  then show ?thesis
    using switch_out by simp
next
  case (irq i)
  then show ?thesis
    using unblock_ok ipc_ok_queues(3) [OF ok] by (auto simp: wake_irq_waiters_def Let_def split: option.splits)
next
  case (boot_program b path i img mem mm e)
  then show ?thesis
    using spawn_path_created [OF ok, of b None path i img mem mm e s'] fetch_tid_ok [OF ok] by (auto simp: created_def)
next
  case (boot_thread b i)
  then show ?thesis
    using spawn_created [OF ok] by (auto simp: created_def)
qed (use ok unblock_ok check_sleepers_ok in \<open>auto simp: check_sleepers_def\<close>)

lemma kreachable_ok: "kreachable s \<Longrightarrow> ipc_ok s"
proof (induction rule: kreachable.induct)
  case boot
  show ?case
    by (simp add: boot_kernel_def ipc_ok_def link_ok_def zero_tcb_def)
next
  case (step s a out s')
  then show ?case
    using kstep_ok by blast
qed

end
