(* ===== verification/Lifecycle.thy ===== *)
theory Lifecycle
  imports Process
begin

text \<open>What holds of every run of \<open>kstep\<close>: an answered call keeps its answer until the caller runs again, no blocked thread
  has missed its wake-up, the links of message passing stay consistent, and privileges are not gained.  Runs are
  replayed on concrete threads by \<open>script\<close>, which executes one system call or one resumption after another.\<close>

section \<open>What a step leaves alone\<close>

text \<open>Message passing does not touch the rest of a thread.\<close>

definition sview :: "tcb \<Rightarrow> _" where
  "sview r =
    ((t_tid r, t_creds r, t_pml4 r, t_user_entry r, t_process_id r, t_parent_tid r),
     (t_sig_mask r, t_sig_pending r, t_exit_code r, t_wait_target r, t_waiting_for_child r, t_wake_tick r))"

lemma sview_upd: "(\<And>r. sview (f r) = sview r) \<Longrightarrow> sview (tcbs (upd t f s) u) = sview (tcbs s u)"
  by simp

lemma sview_simps [simp]:
  "sview (r\<lparr>t_state := st\<rparr>) = sview r" "sview (r\<lparr>t_pins := n\<rparr>) = sview r" "sview (r\<lparr>t_interruptible := b\<rparr>) = sview r"
  "sview (r\<lparr>t_queue := q\<rparr>) = sview r" "sview (r\<lparr>t_queue_count := n\<rparr>) = sview r" "sview (r\<lparr>t_caller := c\<rparr>) = sview r"
  "sview (r\<lparr>t_reply_cancelled := b\<rparr>) = sview r" "sview (r\<lparr>t_peer := p\<rparr>) = sview r" "sview (r\<lparr>t_has_queued_msg := b\<rparr>) = sview r"
  "sview (r\<lparr>t_result := i\<rparr>) = sview r" "sview (r\<lparr>t_kind := k\<rparr>) = sview r" "sview (r\<lparr>t_waiting := b\<rparr>) = sview r"
  "sview (r\<lparr>t_regs := g\<rparr>) = sview r" "sview (r\<lparr>t_queued_msg := m\<rparr>) = sview r" "sview (r\<lparr>t_async_queue := aq\<rparr>) = sview r"
  "sview (r\<lparr>t_async_head := n\<rparr>) = sview r" "sview (r\<lparr>t_async_tail := n\<rparr>) = sview r" "sview (r\<lparr>t_closed := b\<rparr>) = sview r"
  by (simp_all add: sview_def)

lemma sview_ops [simp]:
  "sview (tcbs (pin t s) u) = sview (tcbs s u)" "sview (tcbs (unpin t s) u) = sview (tcbs s u)"
  "sview (tcbs (unblock t s) u) = sview (tcbs s u)" "sview (tcbs (add_thread t s) u) = sview (tcbs s u)"
  "sview (tcbs (end_interruptible_wait t s) u) = sview (tcbs s u)" "sview (tcbs (unlink_request p t s) u) = sview (tcbs s u)"
  "sview (tcbs (clear_wait t s) u) = sview (tcbs s u)" "sview (save_regs m r) = sview r" "sview (load_request req r) = sview r"
  by (simp_all add: pin_def unpin_def unblock_tcbs add_thread_def end_interruptible_wait_def unlink_request_def clear_wait_def save_regs_def)
    (cases req; simp add: save_regs_def)

lemma sview_complete [simp]: "sview (tcbs (complete t r c s) u) = sview (tcbs s u)"
proof (cases "t_peer (tcbs s t)")
  case (Some p)
  define s1 where "s1 = (if t_caller (tcbs s p) = Some t then
      let s = upd p (\<lambda>r. r\<lparr>t_caller := None\<rparr>) s in if c \<and> \<not> ipc_shut p s then upd p (\<lambda>r. r\<lparr>t_reply_cancelled := True\<rparr>) s else s
    else unlink_request p t s)"
  have "sview (tcbs s1 u) = sview (tcbs s u)"
    by (auto simp: s1_def Let_def)
  moreover have "complete t r c s =
      unpin t (unpin p (unblock t (upd t (\<lambda>r'. r'\<lparr>t_peer := None, t_has_queued_msg := False, t_result := r\<rparr>) s1)))"
    by (simp add: complete_def Some s1_def Let_def)
  ultimately show ?thesis
    by auto
qed (simp add: complete_def)

lemma sview_first_request_loop: "first_request_loop n p k s = Some (x, s') \<Longrightarrow> sview (tcbs s' u) = sview (tcbs s u)"
proof (induction n arbitrary: s)
  case (Suc n)
  then show ?case
    by (auto split: option.splits if_splits)
qed simp

lemma sview_complete_all: "complete_all n p s = Some s' \<Longrightarrow> sview (tcbs s' u) = sview (tcbs s u)"
  by (induction n arbitrary: s) (auto split: list.splits if_splits)

lemma sview_detach:
  assumes "detach_thread t s = Some s'"
  shows "sview (tcbs s' u) = sview (tcbs s u)"
proof (cases "t_closed (tcbs s t)")
  case False
  define s1 where "s1 = upd t (\<lambda>r. r\<lparr>t_closed := True\<rparr>) s"
  define s2 where "s2 = (if t_peer (tcbs s1 t) \<noteq> None then complete t (-4) True s1 else s1)"
  have v: "sview (tcbs s2 u) = sview (tcbs s u)"
    by (simp add: s1_def s2_def)
  obtain s3 where s3: "complete_all (length (t_queue (tcbs s2 t))) t s2 = Some s3"
    "s' = (let s = (case t_caller (tcbs s3 t) of None \<Rightarrow> s3 | Some c \<Rightarrow> complete c (-32) False s3);
               s = upd t (\<lambda>r. r\<lparr>t_reply_cancelled := False, t_async_head := 0, t_async_tail := 0\<rparr>) s
           in if t_kind (tcbs s t) = legacy_receive \<or> t_kind (tcbs s t) = receive_call then unblock t s else s)"
    using assms False unfolding detach_thread_def s2_def s1_def Let_def by (auto split: option.splits)
  show ?thesis
    using sview_complete_all [OF s3(1), of u] v by (auto simp: s3(2) Let_def split: option.splits)
qed (use assms in \<open>simp add: detach_thread_def\<close>)

lemma sview_ipc:
  "submit t i req s = (out, s') \<Longrightarrow> sview (tcbs s' u) = sview (tcbs s u)"
  "submit_locked t p req s = (out, s') \<Longrightarrow> sview (tcbs s' u) = sview (tcbs s u)"
  "submit_resume t s = (out, s') \<Longrightarrow> sview (tcbs s' u) = sview (tcbs s u)"
  "send_async t i m s = (out, s') \<Longrightarrow> sview (tcbs s' u) = sview (tcbs s u)"
  "send_async_locked t p m s = (out, s') \<Longrightarrow> sview (tcbs s' u) = sview (tcbs s u)"
  "receive_sync t s = Some (out, s') \<Longrightarrow> sview (tcbs s' u) = sview (tcbs s u)"
  "sys_ipc_wait t s = Some (out, s') \<Longrightarrow> sview (tcbs s' u) = sview (tcbs s u)"
  "sys_ipc_reply t w s = (e, s') \<Longrightarrow> sview (tcbs s' u) = sview (tcbs s u)"
proof -
  show "submit t i req s = (out, s') \<Longrightarrow> sview (tcbs s' u) = sview (tcbs s u)"
    by (auto simp: submit_def split: if_splits prod.splits option.splits dest: pin_threadD pin_thread_None)
  show "submit_locked t p req s = (out, s') \<Longrightarrow> sview (tcbs s' u) = sview (tcbs s u)"
    by (erule submit_locked_cases) (auto simp: enrolled_def Let_def)
  show "submit_resume t s = (out, s') \<Longrightarrow> sview (tcbs s' u) = sview (tcbs s u)"
    unfolding submit_resume_def Let_def begin_interruptible_wait_def by (simp split: if_splits) auto
  show "send_async t i m s = (out, s') \<Longrightarrow> sview (tcbs s' u) = sview (tcbs s u)"
    by (auto simp: send_async_def split: prod.splits option.splits dest: pin_threadD pin_thread_None)
  show "send_async_locked t p m s = (out, s') \<Longrightarrow> sview (tcbs s' u) = sview (tcbs s u)"
    by (erule send_async_locked_cases) (auto simp: async_put_def Let_def)
  show "receive_sync t s = Some (out, s') \<Longrightarrow> sview (tcbs s' u) = sview (tcbs s u)"
    unfolding receive_sync_def begin_interruptible_wait_def first_request_def
    by (auto split: if_splits option.splits prod.splits dest!: sview_first_request_loop [where u = u] simp del: first_request_loop.simps)
  show "sys_ipc_wait t s = Some (out, s') \<Longrightarrow> sview (tcbs s' u) = sview (tcbs s u)"
    unfolding sys_ipc_wait_def begin_interruptible_wait_def first_request_def Let_def
    by (auto split: if_splits option.splits prod.splits dest!: sview_first_request_loop [where u = u] simp del: first_request_loop.simps)
  show "sys_ipc_reply t w s = (e, s') \<Longrightarrow> sview (tcbs s' u) = sview (tcbs s u)"
    unfolding sys_ipc_reply_def by (auto split: if_splits option.splits)
qed

text \<open>What no step of another thread does to \<open>c\<close>: it does not move it to another point of its code, stop it or
  end it, and once the request of \<open>c\<close> is finished it does not touch the result.\<close>

definition rview :: "tcb \<Rightarrow> _" where
  "rview r = (t_peer r, t_result r, t_kind r, t_regs r)"

definition kept :: "ptr \<Rightarrow> kernel \<Rightarrow> kernel \<Rightarrow> bool" where
  "kept c s s' \<longleftrightarrow>
     conts s' c = conts s c \<and> (c \<in> set (all_threads s) \<and> t_state (tcbs s c) \<noteq> TERMINATED \<longrightarrow> c \<in> set (all_threads s')) \<and>
     (t_state (tcbs s' c) = BLOCKED \<longrightarrow> t_state (tcbs s c) = BLOCKED) \<and>
     (t_state (tcbs s' c) = TERMINATED \<longleftrightarrow> t_state (tcbs s c) = TERMINATED) \<and>
     (t_peer (tcbs s c) = None \<longrightarrow> rview (tcbs s' c) = rview (tcbs s c)) \<and>
     t_exit_code (tcbs s' c) = t_exit_code (tcbs s c)"

lemma kept_refl [simp]: "kept c s s"
  by (simp add: kept_def)

lemma kept_trans [trans]: "kept c s s1 \<Longrightarrow> kept c s1 s2 \<Longrightarrow> kept c s s2"
  by (simp add: kept_def rview_def)

lemma kept_upd:
  assumes "c = t \<Longrightarrow> rview (f (tcbs s t)) = rview (tcbs s t) \<and> t_state (f (tcbs s t)) = t_state (tcbs s t) \<and> t_exit_code (f (tcbs s t)) = t_exit_code (tcbs s t)"
  shows "kept c s (upd t f s)"
  using assms by (simp add: kept_def)

lemma kept_peer:
  assumes "t_peer (tcbs s t) \<noteq> None" and "t_state (f (tcbs s t)) = t_state (tcbs s t)" and "t_exit_code (f (tcbs s t)) = t_exit_code (tcbs s t)"
  shows "kept c s (upd t f s)"
  using assms by (auto simp: kept_def)

lemma kept_same:
  assumes "tcbs s' c = tcbs s c" and "conts s' c = conts s c" and "c \<in> set (all_threads s) \<Longrightarrow> t_state (tcbs s c) \<noteq> TERMINATED \<Longrightarrow> c \<in> set (all_threads s')"
  shows "kept c s s'"
  using assms by (simp add: kept_def)

lemma kept_wake [simp]: "kept c s (unblock t s)" "kept c s (add_thread t s)"
  by (cases "t_state (tcbs s t)"; auto simp: kept_def unblock_tcbs rview_def add_thread_def)+

lemma kept_pin [simp]: "kept c s (pin t s)" "kept c s (unpin t s)" "kept c s (end_interruptible_wait t s)" "kept c s (unlink_request p t s)"
  unfolding pin_def unpin_def end_interruptible_wait_def unlink_request_def by (auto intro!: kept_upd simp: rview_def)

lemma kept_complete [simp]: "kept c s (complete t r x s)"
proof (cases "t_peer (tcbs s t)")
  case (Some p)
  define s1 where "s1 = (if t_caller (tcbs s p) = Some t then
      let s = upd p (\<lambda>r. r\<lparr>t_caller := None\<rparr>) s in if x \<and> \<not> ipc_shut p s then upd p (\<lambda>r. r\<lparr>t_reply_cancelled := True\<rparr>) s else s
    else unlink_request p t s)"
  have "kept c s (upd p (\<lambda>r. r\<lparr>t_caller := None\<rparr>) s)" "kept c s' (upd p (\<lambda>r. r\<lparr>t_reply_cancelled := True\<rparr>) s')" for s'
    by (auto intro!: kept_upd simp: rview_def)
  then have "kept c s s1"
    unfolding s1_def Let_def by (auto intro: kept_trans)
  also have "kept c s1 (upd t (\<lambda>r'. r'\<lparr>t_peer := None, t_has_queued_msg := False, t_result := r\<rparr>) s1)" (is "kept _ _ ?s2")
  proof (rule kept_peer)
    have "t_peer (tcbs s1 t) = t_peer (tcbs s t)"
      by (auto simp: s1_def Let_def unlink_request_def)
    then show "t_peer (tcbs s1 t) \<noteq> None"
      using Some by simp
  qed simp_all
  also have "kept c ?s2 (unblock t ?s2)"
    by simp
  also have "kept c (unblock t ?s2) (unpin p (unblock t ?s2))"
    by simp
  also have "kept c (unpin p (unblock t ?s2)) (unpin t (unpin p (unblock t ?s2)))"
    by simp
  also have "unpin t (unpin p (unblock t ?s2)) = complete t r x s"
    by (simp add: complete_def Some s1_def Let_def)
  finally show ?thesis .
qed (simp add: complete_def)

lemma kept_first_request: "first_request_loop n p k s = Some (x, s') \<Longrightarrow> kept c s s'"
proof (induction n arbitrary: s)
  case (Suc n)
  then show ?case
    by (auto split: option.splits if_splits intro: kept_trans [OF kept_complete])
qed simp

lemma kept_complete_all: "complete_all n p s = Some s' \<Longrightarrow> kept c s s'"
  by (induction n arbitrary: s) (auto split: list.splits if_splits intro: kept_trans [OF kept_complete])

lemma kept_detach:
  assumes "detach_thread t s = Some s'"
  shows "kept c s s'"
proof (cases "t_closed (tcbs s t)")
  case False
  define s1 where "s1 = upd t (\<lambda>r. r\<lparr>t_closed := True\<rparr>) s"
  define s2 where "s2 = (if t_peer (tcbs s1 t) \<noteq> None then complete t (-4) True s1 else s1)"
  obtain s3 where s3: "complete_all (length (t_queue (tcbs s2 t))) t s2 = Some s3"
    "s' = (let s = (case t_caller (tcbs s3 t) of None \<Rightarrow> s3 | Some c \<Rightarrow> complete c (-32) False s3);
               s = upd t (\<lambda>r. r\<lparr>t_reply_cancelled := False, t_async_head := 0, t_async_tail := 0\<rparr>) s
           in if t_kind (tcbs s t) = legacy_receive \<or> t_kind (tcbs s t) = receive_call then unblock t s else s)"
    using assms False unfolding detach_thread_def s2_def s1_def Let_def by (auto split: option.splits)
  define s4 where "s4 = (case t_caller (tcbs s3 t) of None \<Rightarrow> s3 | Some c \<Rightarrow> complete c (-32) False s3)"
  define s5 where "s5 = upd t (\<lambda>r. r\<lparr>t_reply_cancelled := False, t_async_head := 0, t_async_tail := 0\<rparr>) s4"
  have "kept c s s1"
    unfolding s1_def by (rule kept_upd) (simp add: rview_def)
  also have "kept c s1 s2"
    by (simp add: s2_def)
  also have "kept c s2 s3"
    by (rule kept_complete_all [OF s3(1)])
  also have "kept c s3 s4"
    by (simp add: s4_def split: option.split)
  also have "kept c s4 s5"
    unfolding s5_def by (rule kept_upd) (simp add: rview_def)
  also have "kept c s5 s'"
    by (simp add: s3(2) Let_def s4_def [symmetric] s5_def [symmetric])
  finally show ?thesis .
qed (use assms in \<open>simp add: detach_thread_def\<close>)

lemma kept_begin: "c \<noteq> t \<Longrightarrow> begin_interruptible_wait t s = (b, s') \<Longrightarrow> kept c s s'"
  by (auto simp: begin_interruptible_wait_def split: if_splits intro!: kept_upd)

lemma kept_clear: "c \<noteq> t \<Longrightarrow> kept c s (clear_wait t s)"
  by (auto simp: clear_wait_def end_interruptible_wait_def intro!: kept_trans [OF kept_upd kept_upd])

lemma kept_pin_thread: "pin_thread i s = (x, s') \<Longrightarrow> kept c s s'"
  by (auto simp: pin_thread_def split: option.splits if_splits)

lemma kept_enrolled: "c \<noteq> t \<Longrightarrow> kept c s (enrolled t p req s)"
proof -
  assume c: "c \<noteq> t"
  have u: "kept c s (upd t f s)" for f s
    using c by (simp add: kept_upd)
  have q: "kept c s (upd p (\<lambda>r. r\<lparr>t_queue := t_queue r @ [t], t_queue_count := t_queue_count r + 1\<rparr>) s)" for s
    by (rule kept_upd) (simp add: rview_def)
  have "kept c s (upd p (\<lambda>r. r\<lparr>t_queue := t_queue r @ [t], t_queue_count := t_queue_count r + 1\<rparr>) (pin t (upd t (load_request req)
    (upd t (\<lambda>r. r\<lparr>t_kind := kind_of req, t_result := PENDING, t_peer := Some p\<rparr>) (upd t (\<lambda>r. r\<lparr>t_interruptible := True, t_state := BLOCKED\<rparr>) s)))))"
    by (intro kept_trans [OF _ q] kept_trans [OF _ kept_pin(1)] kept_trans [OF _ u] u)
  then show ?thesis
    unfolding enrolled_def Let_def by (auto intro: kept_trans)
qed

lemma kept_async_put: "kept c s (async_put p e n s)"
proof -
  have "kept c s (upd p (\<lambda>r. r\<lparr>t_async_queue := (t_async_queue r)(t_async_tail r := e), t_async_tail := n\<rparr>) s)"
    by (rule kept_upd) (simp add: rview_def)
  then show ?thesis
    unfolding async_put_def Let_def by (auto intro: kept_trans)
qed

lemma kept_ipc:
  assumes "c \<noteq> t"
  shows "submit t i req s = (out, s') \<Longrightarrow> kept c s s'"
    "submit_locked t p req s = (out, s') \<Longrightarrow> kept c s s'"
    "submit_resume t s = (out, s') \<Longrightarrow> kept c s s'"
    "send_async t i m s = (out, s') \<Longrightarrow> kept c s s'"
    "send_async_locked t p m s = (out, s') \<Longrightarrow> kept c s s'"
    "receive_sync t s = Some (out, s') \<Longrightarrow> kept c s s'"
    "sys_ipc_wait t s = Some (out, s') \<Longrightarrow> kept c s s'"
    "ipc_ok s \<Longrightarrow> sys_ipc_reply t w s = (e, s') \<Longrightarrow> kept c s s'"
proof -
  have u: "kept c s (upd t f s)" for f s
    using assms by (simp add: kept_upd)
  note k = kept_trans [OF _ u] kept_trans [OF _ kept_complete] kept_trans [OF _ kept_clear [OF assms]] kept_trans [OF _ kept_pin(2)]
    kept_trans [OF _ kept_pin(4)]
  show "submit t i req s = (out, s') \<Longrightarrow> kept c s s'" "send_async t i m s = (out, s') \<Longrightarrow> kept c s s'"
    by (auto simp: submit_def send_async_def split: if_splits prod.splits option.splits dest: kept_pin_thread)
  show "submit_locked t p req s = (out, s') \<Longrightarrow> kept c s s'"
    by (erule submit_locked_cases) (simp_all add: kept_enrolled assms)
  show "submit_resume t s = (out, s') \<Longrightarrow> kept c s s'"
    unfolding submit_resume_def Let_def begin_interruptible_wait_def
    by (auto split: if_splits intro!: k kept_trans [OF _ kept_pin(3)])
  show "send_async_locked t p m s = (out, s') \<Longrightarrow> kept c s s'"
    by (erule send_async_locked_cases) (simp_all add: kept_trans [OF kept_async_put kept_pin(2)])
  show "receive_sync t s = Some (out, s') \<Longrightarrow> kept c s s'"
    unfolding receive_sync_def first_request_def begin_interruptible_wait_def
    by (auto split: if_splits option.splits prod.splits intro!: k u dest!: kept_first_request [where c = c]
      simp del: first_request_loop.simps)
  show "sys_ipc_wait t s = Some (out, s') \<Longrightarrow> kept c s s'"
    unfolding sys_ipc_wait_def first_request_def Let_def begin_interruptible_wait_def
    by (auto split: if_splits option.splits prod.splits intro!: k u dest!: kept_first_request [where c = c]
      simp del: first_request_loop.simps)
  show "sys_ipc_reply t w s = (e, s') \<Longrightarrow> kept c s s'" if "ipc_ok s"
    unfolding sys_ipc_reply_def using ipc_okD(3) [OF that, of t]
    by (auto split: if_splits option.splits intro!: k u kept_peer simp: save_regs_def)
qed

lemma kept_created: "created a s s' \<or> (\<exists>n. s' = s\<lparr>next_tid := n\<rparr>) \<Longrightarrow> c \<noteq> a \<Longrightarrow> kept c s s'"
  by (auto simp: created_def intro!: kept_same)

lemma kept_post: "post_signal u sig s = (e, s') \<Longrightarrow> kept c s s'"
proof (erule post_signal_cases)
  have u: "kept c s (upd u (posted u sig) s)"
    by (rule kept_upd) (simp add: rview_def)
  then show "kept c s s'" if "s' = add_thread u (upd u (posted u sig) s)"
    by (simp add: that kept_trans [OF u])
qed (auto intro!: kept_upd simp: rview_def)

lemma kept_kill: "sys_kill t pid sig s = (e, s') \<Longrightarrow> kept c s s'"
  by (auto simp: sys_kill_def signal_thread_def split: if_splits option.splits intro: kept_post)

lemma kept_creds: "kept c s (upd_creds t f s)"
  unfolding upd_creds_def by (rule kept_upd) (simp add: rview_def)

lemma kept_lists [simp]: "kept c s (s\<lparr>sleepers := x\<rparr>)" "kept c s (s\<lparr>irq_waiters := y\<rparr>)"
  by (simp_all add: kept_same)

lemma kept_enter:
  assumes ok: "ipc_ok s" and c: "c \<noteq> t" "c \<in> set (all_threads s)" and new: "fresh_for sc s" and step: "enter idle t sc s = Some (out, s')"
  shows "kept c s s'"
proof -
  have u: "kept c s (upd t f s)" for f s
    using c(1) by (simp add: kept_upd)
  note i = kept_ipc [OF c(1)] and b = kept_begin [OF c(1)]
  show ?thesis
  proof (cases sc)
    case (Send i m)
    then show ?thesis
      using step i(1) by (auto simp: allowed_def send_sync_def split: prod.splits if_splits dest!: ipc_send_allowed_same)
  next
    case (Call i m)
    then show ?thesis
      using step i(1) by (auto simp: allowed_def sys_ipc_call_def split: prod.splits if_splits dest!: ipc_send_allowed_same)
  next
    case (Reply m)
    then show ?thesis
      using step i(8) [OF ok] by (cases "sys_ipc_reply t m s") (auto simp: returns_def)
  next
    case (Kill pid sig)
    then show ?thesis
      using step kept_kill by (cases "sys_kill t pid sig s") (auto simp: returns_def)
  next
    case (Sigaction sig act)
    then show ?thesis
      using step u by (auto simp: sys_sigaction_def Let_def split: if_splits option.splits)
  next
    case (Sigprocmask how m)
    then show ?thesis
      using step u by (auto simp: sys_sigprocmask_def Let_def split: if_splits option.splits)
  next
    case (Sleep tick now)
    then show ?thesis
      using step by (auto simp: sleep_until_def begin_interruptible_wait_def insert_sleeper_def split: if_splits
        intro!: kept_trans [OF _ kept_lists(1)] kept_trans [OF _ u] u)
  next
    case (Wait_irq j)
    then show ?thesis
      using step by (auto simp: wait_for_irq_def begin_interruptible_wait_def split: if_splits intro!: kept_trans [OF _ kept_lists(2)] u)
  next
    case (Clone a entry stack mem kstack fds)
    then show ?thesis
      using step new c(2) sys_clone_created [OF ok, of a t entry stack mem kstack fds] kept_created [of a s s' c]
      by (cases "sys_clone a t entry stack mem kstack fds s") (auto simp: returns_def)
  next
    case (Spawn a path img mem mm)
    then show ?thesis
      using step new c(2) spawn_path_created [OF ok, of a "Some t" path 0 img mem mm] kept_created [of a s s' c]
      by (cases "spawn_path a (Some t) path 0 img mem mm s") (auto simp: returns_def)
  next
    case (Exit status)
    then show ?thesis
      using step by (auto simp: exit_thread_def intro: kept_detach)
  next
    case (Block x)
    then show ?thesis
      using step u by (auto simp: block_def begin_interruptible_wait_def split: if_splits)
  qed (use step i(4) in \<open>auto simp: returns_def sys_setuid_def sys_seteuid_def sys_setgid_def sys_setegid_def sys_setsid_def sys_setpgid_def
    Let_def kept_creds split: if_splits option.splits\<close>)
qed

lemma kept_publish: "c \<noteq> t \<Longrightarrow> kept c s (publish_termination t st s)"
proof -
  assume c: "c \<noteq> t"
  let ?s = "upd t (\<lambda>r. r\<lparr>t_exit_code := st, t_exited := True, t_state := TERMINATED\<rparr>) s"
  have "kept c s ?s"
    using c by (simp add: kept_upd)
  moreover have "kept c s2 (unblock w (upd w (\<lambda>r. r\<lparr>t_waiting_for_child := False\<rparr>) s2))" for w s2
    by (rule kept_trans [OF kept_upd kept_wake(1)]) (simp add: rview_def)
  ultimately show ?thesis
    unfolding publish_termination_def Let_def by (auto split: option.split intro: kept_trans)
qed

lemma kept_waitpid:
  assumes ok: "ipc_ok s" and c: "c \<noteq> t" and step: "waitpid_round idle t pid opts s = Some (out, s')"
  shows "kept c s s'"
proof -
  define s1 where "s1 = upd t (\<lambda>r. r\<lparr>t_waiting_for_child := False, t_wait_target := -1\<rparr>) s"
  have ok1: "ipc_ok s1"
    unfolding s1_def by (rule upd_view_ok [OF ok]) simp
  have k1: "kept c s s1" and u: "kept c s2 (upd t f s2)" for f s2
    using c by (simp_all add: s1_def kept_upd)
  have reap: "kept c s1 s'" if "d \<in> set (all_threads s1)" "t_state (tcbs s1 d) = TERMINATED" "reap_thread idle d s1 = Some s'" for d
  proof (cases "can_reap idle d s1")
    case True
    then show ?thesis
      using destroy_thread_ok [OF ok1 that(1)] that by (cases "c = d") (auto simp: reap_thread_def can_reap_def intro!: kept_same)
  next
    case False
    then have "s' = upd d (\<lambda>r. r\<lparr>t_parent_tid := 0\<rparr>) s1"
      using that(3) by (simp add: reap_thread_def)
    then show ?thesis
      by (auto intro!: kept_upd simp: rview_def)
  qed
  have found: "d \<in> set (all_threads s1) \<and> t_state (tcbs s1 d) = TERMINATED"
    if "find (\<lambda>c. is_child t pid s1 c \<and> t_state (tcbs s1 c) = TERMINATED) (all_threads s1) = Some d" for d
    using that by (auto simp: find_Some_iff)
  have "kept c s1 s'"
    using step unfolding waitpid_round_def Let_def s1_def [symmetric] begin_interruptible_wait_def
    by (auto split: option.splits if_splits intro!: kept_trans [OF u u] dest!: found intro: reap)
  then show ?thesis
    by (rule kept_trans [OF k1])
qed

lemma kept_resume:
  assumes ok: "ipc_ok s" and c: "c \<noteq> t" and step: "resume_at idle t s = Some (out, s')"
  shows "kept c s s'"
proof -
  have u: "kept c s (upd t f s)" for f s
    using c by (simp add: kept_upd)
  note e = kept_trans [OF _ kept_pin(3)]
  have w: "kept c s (end_interruptible_wait t (upd t f s))" "kept c s (end_interruptible_wait t (upd t f (s\<lparr>sleepers := x\<rparr>)))"
    "kept c s (end_interruptible_wait t (s\<lparr>irq_waiters := y\<rparr>))" for f s x y
    by (intro e u kept_lists kept_trans [OF kept_lists(1) u])+
  show ?thesis
    using step kept_ipc [OF c] kept_clear [OF c] kept_publish [OF c] kept_waitpid [OF ok c] u w
    by (cases "conts s t") (auto simp: resume_at_def waitpid_resume_def sleep_resume_def irq_resume_def Let_def)
qed

lemma kept_wake_due: "kept c s (wake_due now us s)"
proof (induction us arbitrary: s)
  case (Cons u us)
  have "kept c s (s\<lparr>sleepers := us\<rparr>)"
    by simp
  also have "kept c (s\<lparr>sleepers := us\<rparr>) (upd u (\<lambda>r. r\<lparr>t_wake_tick := 0\<rparr>) (s\<lparr>sleepers := us\<rparr>))" (is "kept _ _ ?s")
    by (rule kept_upd) (simp add: rview_def)
  also have "kept c ?s (unblock u ?s)"
    by simp
  finally show ?case
    using Cons.IH by (auto intro: kept_trans)
qed simp

text \<open>A step of the kernel itself can only end a thread that is in user mode.\<close>

lemma kstep_kept:
  assumes "kstep a out s s'" and ok: "ipc_ok s" and c: "c \<in> set (all_threads s)" "a \<noteq> Some c" "conts s c \<noteq> Running_user"
  shows "kept c s s'"
  using assms(1)
proof cases
  case (syscall t sc idle s1)
  then have "kept c s s1"
    using kept_enter [OF ok _ c(1) syscall(5,6)] c(2) by auto
  then show ?thesis
    using syscall c(2) by (auto simp: settle_def kept_def)
next
  case (resume t idle s1)
  then have "kept c s s1"
    using kept_resume [OF ok _ resume(4)] c(2) by auto
  then show ?thesis
    using resume c(2) by (auto simp: settle_def kept_def)
next
  case (killed t)
  then obtain s1 f where "detach_thread t s = Some s1" "s' = goto t (Exiting f) (upd t (\<lambda>r. r\<lparr>t_sig_pending := t_sig_pending r AND NOT (push_bit (nat f) 1)\<rparr>) s1)"
    by (auto simp: consume_fatal_signal_def Let_def split: if_splits)
  moreover from this have "kept c s (upd t (\<lambda>r. r\<lparr>t_sig_pending := t_sig_pending r AND NOT (push_bit (nat f) 1)\<rparr>) s1)"
    by (auto intro!: kept_trans [OF kept_detach kept_upd] simp: rview_def)
  ultimately show ?thesis
    using killed c(3) by (auto simp: kept_def)
next
  case (cleanup idle this)
  then show ?thesis
    using cleanup_loop_ok [OF ok ipc_okD(1) [OF ok], of idle this] c(1) by (auto simp: cleanup_terminated_def intro!: kept_same)
next
  case (boot_thread b i)
  then show ?thesis
    using kept_created [of b s s' c] spawn_created [OF ok] c(1) by auto
next
  case (boot_program b path i img mem mm e)
  then show ?thesis
    using kept_created [of b s s' c] spawn_path_created [OF ok boot_program(3,4)] c(1) by auto
next
  case (irq i)
  then show ?thesis
    by (auto simp: wake_irq_waiters_def Let_def kept_same split: option.split intro!: kept_trans [OF kept_same kept_wake(1)])
next
  case (switch_in t)
  then show ?thesis
    by (simp add: kept_def rview_def)
next
  case (switch_out t)
  then show ?thesis
    by (simp add: kept_def rview_def)
qed (simp_all add: check_sleepers_def kept_wake_due)

section \<open>Message passing\<close>

text \<open>A sequence of steps of the kernel and of the threads other than \<open>c\<close>.\<close>

inductive others_run :: "ptr \<Rightarrow> kernel \<Rightarrow> kernel \<Rightarrow> bool" for c where
  none: "others_run c s s"
| step: "others_run c s s1 \<Longrightarrow> kstep a out s1 s2 \<Longrightarrow> a \<noteq> Some c \<Longrightarrow> others_run c s s2"

text \<open>The call of \<open>c\<close> has been answered with \<open>m\<close> and \<open>c\<close> has not picked the answer up yet.\<close>

definition answered :: "ptr \<Rightarrow> fast_msg \<Rightarrow> kernel \<Rightarrow> bool" where
  "answered c m s \<longleftrightarrow>
     can_run c s \<and> conts s c = Submitted \<and> t_peer (tcbs s c) = None \<and> t_result (tcbs s c) = 0 \<and> t_kind (tcbs s c) = call \<and>
     copy_regs (tcbs s c) = m"

lemma answered_kept:
  assumes "answered c m s" and "kept c s s'"
  shows "answered c m s'"
proof -
  have "rview (tcbs s' c) = rview (tcbs s c)"
    using assms by (simp add: answered_def kept_def)
  moreover have "t_state (tcbs s' c) \<noteq> BLOCKED" "t_state (tcbs s' c) \<noteq> TERMINATED"
    using assms by (auto simp: answered_def kept_def can_run_def)
  then have "t_state (tcbs s' c) = READY \<or> t_state (tcbs s' c) = RUNNING"
    by (cases "t_state (tcbs s' c)") simp_all
  ultimately show ?thesis
    using assms by (auto simp: answered_def kept_def can_run_def rview_def copy_regs_def)
qed

lemma answered_run: "others_run c s s' \<Longrightarrow> ipc_ok s \<Longrightarrow> answered c m s \<Longrightarrow> ipc_ok s' \<and> answered c m s'"
proof (induction rule: others_run.induct)
  case (step s s1 a out s2)
  then have s1: "ipc_ok s1" "answered c m s1"
    by simp_all
  then have "kept c s1 s2"
    using kstep_kept [OF step.hyps(2) s1(1), of c] step.hyps(3) by (auto simp: answered_def can_run_def)
  then show ?case
    using kstep_ok [OF step.hyps(2)] s1 answered_kept by blast
qed simp

lemma copy_save: "copy_regs (save_regs m r) = m"
  by (simp add: copy_regs_def save_regs_def)

lemma reply_answers:
  assumes ok: "ipc_ok s" and c: "t_caller (tcbs s t) = Some c" and run: "sys_ipc_reply t m s = (0, s1)"
  shows "answered c m (goto t Running_user s1) \<and> c \<noteq> t"
proof -
  let ?s = "upd c (save_regs m) s"
  have peer: "t_peer (tcbs s c) = Some t" "t_kind (tcbs s c) = call"
    using ipc_okD(3) [OF ok c] by simp_all
  have ct: "c \<noteq> t" "c \<in> set (all_threads s)" "\<not> t_closed (tcbs s c)"
    using ipc_okD(7) [OF ok peer(1)] by simp_all
  have place: "place_ok s c"
    using ipc_okD(8) [OF ok ct(2)] .
  have s1: "s1 = complete c 0 False ?s"
    using run c unfolding sys_ipc_reply_def by (auto split: if_splits)
  have "ipc_ok ?s"
    by (rule upd_view_ok [OF ok]) (simp add: save_regs_def ipc_view_def fatal_signal_pending_def)
  then have "tcbs s1 = after_complete c t 0 False (tcbs ?s)"
    unfolding s1 by (rule complete_tcbs) (use peer in \<open>simp add: save_regs_def\<close>)
  then have tc: "tcbs s1 c = (save_regs m (tcbs s c))\<lparr>t_peer := None, t_has_queued_msg := False, t_result := 0,
      t_state := woken (t_state (save_regs m (tcbs s c))), t_pins := t_pins (save_regs m (tcbs s c)) - 1\<rparr>"
    by (simp add: after_complete_def)
  have "t_state (tcbs s c) \<noteq> TERMINATED" "conts s c = Submitted"
    using place ct(3) peer(1) by (auto simp: place_ok_def)
  moreover have "conts s1 = conts s" "all_threads s1 = all_threads s"
    by (simp_all add: s1)
  ultimately show ?thesis
    using ct peer(2) by (cases "t_state (tcbs s c)") (auto simp: answered_def can_run_def tc save_regs_def copy_regs_def)
qed

lemma answered_resumes:
  "answered c m s \<Longrightarrow> fst (submit_resume c s) = (if fatal_signal_pending (tcbs s c) then Return (-4) else Return_words m)"
  by (simp add: answered_def submit_resume_def PENDING_def Let_def)

section \<open>Credentials\<close>

text \<open>A thread without root identity and without capabilities other than raw port access.\<close>

definition confined :: "credentials \<Rightarrow> bool" where
  "confined c \<longleftrightarrow> ruid c \<noteq> ROOT_UID \<and> euid c \<noteq> ROOT_UID \<and> suid c \<noteq> ROOT_UID \<and> capabilities c AND NOT CAP_RAW_IO = 0"

text \<open>What a system call may do to the credentials of an existing thread.\<close>

definition no_gain :: "credentials \<Rightarrow> credentials \<Rightarrow> bool" where
  "no_gain c c' \<longleftrightarrow> (confined c \<longrightarrow> confined c') \<and> (has_capability c' CAP_RAW_IO \<longrightarrow> has_capability c CAP_RAW_IO)"

lemma no_gain_refl [simp]: "no_gain c c"
  by (simp add: no_gain_def)

lemma sview_creds: "sview r = sview r' \<Longrightarrow> t_creds r = t_creds r'"
  by (simp add: sview_def)

lemma creds_ipc:
  "submit t i req s = (out, s') \<Longrightarrow> t_creds (tcbs s' u) = t_creds (tcbs s u)"
  "submit_locked t p req s = (out, s') \<Longrightarrow> t_creds (tcbs s' u) = t_creds (tcbs s u)"
  "submit_resume t s = (out, s') \<Longrightarrow> t_creds (tcbs s' u) = t_creds (tcbs s u)"
  "send_async t i m s = (out, s') \<Longrightarrow> t_creds (tcbs s' u) = t_creds (tcbs s u)"
  "send_async_locked t p m s = (out, s') \<Longrightarrow> t_creds (tcbs s' u) = t_creds (tcbs s u)"
  "receive_sync t s = Some (out, s') \<Longrightarrow> t_creds (tcbs s' u) = t_creds (tcbs s u)"
  "sys_ipc_wait t s = Some (out, s') \<Longrightarrow> t_creds (tcbs s' u) = t_creds (tcbs s u)"
  "sys_ipc_reply t w s = (e, s') \<Longrightarrow> t_creds (tcbs s' u) = t_creds (tcbs s u)"
  "detach_thread t s = Some s' \<Longrightarrow> t_creds (tcbs s' u) = t_creds (tcbs s u)"
  by (intro sview_creds sview_ipc; assumption)+ (intro sview_creds sview_detach; assumption)

lemma creds_simps [simp]:
  "t_creds (tcbs (unblock t s) u) = t_creds (tcbs s u)" "t_creds (tcbs (add_thread t s) u) = t_creds (tcbs s u)"
  "t_creds (tcbs (end_interruptible_wait t s) u) = t_creds (tcbs s u)" "t_creds (tcbs (clear_wait t s) u) = t_creds (tcbs s u)"
  by (rule sview_creds, simp)+

lemma creds_kill: "sys_kill t pid sig s = (e, s') \<Longrightarrow> t_creds (tcbs s' u) = t_creds (tcbs s u)"
  by (auto simp: sys_kill_def signal_thread_def split: if_splits option.splits elim!: post_signal_cases)

lemma set_ids_no_gain:
  "no_gain (t_creds (tcbs s u)) (t_creds (tcbs (snd (sys_setuid t v s)) u))"
  "no_gain (t_creds (tcbs s u)) (t_creds (tcbs (snd (sys_seteuid t v s)) u))"
  "no_gain (t_creds (tcbs s u)) (t_creds (tcbs (snd (sys_setgid t v s)) u))"
  "no_gain (t_creds (tcbs s u)) (t_creds (tcbs (snd (sys_setegid t v s)) u))"
  "no_gain (t_creds (tcbs s u)) (t_creds (tcbs (snd (sys_setsid t s)) u))"
  "no_gain (t_creds (tcbs s u)) (t_creds (tcbs (snd (sys_setpgid t pid v s)) u))"
  by (auto simp: sys_setuid_def sys_seteuid_def sys_setgid_def sys_setegid_def sys_setsid_def sys_setpgid_def Let_def upd_creds_def
    no_gain_def confined_def is_privileged_def has_capability_def split: option.splits if_splits)

text \<open>Only creation adds threads.\<close>

lemma threads_simps [simp]:
  "all_threads (pin t s) = all_threads s" "all_threads (unpin t s) = all_threads s" "all_threads (end_interruptible_wait t s) = all_threads s"
  "all_threads (unlink_request p t s) = all_threads s" "all_threads (clear_wait t s) = all_threads s"
  by (simp_all add: pin_def unpin_def end_interruptible_wait_def unlink_request_def clear_wait_def)

lemma threads_first_request: "first_request_loop n p k s = Some (x, s') \<Longrightarrow> all_threads s' = all_threads s"
  by (induction n arbitrary: s) (auto split: option.splits if_splits)

lemma threads_detach: "detach_thread t s = Some s' \<Longrightarrow> all_threads s' = all_threads s"
proof -
  have all: "complete_all n p s = Some s' \<Longrightarrow> all_threads s' = all_threads s" for n p s s'
    by (induction n arbitrary: s) (auto split: list.splits if_splits)
  assume "detach_thread t s = Some s'"
  then show ?thesis
    by (auto simp: detach_thread_def Let_def split: if_splits option.splits dest!: all)
qed

lemma threads_ipc:
  "submit t i req s = (out, s') \<Longrightarrow> all_threads s' = all_threads s"
  "submit_locked t p req s = (out, s') \<Longrightarrow> all_threads s' = all_threads s"
  "submit_resume t s = (out, s') \<Longrightarrow> all_threads s' = all_threads s"
  "send_async t i m s = (out, s') \<Longrightarrow> all_threads s' = all_threads s"
  "send_async_locked t p m s = (out, s') \<Longrightarrow> all_threads s' = all_threads s"
  "receive_sync t s = Some (out, s') \<Longrightarrow> all_threads s' = all_threads s"
  "sys_ipc_wait t s = Some (out, s') \<Longrightarrow> all_threads s' = all_threads s"
  "sys_ipc_reply t w s = (e, s') \<Longrightarrow> all_threads s' = all_threads s"
proof -
  show "submit t i req s = (out, s') \<Longrightarrow> all_threads s' = all_threads s" "send_async t i m s = (out, s') \<Longrightarrow> all_threads s' = all_threads s"
    by (auto simp: submit_def send_async_def split: if_splits prod.splits option.splits dest: pin_threadD pin_thread_None)
  show "submit_locked t p req s = (out, s') \<Longrightarrow> all_threads s' = all_threads s"
    by (erule submit_locked_cases) (auto simp: enrolled_def Let_def)
  show "submit_resume t s = (out, s') \<Longrightarrow> all_threads s' = all_threads s"
    unfolding submit_resume_def Let_def begin_interruptible_wait_def by (auto split: if_splits)
  show "send_async_locked t p m s = (out, s') \<Longrightarrow> all_threads s' = all_threads s"
    by (erule send_async_locked_cases) (auto simp: async_put_def Let_def)
  show "receive_sync t s = Some (out, s') \<Longrightarrow> all_threads s' = all_threads s"
    unfolding receive_sync_def begin_interruptible_wait_def first_request_def
    by (auto split: if_splits option.splits prod.splits dest!: threads_first_request simp del: first_request_loop.simps)
  show "sys_ipc_wait t s = Some (out, s') \<Longrightarrow> all_threads s' = all_threads s"
    unfolding sys_ipc_wait_def begin_interruptible_wait_def first_request_def Let_def
    by (auto split: if_splits option.splits prod.splits dest!: threads_first_request simp del: first_request_loop.simps)
  show "sys_ipc_reply t w s = (e, s') \<Longrightarrow> all_threads s' = all_threads s"
    unfolding sys_ipc_reply_def by (auto split: if_splits option.splits)
qed

text \<open>The credentials after a system call: those of a thread that existed, and those of one that the call made.\<close>

definition creds_step :: "ptr \<Rightarrow> kernel \<Rightarrow> kernel \<Rightarrow> bool" where
  "creds_step t s s' \<longleftrightarrow>
     (\<forall>u\<in>set (all_threads s'). if u \<in> set (all_threads s) then no_gain (t_creds (tcbs s u)) (t_creds (tcbs s' u))
        else confined (t_creds (tcbs s t)) \<longrightarrow> confined (t_creds (tcbs s' u)))"

lemma creds_stepI: "all_threads s' = all_threads s \<Longrightarrow> (\<And>u. no_gain (t_creds (tcbs s u)) (t_creds (tcbs s' u))) \<Longrightarrow> creds_step t s s'"
  by (simp add: creds_step_def)

lemma creds_step_same:
  assumes "set (all_threads s') \<subseteq> set (all_threads s)" and "\<And>u. u \<in> set (all_threads s') \<Longrightarrow> t_creds (tcbs s' u) = t_creds (tcbs s u)"
  shows "creds_step t s s'"
  using assms by (auto simp: creds_step_def)

lemma creds_step_refl [simp]: "creds_step t s s"
  by (simp add: creds_step_same)

lemma set_ids_creds:
  "creds_step t s (snd (sys_setuid t v s))" "creds_step t s (snd (sys_seteuid t v s))" "creds_step t s (snd (sys_setgid t v s))"
  "creds_step t s (snd (sys_setegid t v s))" "creds_step t s (snd (sys_setsid t s))" "creds_step t s (snd (sys_setpgid t pid v s))"
  by (rule creds_stepI [OF _ set_ids_no_gain(1)], simp add: sys_setuid_def upd_creds_def Let_def)
    (rule creds_stepI [OF _ set_ids_no_gain(2)], simp add: sys_seteuid_def upd_creds_def Let_def,
     rule creds_stepI [OF _ set_ids_no_gain(3)], simp add: sys_setgid_def upd_creds_def Let_def,
     rule creds_stepI [OF _ set_ids_no_gain(4)], simp add: sys_setegid_def upd_creds_def Let_def,
     rule creds_stepI [OF _ set_ids_no_gain(5)], simp add: sys_setsid_def upd_creds_def Let_def,
     rule creds_stepI [OF _ set_ids_no_gain(6)], simp add: sys_setpgid_def upd_creds_def Let_def split: option.split)

lemma creds_created:
  assumes "created a s s' \<or> (\<exists>n. s' = s\<lparr>next_tid := n\<rparr>)" and "a \<notin> set (all_threads s)"
    and "created a s s' \<Longrightarrow> confined (t_creds (tcbs s t)) \<Longrightarrow> confined (t_creds (tcbs s' a))"
  shows "creds_step t s s'"
  using assms(1)
proof (elim disjE exE)
  assume new: "created a s s'"
  then have "all_threads s' = a # all_threads s" "\<And>u. u \<in> set (all_threads s) \<Longrightarrow> tcbs s' u = tcbs s u"
    using assms(2) by (auto simp: created_def)
  then show ?thesis
    using assms(2,3) new by (simp add: creds_step_def)
qed (simp add: creds_step_same)

lemma clone_creds:
  assumes "sys_clone a t entry stack mem kstack fds s = (e, s')" and "created a s s'"
  shows "t_creds (tcbs s' a) = t_creds (tcbs s t)"
  using assms by (auto simp: sys_clone_def fetch_tid_def link_thread_def created_def Let_def split: if_splits)

lemma spawn_creds:
  assumes run: "spawn_path a (Some t) path i img mem mm s = (e, s')" and new: "created a s s'" and c: "confined (t_creds (tcbs s t))"
  shows "confined (t_creds (tcbs s' a))"
proof -
  obtain pml4 entry s1 where img: "img = Inr (pml4, entry)" "spawn_user a (Some t) pml4 entry i False mem mm s = (True, s1)"
    using run new by (auto simp: spawn_path_def created_def spawn_user_def fetch_tid_def Let_def split: sum.splits prod.splits bool.splits if_splits)
  have "confined (t_creds (tcbs s1 a))"
    using img(2) c by (auto simp: spawn_user_def fetch_tid_def link_thread_def confined_def Let_def split: if_splits)
  moreover have "(x AND NOT CAP_RAW_IO OR CAP_RAW_IO) AND NOT CAP_RAW_IO = x AND NOT CAP_RAW_IO" "x AND NOT CAP_RAW_IO AND NOT CAP_RAW_IO = x AND NOT CAP_RAW_IO" for x
    by (rule bit_word_eqI, auto simp: bit_simps)+
  ultimately show ?thesis
    using run img by (cases "grants_raw_io path") (auto simp: spawn_path_def upd_creds_def confined_def Let_def)
qed

lemma enter_creds:
  assumes ok: "ipc_ok s" and new: "fresh_for sc s" and step: "enter idle t sc s = Some (out, s')"
  shows "creds_step t s s'"
proof (cases sc)
  case (Send i m)
  then show ?thesis
    using step by (auto simp: allowed_def send_sync_def split: prod.splits if_splits dest!: ipc_send_allowed_same intro!: creds_step_same
      simp: threads_ipc(1) creds_ipc(1))
next
  case (Call i m)
  then show ?thesis
    using step by (auto simp: allowed_def sys_ipc_call_def split: prod.splits if_splits dest!: ipc_send_allowed_same intro!: creds_step_same
      simp: threads_ipc(1) creds_ipc(1))
next
  case (Send_async i m)
  then show ?thesis
    using step threads_ipc(4) creds_ipc(4) by (auto intro!: creds_step_same)
next
  case (Reply m)
  then show ?thesis
    using step threads_ipc(8) creds_ipc(8) by (cases "sys_ipc_reply t m s") (auto simp: returns_def intro!: creds_step_same)
next
  case (Kill pid sig)
  then show ?thesis
    using step creds_kill [of t pid sig s] sys_kill_ok [OF ok, of t pid sig]
    by (cases "sys_kill t pid sig s") (auto simp: returns_def intro!: creds_step_same)
next
  case (Clone a entry stack mem kstack fds)
  then obtain e where run: "sys_clone a t entry stack mem kstack fds s = (e, s')" and a: "a \<notin> set (all_threads s)"
    using step new by (cases "sys_clone a t entry stack mem kstack fds s") (auto simp: returns_def)
  show ?thesis
    using creds_created [OF sys_clone_created [OF ok a run] a] clone_creds [OF run] by simp
next
  case (Spawn a path img mem mm)
  then obtain e where run: "spawn_path a (Some t) path 0 img mem mm s = (e, s')" and a: "a \<notin> set (all_threads s)"
    using step new by (cases "spawn_path a (Some t) path 0 img mem mm s") (auto simp: returns_def)
  show ?thesis
    using creds_created [OF spawn_path_created [OF ok a run] a] spawn_creds [OF run] by simp
next
  case (Exit status)
  then show ?thesis
    using step threads_detach creds_ipc(9) by (auto simp: exit_thread_def intro!: creds_step_same)
next
  case (Sleep tick now)
  then show ?thesis
    using step by (auto simp: sleep_until_def begin_interruptible_wait_def insert_sleeper_def split: if_splits intro!: creds_step_same)
next
  case (Wait_irq j)
  then show ?thesis
    using step by (auto simp: wait_for_irq_def begin_interruptible_wait_def split: if_splits intro!: creds_step_same)
next
  case (Block x)
  then show ?thesis
    using step by (auto simp: block_def begin_interruptible_wait_def split: if_splits intro!: creds_step_same)
next
  case (Sigaction sig act)
  then show ?thesis
    using step by (auto simp: sys_sigaction_def Let_def split: if_splits option.splits intro!: creds_step_same)
next
  case (Sigprocmask how m)
  then show ?thesis
    using step by (auto simp: sys_sigprocmask_def Let_def split: if_splits option.splits intro!: creds_step_same)
qed (use step set_ids_creds [of t s] in \<open>auto simp: returns_def\<close>)

lemma creds_destroy: "destroy_thread t s = Some s' \<Longrightarrow> all_threads s' = all_threads s \<and> t_creds (tcbs s' u) = t_creds (tcbs s u)"
  by (auto simp: destroy_thread_def dest: threads_detach creds_ipc(9))

lemma creds_reap: "reap_thread idle c s = Some s' \<Longrightarrow> set (all_threads s') \<subseteq> set (all_threads s) \<and> t_creds (tcbs s' u) = t_creds (tcbs s u)"
  by (auto simp: reap_thread_def split: if_splits dest!: creds_destroy [of _ _ _ u] dest: subsetD [OF set_remove1_subset])

lemma creds_cleanup: "cleanup_loop idle this ts s = Some s' \<Longrightarrow> set (all_threads s') \<subseteq> set (all_threads s) \<and> t_creds (tcbs s' u) = t_creds (tcbs s u)"
proof (induction ts arbitrary: s)
  case (Cons t ts)
  show ?case
  proof (cases "cleanup_loop idle this ts s = Some s'")
    case False
    then obtain s1 where "destroy_thread t (s\<lparr>all_threads := remove1 t (all_threads s)\<rparr>) = Some s1" "cleanup_loop idle this ts s1 = Some s'"
      using Cons.prems by (auto split: if_splits option.splits)
    then show ?thesis
      using Cons.IH [of s1] creds_destroy [of t "s\<lparr>all_threads := remove1 t (all_threads s)\<rparr>" s1 u] set_remove1_subset [of t "all_threads s"] by auto
  qed (rule Cons.IH)
qed simp

lemma creds_wake_due: "all_threads (wake_due now us s) = all_threads s \<and> t_creds (tcbs (wake_due now us s) u) = t_creds (tcbs s u)"
  by (induction us arbitrary: s) auto

lemma creds_publish: "all_threads (publish_termination t st s) = all_threads s \<and> t_creds (tcbs (publish_termination t st s) u) = t_creds (tcbs s u)"
  by (auto simp: publish_termination_def Let_def split: option.splits)

lemma resume_creds:
  assumes "resume_at idle t s = Some (out, s')"
  shows "set (all_threads s') \<subseteq> set (all_threads s) \<and> t_creds (tcbs s' u) = t_creds (tcbs s u)"
proof (cases "\<exists>pid opts. conts s t = Wait_child pid opts")
  case True
  then obtain pid opts where "waitpid_round idle t pid opts s = Some (out, s')"
    using assms by (auto simp: resume_at_def)
  then show ?thesis
    by (auto simp: waitpid_round_def begin_interruptible_wait_def Let_def split: if_splits option.splits dest!: creds_reap [of _ _ _ _ u])
next
  case False
  then show ?thesis
    using assms by (cases "conts s t")
      (auto simp: resume_at_def waitpid_resume_def sleep_resume_def irq_resume_def creds_publish threads_ipc creds_ipc Let_def split: if_splits)
qed

section \<open>Scripts\<close>

text \<open>A run given step by step: thread \<open>t\<close> makes a system call, or goes on where it was suspended.\<close>

fun script_step :: "ptr \<times> syscall option \<Rightarrow> kernel \<Rightarrow> kernel option" where
  "script_step (t, Some sc) s =
    (if can_run t s \<and> conts s t = Running_user \<and> fresh_for sc s
     then map_option (\<lambda>(out, s'). settle t out s') (enter (\<lambda>_. True) t sc s) else None)"
| "script_step (t, None) s =
    (if can_run t s then map_option (\<lambda>(out, s'). settle t out s') (resume_at (\<lambda>_. True) t s) else None)"

fun script :: "(ptr \<times> syscall option) list \<Rightarrow> kernel \<Rightarrow> kernel option" where
  "script [] s = Some s"
| "script (x # xs) s = (case script_step x s of None \<Rightarrow> None | Some s' \<Rightarrow> script xs s')"

lemma script_step_kstep: "script_step (t, x) s = Some s' \<Longrightarrow> \<exists>out. kstep (Some t) out s s'"
  by (cases x) (auto split: if_splits intro: kstep.syscall kstep.resume)

lemma script_reachable: "kreachable s \<Longrightarrow> script xs s = Some s' \<Longrightarrow> kreachable s'"
proof (induction xs arbitrary: s)
  case (Cons x xs)
  then obtain s1 where s1: "script_step x s = Some s1" "script xs s1 = Some s'"
    by (auto split: option.splits)
  obtain t y where "x = (t, y)"
    by (cases x)
  then show ?case
    using Cons s1 script_step_kstep kreachable.step by metis
qed simp

text \<open>A server, thread 1 at address 10, and a client, thread 2 at address 20; the client calls the server, which
  accepts the call and answers it.\<close>

definition demo_tcb :: "nat \<Rightarrow> tcb" where
  "demo_tcb i = zero_tcb\<lparr>t_tid := i, t_creds := root_credentials i i, t_process_id := i, t_wait_target := -1\<rparr>"

definition demo_state :: "tcb \<Rightarrow> tcb \<Rightarrow> cont \<Rightarrow> cont \<Rightarrow> kernel" where
  "demo_state server client ks kc =
    \<lparr>tcbs = (\<lambda>_. zero_tcb)(10 := server, 20 := client), all_threads = [20, 10], next_tid = 1000, sleepers = [],
     irq_waiters = (\<lambda>_. None), conts = (\<lambda>_. Running_user)(10 := ks, 20 := kc)\<rparr>"

definition demo_words :: "64 word \<Rightarrow> fast_msg" where
  "demo_words w = \<lparr>f_type = 7, f_d0 = w, f_d1 = 0, f_d2 = 0\<rparr>"

definition demo_client :: tcb where
  "demo_client = (demo_tcb 2)\<lparr>t_interruptible := True, t_state := BLOCKED, t_kind := call, t_result := PENDING, t_peer := Some 10,
     t_regs := (\<lambda>_. 0)(0 := 7, 1 := 5, 2 := 0, 3 := 0), t_pins := 1\<rparr>"

definition demo_threads :: kernel where
  "demo_threads = demo_state (demo_tcb 1) (demo_tcb 2) Running_user Running_user"

definition demo_called :: kernel where
  "demo_called = demo_state ((demo_tcb 1)\<lparr>t_pins := 1, t_queue := [20], t_queue_count := 1\<rparr>) demo_client Running_user Submitted"

definition demo_accepted :: kernel where
  "demo_accepted = demo_state ((demo_tcb 1)\<lparr>t_pins := 1, t_queue := [], t_queue_count := 0, t_caller := Some 20\<rparr>) demo_client Running_user Submitted"

lemma demo_sel [simp]:
  "tcbs (demo_state a b k l) = (\<lambda>_. zero_tcb)(10 := a, 20 := b)" "conts (demo_state a b k l) = (\<lambda>_. Running_user)(10 := k, 20 := l)"
  "all_threads (demo_state a b k l) = [20, 10]"
  by (simp_all add: demo_state_def)

lemma demo_upd [simp]:
  "upd 10 f (demo_state a b k l) = demo_state (f a) b k l" "upd 20 f (demo_state a b k l) = demo_state a (f b) k l"
  "goto 10 k' (demo_state a b k l) = demo_state a b k' l" "goto 20 k' (demo_state a b k l) = demo_state a b k k'"
  by (simp_all add: demo_state_def upd_def goto_def fun_upd_twist)

lemma demo_tcb_sel [simp]:
  "t_tid (demo_tcb i) = i" "t_state (demo_tcb i) = READY" "t_creds (demo_tcb i) = root_credentials i i" "t_queue (demo_tcb i) = []"
  "t_queue_count (demo_tcb i) = 0" "t_caller (demo_tcb i) = None" "t_pins (demo_tcb i) = 0" "\<not> t_closed (demo_tcb i)" "t_kind (demo_tcb i) = ipc_none"
  "t_peer (demo_tcb i) = None" "t_interruptible (demo_tcb i) = False" "t_regs (demo_tcb i) = (\<lambda>_. 0)" "t_sig_pending (demo_tcb i) = 0"
  "\<not> t_reply_cancelled (demo_tcb i)"
  by (simp_all add: demo_tcb_def zero_tcb_def)

lemma demo_boot: "spawn 20 2 (spawn 10 1 boot_kernel) = demo_threads"
  by (simp add: spawn_def link_thread_def boot_kernel_def demo_threads_def demo_state_def add_thread_def upd_def demo_tcb_def zero_tcb_def
    fun_upd_twist)

lemma demo_call1: "script_step (20, Some (Call 1 (demo_words 5))) demo_threads =
    Some (demo_state ((demo_tcb 1)\<lparr>t_pins := 1\<rparr>) (demo_tcb 2) Running_user (Sending 10 (Fixed (demo_words 5))))"
  by (simp add: demo_threads_def can_run_def allowed_def ipc_send_allowed_def pin_thread_def find_thread_def pin_def unpin_def may_ipc_def
    root_credentials_def sys_ipc_call_def submit_def settle_def)

lemma demo_call2: "script_step (20, None) (demo_state ((demo_tcb 1)\<lparr>t_pins := 1\<rparr>) (demo_tcb 2) Running_user (Sending 10 (Fixed (demo_words 5)))) =
    Some demo_called"
  by (simp add: can_run_def resume_at_def submit_locked_def ipc_shut_def may_ipc_def root_credentials_def MAX_PENDING_REQUESTS_def begin_interruptible_wait_def
    fatal_signal_pending_def pin_def wanted_def settle_def demo_called_def demo_client_def save_regs_def demo_words_def Let_def)

lemma demo_accept: "script [(10, Some Accept), (10, None)] demo_called = Some demo_accepted"
  by (simp add: demo_called_def demo_accepted_def can_run_def settle_def resume_at_def sys_ipc_wait_def ipc_shut_def fatal_signal_pending_def
    first_request_def demo_client_def unlink_request_def Let_def)

definition demo_replied :: kernel where
  "demo_replied = snd (sys_ipc_reply 10 (demo_words 6) demo_accepted)"

lemma demo_reply: "sys_ipc_reply 10 (demo_words 6) demo_accepted = (0, demo_replied)" "\<not> fatal_signal_pending (tcbs demo_replied 20)"
  "sleepers demo_replied = []"
  by (simp_all add: demo_replied_def demo_accepted_def sys_ipc_reply_def ipc_shut_def fatal_signal_pending_def demo_client_def save_regs_def
    complete_def unpin_def unblock_def add_thread_def Let_def) (simp add: demo_state_def)

lemma demo_reachable: "kreachable demo_threads" "kreachable demo_called" "kreachable demo_accepted"
proof -
  have "kreachable (spawn 10 1 boot_kernel)"
    by (rule kreachable.step [OF kreachable.boot], rule kstep.boot_thread) (simp add: boot_kernel_def)
  from this kstep.boot_thread show "kreachable demo_threads"
    unfolding demo_boot [symmetric] by (rule kreachable.step) (simp add: spawn_def link_thread_def boot_kernel_def)
  moreover have "script [(20, Some (Call 1 (demo_words 5))), (20, None)] demo_threads = Some demo_called"
    by (simp only: script.simps demo_call1 demo_call2 option.case)
  ultimately show "kreachable demo_called"
    by (rule script_reachable)
  then show "kreachable demo_accepted"
    using demo_accept by (rule script_reachable)
qed

lemma created_same: "created b s s' \<Longrightarrow> b \<notin> set (all_threads s) \<Longrightarrow> u \<in> set (all_threads s) \<Longrightarrow> tcbs s' u = tcbs s u"
  by (auto simp: created_def)

section \<open>Properties\<close>

text \<open>C37. A reply reaches the thread that called: when a server answers the call it has accepted, then whatever the
  kernel and all other threads do before the caller runs again, its call returns exactly the words of the answer, or the
  interruption code when a fatal signal has come in the meantime.\<close>

theorem reply_reaches_caller:
  assumes "kreachable s" and "t_caller (tcbs s t) = Some c" and "sys_ipc_reply t m s = (0, s1)"
    and "others_run c (settle t (Return 0) s1) s2" and "can_run t s" and "conts s t = Running_user"
  shows "can_run c s2 \<and> conts s2 c = Submitted \<and>
    fst (submit_resume c s2) = (if fatal_signal_pending (tcbs s2 c) then Return (-4) else Return_words m)"
proof -
  have ok: "ipc_ok s"
    using assms(1) by (rule kreachable_ok)
  have "answered c m (goto t Running_user s1)"
    using reply_answers [OF ok assms(2,3)] by simp
  moreover have "kstep (Some t) (Return 0) s (settle t (Return 0) s1)"
    by (rule kstep.syscall [OF assms(5,6), of "Reply m" "\<lambda>_. True"]) (simp_all add: assms(3) returns_def)
  then have "ipc_ok (goto t Running_user s1)"
    using kstep_ok [OF _ ok] by (simp add: settle_def)
  ultimately have "answered c m s2"
    using answered_run assms(4) by (simp add: settle_def)
  then show ?thesis
    using answered_resumes by (auto simp: answered_def)
qed

theorem reply_reaches_caller_witness:
  "sys_ipc_reply 10 (demo_words 6) demo_accepted = (0, demo_replied) \<and>
    fst (submit_resume 20 (check_sleepers 9 (settle 10 (Return 0) demo_replied))) = Return_words (demo_words 6)"
proof -
  have "t_caller (tcbs demo_accepted 10) = Some 20" "can_run 10 demo_accepted" "conts demo_accepted 10 = Running_user"
    by (simp_all add: demo_accepted_def can_run_def)
  moreover have "others_run 20 (settle 10 (Return 0) demo_replied) (check_sleepers 9 (settle 10 (Return 0) demo_replied))"
    by (rule others_run.step [OF others_run.none kstep.tick]) simp
  ultimately show ?thesis
    using reply_reaches_caller [OF demo_reachable(3), of 10 20] demo_reply by (simp add: check_sleepers_def settle_def)
qed

text \<open>C38. No wake-up is lost in message passing: a thread that is blocked has a reason to be.  One that waits for the
  answer to its request is in the queue of a peer that still accepts requests, or is the call that peer is working on;
  one that waits for a message has an empty ring of asynchronous messages and no sender in its queue; one that waits for a
  call has none in its queue and none to answer; and none that sleeps interruptibly has a fatal signal pending.\<close>

theorem ipc_no_lost_wakeup:
  assumes "kreachable s" and "t \<in> set (all_threads s)" and "t_state (tcbs s t) = BLOCKED"
  shows "(conts s t = Submitted \<longrightarrow>
      (\<exists>p\<in>set (all_threads s). \<not> ipc_shut p s \<and> (t \<in> set (t_queue (tcbs s p)) \<or> t_caller (tcbs s p) = Some t))) \<and>
    (conts s t = Receive_sleep \<longrightarrow> t_async_head (tcbs s t) = t_async_tail (tcbs s t) \<and>
      (\<forall>u\<in>set (t_queue (tcbs s t)). t_kind (tcbs s u) \<noteq> legacy_send)) \<and>
    (conts s t = Accept_sleep \<longrightarrow> t_caller (tcbs s t) = None \<and> (\<forall>u\<in>set (t_queue (tcbs s t)). t_kind (tcbs s u) \<noteq> call)) \<and>
    (sleeps (conts s t) \<longrightarrow> \<not> fatal_signal_pending (tcbs s t))"
proof -
  have ok: "ipc_ok s"
    using assms(1) by (rule kreachable_ok)
  note d = ipc_okD [OF ok]
  have wake: "wake_ok s t" and place: "place_ok s t"
    using d(8,10) [OF assms(2)] by simp_all
  have "\<exists>p\<in>set (all_threads s). \<not> ipc_shut p s \<and> (t \<in> set (t_queue (tcbs s p)) \<or> t_caller (tcbs s p) = Some t)" if sub: "conts s t = Submitted"
  proof -
    obtain p where p: "t_peer (tcbs s t) = Some p"
      using wake sub assms(3) by (auto simp: wake_ok_def)
    then have "p \<in> set (all_threads s)" "\<not> t_closed (tcbs s p)"
      using d(7) by blast+
    moreover from this have "t_state (tcbs s p) \<noteq> TERMINATED"
      using d(8) [of p] by (auto simp: place_ok_def)
    ultimately show ?thesis
      using p d(2) [of t p] by (auto simp: ipc_shut_def)
  qed
  then show ?thesis
    using wake place assms(3) by (auto simp: wake_ok_def place_ok_def)
qed

theorem ipc_no_lost_wakeup_witness:
  "t_state (tcbs demo_called 20) = BLOCKED \<and> conts demo_called 20 = Submitted \<and>
    (\<exists>p. \<not> ipc_shut p demo_called \<and> (20 \<in> set (t_queue (tcbs demo_called p)) \<or> t_caller (tcbs demo_called p) = Some 20))"
proof -
  have "20 \<in> set (all_threads demo_called)" "t_state (tcbs demo_called 20) = BLOCKED" "conts demo_called 20 = Submitted"
    by (simp_all add: demo_called_def demo_client_def)
  then show ?thesis
    using ipc_no_lost_wakeup [OF demo_reachable(2), of 20] by blast
qed

text \<open>C39. The links between threads are always consistent: a thread has a peer exactly when it is in the queue of that
  peer or is the call the peer has accepted, and not both; a queue holds a thread once, at most 64 threads, and its count
  is its length; a thread that is not pinned is in no queue, no thread's peer and no thread's caller, so the reaper may free it;
  and a suspended thread that may run can always go on.\<close>

theorem ipc_links_consistent:
  assumes "kreachable s"
  shows "(\<forall>t p. t_peer (tcbs s t) = Some p \<longleftrightarrow> t \<in> set (t_queue (tcbs s p)) \<or> t_caller (tcbs s p) = Some t) \<and>
    (\<forall>p. distinct (t_queue (tcbs s p)) \<and> t_queue_count (tcbs s p) = length (t_queue (tcbs s p)) \<and> length (t_queue (tcbs s p)) \<le> 64 \<and>
       (\<forall>c. t_caller (tcbs s p) = Some c \<longrightarrow> c \<notin> set (t_queue (tcbs s p)) \<and> t_kind (tcbs s c) = call)) \<and>
    (\<forall>t\<in>set (all_threads s). t_pins (tcbs s t) = 0 \<longrightarrow>
       t_peer (tcbs s t) = None \<and> (\<forall>u. t_peer (tcbs s u) \<noteq> Some t \<and> t \<notin> set (t_queue (tcbs s u)) \<and> t_caller (tcbs s u) \<noteq> Some t)) \<and>
    (\<forall>t. can_run t s \<and> conts s t \<noteq> Running_user \<longrightarrow> resume_at idle t s \<noteq> None)"
proof -
  have ok: "ipc_ok s"
    using assms by (rule kreachable_ok)
  note d = ipc_okD [OF ok]
  have free: "t_peer (tcbs s t) = None" "t_peer (tcbs s u) \<noteq> Some t" if "t \<in> set (all_threads s)" "t_pins (tcbs s t) = 0" for t u
    using that d(9) [OF that(1)] finite_peers [of s t] ok by (auto simp: pin_count_def ipc_ok_def split: if_splits)
  have "t_peer (tcbs s t) = Some p \<longleftrightarrow> t \<in> set (t_queue (tcbs s p)) \<or> t_caller (tcbs s p) = Some t" for t p
    using d(2,3) by blast
  moreover have "c \<notin> set (t_queue (tcbs s p)) \<and> t_kind (tcbs s c) = call" if "t_caller (tcbs s p) = Some c" for p c
    using that d(2,3) by blast
  moreover have "resume_at idle t s \<noteq> None" if "can_run t s" "conts s t \<noteq> Running_user" for t
    using resume_ok [OF ok that, of idle] by auto
  moreover have "t_peer (tcbs s t) = None \<and> (\<forall>u. t_peer (tcbs s u) \<noteq> Some t \<and> t \<notin> set (t_queue (tcbs s u)) \<and> t_caller (tcbs s u) \<noteq> Some t)"
    if "t \<in> set (all_threads s)" "t_pins (tcbs s t) = 0" for t
  proof -
    have "t \<notin> set (t_queue (tcbs s u))" "t_caller (tcbs s u) \<noteq> Some t" for u
      using free(1) [OF that] d(2) [of t u] d(3) [of u t] by auto
    then show ?thesis
      using free [OF that] by blast
  qed
  ultimately show ?thesis
    using d(4-6) unfolding MAX_PENDING_REQUESTS_def by blast
qed

theorem ipc_links_consistent_witness:
  "kreachable demo_called \<and> t_peer (tcbs demo_called 20) = Some 10 \<and> 20 \<in> set (t_queue (tcbs demo_called 10)) \<and>
    t_queue_count (tcbs demo_called 10) = 1"
proof -
  have "t_peer (tcbs demo_called 20) = Some 10" "t_caller (tcbs demo_called 10) = None" "length (t_queue (tcbs demo_called 10)) = 1"
    by (simp_all add: demo_called_def demo_client_def)
  then show ?thesis
    using ipc_links_consistent [OF demo_reachable(2)] demo_reachable(2) by auto
qed

text \<open>C40. Privilege comes from privilege only: no step gives an existing thread that has no root identity (real, effective or
  saved) and no capability beyond raw port access any of these, and none gives raw port access to an existing thread that
  lacks it; a thread created by a thread without them is created without them (raw port access apart, which
  goes with the program), and every other thread is created by the kernel itself.\<close>

theorem privilege_from_privileged:
  assumes "kreachable s" and "kstep a out s s'" and "u \<in> set (all_threads s')"
  shows "if u \<in> set (all_threads s)
    then (confined (t_creds (tcbs s u)) \<longrightarrow> confined (t_creds (tcbs s' u))) \<and>
      (has_capability (t_creds (tcbs s' u)) CAP_RAW_IO \<longrightarrow> has_capability (t_creds (tcbs s u)) CAP_RAW_IO)
    else a = None \<or> (\<exists>t. a = Some t \<and> (confined (t_creds (tcbs s t)) \<longrightarrow> confined (t_creds (tcbs s' u))))"
proof -
  have ok: "ipc_ok s"
    using assms(1) by (rule kreachable_ok)
  have same: ?thesis if "u \<in> set (all_threads s) \<Longrightarrow> t_creds (tcbs s' u) = t_creds (tcbs s u)" "a = None"
    using that by auto
  from assms(2) show ?thesis
  proof cases
    case (syscall t sc idle s1)
    then have "creds_step t s s1" "u \<in> set (all_threads s1)"
      using enter_creds [OF ok] assms(3) by (auto simp: settle_def)
    then show ?thesis
      using syscall(1,2) by (auto simp: creds_step_def no_gain_def settle_def split: if_splits)
  next
    case (resume t idle s1)
    then show ?thesis
      using resume_creds [OF resume(4), of u] assms(3) by (auto simp: settle_def)
  next
    case (killed t)
    then obtain s1 f where "detach_thread t s = Some s1" "s' = goto t (Exiting f) (upd t (\<lambda>r. r\<lparr>t_sig_pending := t_sig_pending r AND NOT (push_bit (nat f) 1)\<rparr>) s1)"
      by (auto simp: consume_fatal_signal_def Let_def split: if_splits)
    then show ?thesis
      using same killed(1) creds_ipc(9) by auto
  next
    case (cleanup idle this)
    then show ?thesis
      using same creds_cleanup [of idle this "all_threads s" s s' u] by (simp add: cleanup_terminated_def)
  next
    case (boot_thread b i)
    then show ?thesis
      using same created_same [OF spawn_created [OF ok boot_thread(4)] boot_thread(4)] by auto
  next
    case (boot_program b path i img mem mm e)
    then show ?thesis
      using same spawn_path_created [OF ok boot_program(3,4)] created_same [OF _ boot_program(3), of s'] by auto
  next
    case (irq i)
    then show ?thesis
      using same by (auto simp: wake_irq_waiters_def Let_def split: option.splits)
  qed (use same creds_wake_due in \<open>auto simp: check_sleepers_def\<close>)
qed

text \<open>The client gives up its privileges and then makes a thread.\<close>

definition demo_user :: kernel where
  "demo_user = the (script_step (20, Some (Setuid 1000)) demo_threads)"

definition demo_cloned :: kernel where
  "demo_cloned = the (script_step (20, Some (Clone 30 4096 True True True 0)) demo_user)"

lemma demo_user_steps:
  "script_step (20, Some (Setuid 1000)) demo_threads = Some demo_user" "confined (t_creds (tcbs demo_user 20))"
  "\<exists>s. script_step (20, Some (Clone 30 4096 True True True 0)) demo_user = Some s" "all_threads demo_cloned = [30, 20, 10]" "all_threads demo_user = [20, 10]"
  by (simp_all add: demo_user_def demo_cloned_def demo_threads_def can_run_def sys_setuid_def is_privileged_def root_credentials_def upd_creds_def
    settle_def returns_def confined_def ROOT_UID_def sys_clone_def fetch_tid_def link_thread_def Let_def)

theorem privilege_from_privileged_witness:
  "confined (t_creds (tcbs demo_user 20)) \<and> 30 \<in> set (all_threads demo_cloned) \<and> confined (t_creds (tcbs demo_cloned 30))"
proof -
  have "script [(20, Some (Setuid 1000))] demo_threads = Some demo_user"
    by (simp only: script.simps demo_user_steps(1) option.case)
  then have "kreachable demo_user"
    using demo_reachable(1) script_reachable by blast
  moreover obtain out where "kstep (Some 20) out demo_user demo_cloned"
    using demo_user_steps(3) script_step_kstep unfolding demo_cloned_def by fastforce
  ultimately show ?thesis
    using privilege_from_privileged [of demo_user "Some 20" out demo_cloned 30] demo_user_steps by simp
qed

end
