(* ===== verification/Spec2Isabelle.thy ===== *)
theory Spec2Isabelle
  imports Prelude Frame_Source Buddy Pmm Byte_Queue Vfs Byte_File Ramfs Local_Socket Epoll Net_Buffer Net Dispatch Vma Vmm Elf Threads Ipc Process Lifecycle
begin

text \<open>
  \<^bold>\<open>Verification of the rucux kernel.\<close>

  rucux is a small kernel written in freestanding C++.  Page frames come from a buddy allocator
  behind per-processor caches; address spaces are four-level page tables with a list of memory areas;
  executables are loaded into them; threads are dispatched on several processors and exchange messages,
  signals and exit codes; files, local sockets
  and readiness sets are nodes of a virtual file system; a network stack carries UDP over ARP, IPv4
  and a loopback interface.  This development models these parts from the source under \<open>src/src\<close> and
  proves what each of them promises.  Paths below are relative to \<open>src/src/kernel\<close> unless they say
  otherwise.

  \<^bold>\<open>How code becomes definitions.\<close>  An operation is one function on an explicit state and keeps the name
  of the source; where that name is taken a prefix or suffix is added.  Pointers are numbers, null is
  \<^term>\<open>None\<close> or 0, arrays are lists or functions of the index.  Integers are words where bits matter,
  and otherwise natural numbers or integers with the wrap-around of the machine type written out
  (\<open>Prelude\<close>: \<open>wadd\<close>, \<open>wsub\<close>, \<open>wmul\<close>).  Error codes are the negative results of the source or
  \<^term>\<open>None\<close>.  Whether the kernel heap can satisfy an allocation is an argument (\<open>mem\<close>) of the operation that asks.
  A critical section is one step; what runs concurrently is an \<open>inductive\<close> step relation whose
  reachable states the invariants cover.

  \<^bold>\<open>Memory.\<close>
  \<^item> \<open>Frame_Source\<close> is the interface of a provider of page frames, a locale with the laws of \<open>alloc\<close> and
    \<open>release\<close>; its lemmas follow a client through any sequence of calls.
  \<^item> \<open>Buddy\<close> models \<open>memory/buddy.cpp\<close>: splitting, coalescing and the initial carving of the arena.
    Every operation is specified on the set of free frames and keeps lists that are aligned, disjoint
    and fully coalesced.  It interprets the interface.
  \<^item> \<open>Pmm\<close> models \<open>memory/pmm.cpp\<close>: the caches of 64 pages per processor with refill and spill.  It
    interprets the interface for all processors, so that no interleaving hands out a live frame twice.
  \<^item> \<open>Vma\<close> models \<open>memory/vma.cpp\<close>: areas of an address space.  Inserting, removing and changing the
    protection refine the corresponding operation on the map from bytes to attributes.
  \<^item> \<open>Vmm\<close> models \<open>../arch/amd64/vmm.cpp\<close> and \<open>memory/user_access.cpp\<close> on a memory of words in frames.
    Mapping a page changes one translation and no other; tables of an address space form a tree of
    frames owned by it; a copy to user memory writes exactly the bytes behind a range that is writable
    by the user.
  \<^item> \<open>Elf\<close> models \<open>process/elf_validate.cpp\<close> and \<open>process/elf.cpp\<close>: what a validated file guarantees, and
    that loading it leaves exactly its image.

  \<^bold>\<open>Files and sockets.\<close>
  \<^item> \<open>Byte_File\<close> and \<open>Byte_Queue\<close> are the interfaces of a regular file and of a bounded byte queue.
  \<^item> \<open>Vfs\<close> models \<open>vfs/vfs.cpp\<close>: node references, paths, descriptor tables and the calls over them.  The
    function tables of the nodes are an argument; the locale \<open>vfs_driver\<close> states what a table must keep.
  \<^item> \<open>Ramfs\<close> models \<open>vfs/ramfs.cpp\<close> and interprets \<open>byte_file\<close>; bytes cut off by a truncation do not
    reappear, and what is written through a descriptor is read back.
  \<^item> \<open>Local_Socket\<close> models \<open>ipc/local_socket.cpp\<close>: connections are symmetric and confined to live slots,
    and a connection interprets \<open>bounded_fifo\<close>.
  \<^item> \<open>Epoll\<close> models the readiness calls of \<open>vfs/vfs.cpp\<close> and joins the drivers into one table, on which
    it interprets \<open>vfs_driver\<close>: reference counts equal the number of holders over any run.

  \<^bold>\<open>Network.\<close>
  \<^item> \<open>Net_Buffer\<close> models \<open>net/netbuf.cpp\<close> and \<open>net/checksum.cpp\<close>: a stored checksum verifies, and detects a
    change of one byte.
  \<^item> \<open>Net\<close> models \<open>net/netif.cpp\<close>, \<open>arp.cpp\<close>, \<open>ethernet.cpp\<close>, \<open>ipv4.cpp\<close> and \<open>udp.cpp\<close>: delivery over the
    loopback interface, exclusive endpoints, allocation of ephemeral ports, and resolution.

  \<^bold>\<open>Scheduling.\<close>
  \<^item> \<open>Dispatch\<close> models \<open>scheduler/dispatch.cpp\<close>, the run queues of \<open>cpu/percpu.hpp\<close> and the protocol of
    \<open>scheduler::schedule\<close> on all processors.  A run queue is its head, tail and count, and the links
    are the \<open>next\<close> fields of the threads; \<open>rq_items\<close> abstracts it to a list.  A new thread exists before it is queued.
    A thread runs on at most one processor, wake-ups are not lost, the traversal \<open>queues_valid\<close> of the source
    succeeds, and the reaper frees only threads that nothing refers to.

  \<^bold>\<open>Threads and messages.\<close>  These four theories see a thread as its record, without the processors: whether it may run
  is its \<open>state\<close> field, and where it gave up the processor is the field \<open>conts\<close> of the kernel, one constructor for each
  place in the source.
  \<^item> \<open>Threads\<close> models the thread record and list of \<open>scheduler/scheduler.cpp\<close>, pins, interruptible waits and wake-ups,
    the checks of \<open>process/credentials.cpp\<close> and the posting of signals in \<open>process/signal.cpp\<close>.
  \<^item> \<open>Ipc\<close> models \<open>ipc/ipc.cpp\<close>: each section under the lock of message passing is one function.  Its invariant \<open>ipc_ok\<close> ties
    queues, peers, accepted calls, pins and the places where threads wait.
  \<^item> \<open>Process\<close> models creation, sleeping, waits for interrupts and children, fatal signals, exit and reaping in
    \<open>scheduler/scheduler.cpp\<close>, the calls of \<open>process/credentials.cpp\<close> and the thread part of \<open>process/spawn.cpp\<close>.  The relation
    \<open>kstep\<close> interleaves all system calls and resumptions with ticks, interrupts, wake-ups and the reaper, and every step keeps
    the invariant.
  \<^item> \<open>Lifecycle\<close> holds what follows for every run: an answer reaches its caller whatever happens in between, no wake-up of
    message passing is lost, an unpinned thread is linked nowhere, and privilege comes from privilege only.

  \<^bold>\<open>Bounds and fuel.\<close>  Loops of the source are structural recursions, or recursions with a proof of
  termination.  Loops whose end depends on data in memory (the walk over areas that meet a range)
  carry fuel, and the property about the operation shows that the fuel given by its definition
  suffices.  The loops of message passing over a request queue carry the length of the queue as fuel, and the
  invariant shows that they end within it.  A wait in \<open>Epoll\<close> is a function of the finite list of moments at which it looks, with \<^term>\<open>None\<close> for
  a call that is still waiting.  Sizes of pools, caches and rings are those of the source.

  \<^bold>\<open>Not modelled.\<close>  Thread stacks and the assembly of context switches, interrupt controllers, timers,
  port and memory-mapped I/O, the boot path and the drivers are access to a machine that the kernel
  sources do not describe.  The aarch64 and armv7 ports differ in page table format and are left out.
  TLB shootdown and spin locks appear as atomic steps.  Wait queues and futexes appear as waits that some
  other part of the kernel ends.  The on-disk file systems, the TCP state machine, mmap, the slab allocator and the graphical console are not covered yet.
  The C library, services, programs, boot loaders and host tools are outside the kernel.
\<close>

end
